(* ===== verification/Om_Prelude.thy ===== *)
theory Om_Prelude
  imports Main "HOL-Library.Word" "HOL-Library.Monad_Syntax" "HOL-Library.Multiset"
    "HOL-Library.Sublist"
begin

section \<open>Shared types, string views, sizes and the chunk feed\<close>

text \<open>
  What every component of the development uses:
  \<^item> the types of the model: bytes are HOL characters (\<^verbatim>\<open>std::byte\<close> and \<^verbatim>\<open>char\<close> are both one
    byte, the code converts between them with \<^verbatim>\<open>reinterpret_cast\<close>), \<^verbatim>\<open>std::size_t\<close> is a
    64-bit word, \<^verbatim>\<open>std::expected<T, std::string>\<close> is a sum with the error on the left;
  \<^item> what ends a C++ call other than a normal return (\<open>outcome\<close>);
  \<^item> the operations of \<^verbatim>\<open>std::string_view\<close> and \<^verbatim>\<open>std::format\<close> the source uses;
  \<^item> lemmas on 64-bit counters, collected in \<open>size_simps\<close>;
  \<^item> the reference semantics \<open>feed\<close> of a source that hands consecutive chunks to the
    next stage.
  A call that may never return has an \<^verbatim>\<open>option\<close> result: \<open>None\<close> is \<open>does not return\<close>.
\<close>

named_theorems size_simps "reading 64-bit counters as natural numbers"
named_theorems view_simps "string views as lists"

subsection \<open>Types\<close>

type_synonym bytes = "char list"
type_synonym size_t = "64 word"
type_synonym 'a expected = "string + 'a"

text \<open>
  One stage of a pipeline, as its caller sees it: data and the state of everything
  downstream go in, a result and the new state come out.
\<close>

type_synonym ('d, 's) stage = "'d \<Rightarrow> 's \<Rightarrow> (size_t expected \<times> 's) option"

datatype exn = Runtime_Error string | Unknown_Exception

datatype 'a outcome =
    Returned 'a
  | Threw exn
  | Terminated            \<comment> \<open>\<^verbatim>\<open>std::terminate\<close>: an exception left a thread or a \<^verbatim>\<open>noexcept\<close> call\<close>
  | Contract_Violation    \<comment> \<open>a \<^verbatim>\<open>pre\<close>, \<^verbatim>\<open>post\<close> or \<^verbatim>\<open>contract_assert\<close> that is enforced fails\<close>
  | Undefined             \<comment> \<open>undefined behaviour: an access outside an object\<close>

text \<open>Going on after a call that returned; anything else ends the caller too.\<close>

fun bind_outcome :: "'a outcome \<Rightarrow> ('a \<Rightarrow> 'b outcome) \<Rightarrow> 'b outcome" where
  "bind_outcome (Returned x) f = f x"
| "bind_outcome (Threw e) f = Threw e"
| "bind_outcome Terminated f = Terminated"
| "bind_outcome Contract_Violation f = Contract_Violation"
| "bind_outcome Undefined f = Undefined"

abbreviation newline :: char where
  "newline \<equiv> CHR 0x0A"

abbreviation carriage_return :: char where
  "carriage_return \<equiv> CHR 0x0D"

subsection \<open>Sizes\<close>

definition size_of :: "'a list \<Rightarrow> size_t" where
  "size_of xs = word_of_nat (length xs)"

text \<open>Decimal output of an unsigned number, as \<^verbatim>\<open>std::format("{}", n)\<close> prints it.\<close>

fun show_nat :: "nat \<Rightarrow> string" where
  "show_nat n =
     (if n < 10 then [char_of (48 + n)] else show_nat (n div 10) @ [char_of (48 + n mod 10)])"

declare show_nat.simps [simp del]

definition show_size :: "size_t \<Rightarrow> string" where
  "show_size n = show_nat (unat n)"

definition show_int :: "int \<Rightarrow> string" where
  "show_int i = (if i < 0 then CHR ''-'' # show_nat (nat (- i)) else show_nat (nat i))"

subsection \<open>String views\<close>

text \<open>
  \<^verbatim>\<open>find(c, pos)\<close> and \<^verbatim>\<open>find_last_of(c)\<close>: the index, or \<open>None\<close> for \<^verbatim>\<open>npos\<close>;
  \<^verbatim>\<open>substr(pos, n)\<close> clips \<^verbatim>\<open>n\<close> at the end of the view.
\<close>

definition sv_find :: "char \<Rightarrow> string \<Rightarrow> nat \<Rightarrow> nat option" where
  "sv_find c s pos =
     (let k = pos + length (takeWhile (\<lambda>x. x \<noteq> c) (drop pos s))
      in if k < length s then Some k else None)"

definition sv_find_last_of :: "char \<Rightarrow> string \<Rightarrow> nat option" where
  "sv_find_last_of c s =
     (let k = length (takeWhile (\<lambda>x. x \<noteq> c) (rev s))
      in if k < length s then Some (length s - Suc k) else None)"

definition sv_substr :: "nat \<Rightarrow> nat \<Rightarrow> string \<Rightarrow> string" where
  "sv_substr pos n s = take n (drop pos s)"

definition starts_with :: "string \<Rightarrow> string \<Rightarrow> bool" where
  "starts_with s p = (take (length p) s = p)"

subsection \<open>Feeding chunks to a stage\<close>

text \<open>
  The reference semantics of a source: the chunks are passed on in order, the counts the
  next stage returns are added up, the first error ends the run.
\<close>

fun feed :: "('d, 's) stage \<Rightarrow> 'd list \<Rightarrow> size_t \<Rightarrow> 's \<Rightarrow> (size_t expected \<times> 's) option" where
  "feed next [] acc s = Some (Inr acc, s)"
| "feed next (c # cs) acc s =
     (case next c s of
        None \<Rightarrow> None
      | Some (Inl e, s') \<Rightarrow> Some (Inl e, s')
      | Some (Inr n, s') \<Rightarrow> feed next cs (acc + n) s')"

section \<open>Lemmas\<close>

text \<open>Results are stated with a case distinction on the sum; simplify inside its branches.\<close>

declare sum.case_cong [cong]

subsection \<open>64-bit counters\<close>

lemma unat_size_of [size_simps]: "length xs < 2 ^ 64 \<Longrightarrow> unat (size_of xs) = length xs"
  by (simp add: size_of_def unat_of_nat take_bit_nat_eq_self)

lemma size_of_Nil [simp]: "size_of [] = 0"
  by (simp add: size_of_def)

lemma size_of_append: "size_of (xs @ ys) = size_of xs + size_of ys"
  by (simp add: size_of_def)

lemma unat_size_bound: "unat (x :: size_t) < 2 ^ 64"
  using unsigned_less [of x] by simp

lemma unat_plus_nat [size_simps]:
  fixes off :: size_t
  assumes "unat off + k < 2 ^ 64"
  shows "unat (off + word_of_nat k) = unat off + k"
proof -
  have "unat (off + word_of_nat k) = (unat off + k mod 2 ^ 64) mod 2 ^ 64"
    by (simp add: unat_word_ariths unat_of_nat take_bit_eq_mod)
  with assms show ?thesis by simp
qed

lemma word_of_int_nonneg: "0 \<le> r \<Longrightarrow> (word_of_int r :: size_t) = word_of_nat (nat r)"
  by simp

lemma unat_plus_int [size_simps]:
  fixes off :: size_t
  assumes "0 \<le> r" "unat off + nat r < 2 ^ 64"
  shows "unat (off + word_of_int r) = unat off + nat r"
  using unat_plus_nat [OF assms(2)] assms(1) by simp

lemma unat_minus [size_simps]:
  fixes a b :: size_t
  shows "b \<le> a \<Longrightarrow> unat (a - b) = unat a - unat b"
  by (rule unat_sub)

lemma unat_min [size_simps]:
  fixes a b :: size_t
  shows "unat (min a b) = min (unat a) (unat b)"
  by (simp add: min_def word_le_nat_alt)

subsection \<open>String views\<close>

lemma length_takeWhile_full:
  "length (takeWhile (\<lambda>x. x \<noteq> c) xs) = length xs \<longleftrightarrow> c \<notin> set xs"
  by (induction xs) auto

lemma sv_find_Some:
  assumes "sv_find c s pos = Some k"
  shows "pos \<le> k" "k < length s" "s ! k = c" "c \<notin> set (take (k - pos) (drop pos s))"
proof -
  let ?t = "takeWhile (\<lambda>x. x \<noteq> c) (drop pos s)"
  from assms have k: "k = pos + length ?t" and lt: "k < length s"
    by (auto simp: sv_find_def Let_def split: if_splits)
  show "pos \<le> k" "k < length s" using k lt by simp_all
  have "length ?t < length (drop pos s)" using k lt by simp
  then have "drop pos s ! length ?t = c"
    using nth_length_takeWhile by fastforce
  then show "s ! k = c" using k lt by (simp add: nth_drop)
  have "take (k - pos) (drop pos s) = ?t"
    using k by (simp add: takeWhile_eq_take [symmetric])
  then show "c \<notin> set (take (k - pos) (drop pos s))"
    by (auto dest: set_takeWhileD)
qed

lemma sv_find_None: "pos \<le> length s \<Longrightarrow> sv_find c s pos = None \<longleftrightarrow> c \<notin> set (drop pos s)"
proof -
  assume pos: "pos \<le> length s"
  have "length (takeWhile (\<lambda>x. x \<noteq> c) (drop pos s)) \<le> length (drop pos s)"
    by (rule length_takeWhile_le)
  moreover have "length (takeWhile (\<lambda>x. x \<noteq> c) (drop pos s)) = length (drop pos s)
      \<longleftrightarrow> c \<notin> set (drop pos s)"
    by (rule length_takeWhile_full)
  ultimately show ?thesis
    using pos by (auto simp: sv_find_def Let_def)
qed

lemma sv_find_last_of_Some:
  assumes "sv_find_last_of c s = Some k"
  shows "k < length s" "s ! k = c" "c \<notin> set (drop (Suc k) s)"
proof -
  let ?t = "takeWhile (\<lambda>x. x \<noteq> c) (rev s)"
  from assms have k: "k = length s - Suc (length ?t)" and lt: "length ?t < length s"
    by (auto simp: sv_find_last_of_def Let_def split: if_splits)
  show "k < length s" using k lt by simp
  have "rev s ! length ?t = c"
    using nth_length_takeWhile [of "\<lambda>x. x \<noteq> c" "rev s"] lt by simp
  then show "s ! k = c" using k lt by (simp add: rev_nth)
  have "drop (Suc k) s = rev (take (length ?t) (rev s))"
    using k lt by (simp add: rev_take Suc_diff_Suc)
  also have "take (length ?t) (rev s) = ?t"
    by (simp add: takeWhile_eq_take [symmetric])
  finally have "drop (Suc k) s = rev ?t" .
  then show "c \<notin> set (drop (Suc k) s)"
    by (auto dest: set_takeWhileD)
qed

lemma sv_find_last_of_None: "sv_find_last_of c s = None \<longleftrightarrow> c \<notin> set s"
proof -
  have "length (takeWhile (\<lambda>x. x \<noteq> c) (rev s)) \<le> length (rev s)"
    by (rule length_takeWhile_le)
  moreover have "length (takeWhile (\<lambda>x. x \<noteq> c) (rev s)) = length (rev s) \<longleftrightarrow> c \<notin> set (rev s)"
    by (rule length_takeWhile_full)
  ultimately show ?thesis
    by (auto simp: sv_find_last_of_def Let_def)
qed

subsection \<open>Outcomes\<close>

lemma bind_outcome_Returned:
  "bind_outcome r f = Returned y \<longleftrightarrow> (\<exists>x. r = Returned x \<and> f x = Returned y)"
  by (cases r) auto

text \<open>
  A call that returns with \<open>P\<close>, or is stopped by one of the program's own contract checks: it neither
  throws nor runs into undefined behaviour.
\<close>

definition safe_outcome :: "('a \<Rightarrow> bool) \<Rightarrow> 'a outcome \<Rightarrow> bool" where
  "safe_outcome P r \<longleftrightarrow> (case r of Returned x \<Rightarrow> P x | Contract_Violation \<Rightarrow> True | _ \<Rightarrow> False)"

lemma safe_outcome_simps [simp]:
  "safe_outcome P (Returned x) = P x" "safe_outcome P Contract_Violation"
  "\<not> safe_outcome P (Threw e)" "\<not> safe_outcome P Terminated" "\<not> safe_outcome P Undefined"
  by (simp_all add: safe_outcome_def)

lemma safe_outcome_bind:
  "safe_outcome P r \<Longrightarrow> (\<And>x. P x \<Longrightarrow> safe_outcome Q (f x)) \<Longrightarrow> safe_outcome Q (bind_outcome r f)"
  by (cases r) simp_all

lemma safe_outcome_mono: "safe_outcome P r \<Longrightarrow> (\<And>x. P x \<Longrightarrow> Q x) \<Longrightarrow> safe_outcome Q r"
  by (cases r) simp_all

subsection \<open>Feeding chunks\<close>

lemma feed_append:
  "feed next (xs @ ys) acc s =
     (case feed next xs acc s of
        Some (Inr n, s') \<Rightarrow> feed next ys n s'
      | r \<Rightarrow> r)"
  by (induction xs arbitrary: acc s) (auto split: option.splits sum.splits prod.splits)

lemma take_append_take_drop: "take m xs @ take k (drop m xs) = take (m + k) xs"
  by (rule take_add [symmetric])

end
