(* ===== verification/Posix.thy ===== *)
theory Posix
  imports Om_Prelude
begin

section \<open>The operating system as a parameter\<close>

text \<open>
  The kernel is not part of the repository. Every definition that makes a system call
  takes an interface \<open>'w os\<close>: one function per call over an abstract world \<open>'w\<close>.
  A call returns what the C wrapper returns (\<^verbatim>\<open>ssize_t\<close> and \<^verbatim>\<open>int\<close> as \<open>int\<close>, with the
  bytes a read leaves in the caller's buffer) and the next world. \<^verbatim>\<open>splice\<close> may block for
  ever, when it waits for data in a pipe nobody will ever fill: that is \<open>None\<close>.
  What a component relies on is stated as a locale over this interface (the contracts below):
  documented behaviour of the calls, with short transfers and errors allowed.
\<close>

type_synonym ptr = "64 word"
type_synonym mode = "32 word"
type_synonym flags = "32 word"

record statx =
  stx_size :: size_t
  stx_mode :: mode

record rlimit =
  rlim_cur :: size_t
  rlim_max :: size_t

record 'w os =
  sys_openat :: "int \<Rightarrow> string \<Rightarrow> flags \<Rightarrow> 'w \<Rightarrow> int \<times> 'w"
  sys_close :: "int \<Rightarrow> 'w \<Rightarrow> 'w"
  sys_statx :: "int \<Rightarrow> 'w \<Rightarrow> (int \<times> statx) \<times> 'w"
  sys_fadvise :: "int \<Rightarrow> size_t \<Rightarrow> 'w \<Rightarrow> int \<times> 'w"
  sys_isatty :: "int \<Rightarrow> 'w \<Rightarrow> int"
  sys_pread :: "int \<Rightarrow> size_t \<Rightarrow> size_t \<Rightarrow> 'w \<Rightarrow> (int \<times> bytes) \<times> 'w"
  sys_write :: "int \<Rightarrow> bytes \<Rightarrow> 'w \<Rightarrow> int \<times> 'w"
  sys_copy_file_range :: "int \<Rightarrow> int \<Rightarrow> size_t \<Rightarrow> 'w \<Rightarrow> int \<times> 'w"
  sys_splice :: "int \<Rightarrow> int \<Rightarrow> size_t \<Rightarrow> 'w \<Rightarrow> (int \<times> 'w) option"
  sys_sendfile :: "int \<Rightarrow> int \<Rightarrow> size_t \<Rightarrow> size_t \<Rightarrow> 'w \<Rightarrow> int \<times> 'w"
  sys_pipe :: "'w \<Rightarrow> (int \<times> int \<times> int) \<times> 'w"
  sys_setpipe_sz :: "int \<Rightarrow> int \<Rightarrow> 'w \<Rightarrow> int \<times> 'w"
  sys_mmap :: "size_t \<Rightarrow> int \<Rightarrow> 'w \<Rightarrow> ptr \<times> 'w"
  sys_munmap :: "ptr \<Rightarrow> size_t \<Rightarrow> 'w \<Rightarrow> 'w"
  os_mem :: "'w \<Rightarrow> ptr \<Rightarrow> size_t \<Rightarrow> bytes option"
  sys_getdents64 :: "int \<Rightarrow> nat \<Rightarrow> 'w \<Rightarrow> (int \<times> bytes) \<times> 'w"
  sys_getrlimit :: "'w \<Rightarrow> (int \<times> rlimit) \<times> 'w"
  sys_setrlimit :: "rlimit \<Rightarrow> 'w \<Rightarrow> int \<times> 'w"
  os_getenv :: "'w \<Rightarrow> string \<Rightarrow> string option"
  os_errno :: "'w \<Rightarrow> int"
  os_strerror :: "int \<Rightarrow> string"

subsection \<open>Constants of the platform headers\<close>

abbreviation (input) STDOUT_FILENO :: int where "STDOUT_FILENO \<equiv> 1"
abbreviation (input) STDERR_FILENO :: int where "STDERR_FILENO \<equiv> 2"
abbreviation (input) AT_FDCWD :: int where "AT_FDCWD \<equiv> - 100"

abbreviation (input) O_RDONLY :: flags where "O_RDONLY \<equiv> 0"
abbreviation (input) O_DIRECTORY :: flags where "O_DIRECTORY \<equiv> 0x10000"
abbreviation (input) O_NOFOLLOW :: flags where "O_NOFOLLOW \<equiv> 0x20000"
abbreviation (input) O_NOATIME :: flags where "O_NOATIME \<equiv> 0x40000"

abbreviation (input) MAP_FAILED :: ptr where "MAP_FAILED \<equiv> - 1"

unbundle bit_operations_syntax

text \<open>The file-type tests of \<^verbatim>\<open><sys/stat.h>\<close>: the bits under \<^verbatim>\<open>S_IFMT\<close>.\<close>

definition S_ISREG :: "mode \<Rightarrow> bool" where "S_ISREG m \<longleftrightarrow> m AND 0xF000 = 0x8000"
definition S_ISCHR :: "mode \<Rightarrow> bool" where "S_ISCHR m \<longleftrightarrow> m AND 0xF000 = 0x2000"
definition S_ISFIFO :: "mode \<Rightarrow> bool" where "S_ISFIFO m \<longleftrightarrow> m AND 0xF000 = 0x1000"

lemma file_types_disjoint:
  "S_ISREG m \<Longrightarrow> \<not> S_ISCHR m" "S_ISREG m \<Longrightarrow> \<not> S_ISFIFO m" "S_ISCHR m \<Longrightarrow> \<not> S_ISFIFO m"
  by (auto simp: S_ISREG_def S_ISCHR_def S_ISFIFO_def)

section \<open>Contracts of the calls\<close>

text \<open>
  \<open>good\<close> is the set of worlds in which the descriptors of a run are open on what the
  contract says; every call keeps it.

  \<^verbatim>\<open>pread\<close> on a regular file: an error, or at most \<open>cnt\<close> bytes of the file from the given
  offset, none only at the end of the file.
\<close>

locale pread_source =
  fixes os :: "'w os" and fd :: int and data :: bytes and good :: "'w \<Rightarrow> bool"
  assumes pread_law: "good w \<Longrightarrow> sys_pread os fd cnt off w = ((r, bs), w') \<Longrightarrow>
      good w' \<and> (r = -1 \<or>
        (r = int (length bs) \<and> length bs \<le> unat cnt \<and>
         bs = take (length bs) (drop (unat off) data) \<and>
         (bs = [] \<longrightarrow> cnt = 0 \<or> length data \<le> unat off)))"
    and data_bound: "length data < 2 ^ 63"

text \<open>
  \<^verbatim>\<open>write\<close> on standard output: an error and nothing written, or a non-empty prefix of the
  buffer appended to what was written before.
\<close>

locale stdout_writer =
  fixes os :: "'w os" and out :: "'w \<Rightarrow> bytes" and good :: "'w \<Rightarrow> bool"
  assumes write_law: "good w \<Longrightarrow> sys_write os STDOUT_FILENO bs w = (r, w') \<Longrightarrow>
      good w' \<and>
      (r = -1 \<and> out w' = out w \<or>
       0 \<le> r \<and> nat r \<le> length bs \<and> out w' = out w @ take (nat r) bs \<and> (bs \<noteq> [] \<longrightarrow> 0 < r))"

text \<open>
  A transfer that moves bytes from the position of an open file to a destination, as
  \<^verbatim>\<open>copy_file_range\<close> and \<^verbatim>\<open>splice\<close> do with null offsets: an error, or at most \<open>cnt\<close>
  bytes moved from \<open>rest\<close> (what is left of the input) to \<open>dst\<close>; zero only at the end.
\<close>

locale transfer =
  fixes xfer :: "size_t \<Rightarrow> 'w \<Rightarrow> (int \<times> 'w) option"
    and rest :: "'w \<Rightarrow> bytes" and dst :: "'w \<Rightarrow> bytes" and good :: "'w \<Rightarrow> bool"
  assumes xfer_law: "good w \<Longrightarrow>
      \<exists>r w'. xfer cnt w = Some (r, w') \<and> good w' \<and>
        (r = -1 \<and> dst w' = dst w \<and> rest w' = rest w \<or>
         0 \<le> r \<and> nat r \<le> unat cnt \<and> nat r \<le> length (rest w) \<and>
         dst w' = dst w @ take (nat r) (rest w) \<and> rest w' = drop (nat r) (rest w) \<and>
         (r = 0 \<longrightarrow> cnt = 0 \<or> rest w = []))"

text \<open>
  A run that reads files and writes standard output: reading a file changes nothing that
  has been written.
\<close>

locale file_kernel = stdout_writer os out good + pread_source os fd data good
  for os :: "'w os" and out :: "'w \<Rightarrow> bytes" and good :: "'w \<Rightarrow> bool" and fd :: int and data :: bytes +
  assumes pread_out: "good w \<Longrightarrow> sys_pread os fd cnt off w = (x, w') \<Longrightarrow> out w' = out w"

end
