(* ===== verification/Sim_Kernel.thy ===== *)
theory Sim_Kernel
  imports Posix
begin

section \<open>A simulated kernel\<close>

text \<open>
  An executable kernel that shows the contracts of the calls can hold together and on which
  the witnesses run: files and positions per descriptor, standard output, one pipe (read
  end 10, write end 11) with a capacity, a mapping, directory buffers and limits. A script
  decides what each data call does: a negative entry is an error, any other entry caps the
  number of bytes (at least one), and with the script used up calls transfer all they can.
  It models no code of the repository.
\<close>

record sim =
  sim_files :: "int \<Rightarrow> bytes"
  sim_pos :: "int \<Rightarrow> nat"
  sim_out :: bytes
  sim_pipe :: bytes
  sim_pipe_open :: bool
  sim_cap :: nat
  sim_script :: "int list"
  sim_closed :: "int list"
  sim_paths :: "string \<Rightarrow> int"
  sim_stat :: "int \<Rightarrow> statx"
  sim_map :: "bytes option"
  sim_dirs :: "int \<Rightarrow> bytes list"
  sim_rlimit :: rlimit
  sim_env :: "string \<Rightarrow> string option"

definition sim_grant :: "nat \<Rightarrow> sim \<Rightarrow> int \<times> sim" where
  "sim_grant want w =
     (case sim_script w of
        [] \<Rightarrow> (int want, w)
      | c # cs \<Rightarrow>
          (if c < 0 then -1 else if want = 0 then 0 else int (min want (max 1 (nat c))),
           w\<lparr>sim_script := cs\<rparr>))"

definition sim_rest :: "int \<Rightarrow> sim \<Rightarrow> bytes" where
  "sim_rest fd w = drop (sim_pos w fd) (sim_files w fd)"

definition sim_do_pread :: "int \<Rightarrow> size_t \<Rightarrow> size_t \<Rightarrow> sim \<Rightarrow> (int \<times> bytes) \<times> sim" where
  "sim_do_pread fd cnt off w =
     (let avail = drop (unat off) (sim_files w fd) in
      case sim_grant (min (unat cnt) (length avail)) w of
        (r, w') \<Rightarrow> ((r, if r < 0 then [] else take (nat r) avail), w'))"

definition sim_do_write :: "int \<Rightarrow> bytes \<Rightarrow> sim \<Rightarrow> int \<times> sim" where
  "sim_do_write fd bs w =
     (case sim_grant (length bs) w of
        (r, w') \<Rightarrow> (r, if 0 \<le> r \<and> fd = STDOUT_FILENO then w'\<lparr>sim_out := sim_out w' @ take (nat r) bs\<rparr> else w'))"

text \<open>Move granted bytes from the position of a file to standard output.\<close>

definition sim_move_out :: "int \<Rightarrow> size_t \<Rightarrow> sim \<Rightarrow> int \<times> sim" where
  "sim_move_out fd cnt w =
     (case sim_grant (min (unat cnt) (length (sim_rest fd w))) w of
        (r, w') \<Rightarrow>
          (r, if 0 \<le> r then w'\<lparr>sim_out := sim_out w' @ take (nat r) (sim_rest fd w),
                                sim_pos := (sim_pos w')(fd := sim_pos w fd + nat r)\<rparr> else w'))"

definition sim_do_splice :: "int \<Rightarrow> int \<Rightarrow> size_t \<Rightarrow> sim \<Rightarrow> (int \<times> sim) option" where
  "sim_do_splice fd dst cnt w =
     (if fd = 10 then
        (if sim_pipe w = [] then (if sim_pipe_open w then None else Some (0, w))
         else
           (case sim_grant (min (unat cnt) (length (sim_pipe w))) w of
              (r, w') \<Rightarrow>
                Some (r, if 0 \<le> r then w'\<lparr>sim_out := sim_out w' @ take (nat r) (sim_pipe w'),
                                           sim_pipe := drop (nat r) (sim_pipe w')\<rparr> else w')))
      else if dst = 11 then
        (if length (sim_pipe w) \<ge> sim_cap w then None
         else
           (case sim_grant (min (min (unat cnt) (sim_cap w - length (sim_pipe w))) (length (sim_rest fd w))) w of
              (r, w') \<Rightarrow>
                Some (r, if 0 \<le> r then w'\<lparr>sim_pipe := sim_pipe w' @ take (nat r) (sim_rest fd w),
                                           sim_pos := (sim_pos w')(fd := sim_pos w fd + nat r)\<rparr> else w')))
      else Some (sim_move_out fd cnt w))"

definition sim_do_sendfile :: "int \<Rightarrow> int \<Rightarrow> size_t \<Rightarrow> size_t \<Rightarrow> sim \<Rightarrow> int \<times> sim" where
  "sim_do_sendfile dst fd off cnt w =
     (let avail = drop (unat off) (sim_files w fd) in
      case sim_grant (min (unat cnt) (length avail)) w of
        (r, w') \<Rightarrow> (r, if 0 \<le> r then w'\<lparr>sim_out := sim_out w' @ take (nat r) avail\<rparr> else w'))"

definition sim_do_mmap :: "size_t \<Rightarrow> int \<Rightarrow> sim \<Rightarrow> ptr \<times> sim" where
  "sim_do_mmap sz fd w =
     (case sim_grant 1 w of
        (r, w') \<Rightarrow> if r < 0 \<or> sz = 0 then (MAP_FAILED, w') else (0x1000, w'\<lparr>sim_map := Some (sim_files w' fd)\<rparr>))"

definition sim_mem :: "sim \<Rightarrow> ptr \<Rightarrow> size_t \<Rightarrow> bytes option" where
  "sim_mem w p sz =
     (if p = 0x1000 then
        (case sim_map w of Some bs \<Rightarrow> if unat sz \<le> length bs then Some (take (unat sz) bs) else None
         | None \<Rightarrow> None)
      else None)"

definition sim_do_getdents :: "int \<Rightarrow> nat \<Rightarrow> sim \<Rightarrow> (int \<times> bytes) \<times> sim" where
  "sim_do_getdents fd n w =
     (case sim_dirs w fd of
        [] \<Rightarrow> ((0, []), w)
      | b # bs \<Rightarrow> ((int (length b), b), w\<lparr>sim_dirs := (sim_dirs w)(fd := bs)\<rparr>))"

definition sim_os :: "sim os" where
  "sim_os = \<lparr>
     sys_openat = (\<lambda>dir path fl w. (sim_paths w path, w)),
     sys_close = (\<lambda>fd w. w\<lparr>sim_closed := sim_closed w @ [fd],
                           sim_pipe_open := (if fd = 11 then False else sim_pipe_open w)\<rparr>),
     sys_statx = (\<lambda>fd w. ((0, sim_stat w fd), w)),
     sys_fadvise = (\<lambda>fd n w. (0, w)),
     sys_isatty = (\<lambda>fd w. if S_ISCHR (stx_mode (sim_stat w fd)) then 1 else 0),
     sys_pread = sim_do_pread,
     sys_write = sim_do_write,
     sys_copy_file_range = (\<lambda>fd dst. sim_move_out fd),
     sys_splice = sim_do_splice,
     sys_sendfile = sim_do_sendfile,
     sys_pipe = (\<lambda>w. ((0, 10, 11), w\<lparr>sim_pipe := [], sim_pipe_open := True\<rparr>)),
     sys_setpipe_sz = (\<lambda>fd n w. (int (sim_cap w), w)),
     sys_mmap = sim_do_mmap,
     sys_munmap = (\<lambda>p n w. w\<lparr>sim_map := None\<rparr>),
     os_mem = sim_mem,
     sys_getdents64 = sim_do_getdents,
     sys_getrlimit = (\<lambda>w. ((0, sim_rlimit w), w)),
     sys_setrlimit = (\<lambda>l w. if rlim_cur l \<le> rlim_max l then (0, w\<lparr>sim_rlimit := l\<rparr>) else (-1, w)),
     os_getenv = sim_env,
     os_errno = (\<lambda>w. 5),
     os_strerror = (\<lambda>e. ''Input/output error'')\<rparr>"

definition sim0 :: sim where
  "sim0 = \<lparr>sim_files = (\<lambda>_. []), sim_pos = (\<lambda>_. 0), sim_out = [], sim_pipe = [], sim_pipe_open = False,
           sim_cap = 1048576, sim_script = [], sim_closed = [], sim_paths = (\<lambda>_. -1),
           sim_stat = (\<lambda>_. \<lparr>stx_size = 0, stx_mode = 0x8000\<rparr>), sim_map = None, sim_dirs = (\<lambda>_. []),
           sim_rlimit = \<lparr>rlim_cur = 1024, rlim_max = 1048576\<rparr>, sim_env = (\<lambda>_. None)\<rparr>"

text \<open>Every descriptor is open on the text \<open>hello\<close>.\<close>

definition sim_hello :: "int list \<Rightarrow> sim" where
  "sim_hello script = sim0\<lparr>sim_files := (\<lambda>_. ''hello''), sim_script := script\<rparr>"

text \<open>A file of five bytes under every path, and standard output of a given type.\<close>

definition sim_cat :: "mode \<Rightarrow> int list \<Rightarrow> sim" where
  "sim_cat m script = (sim_hello script)\<lparr>sim_paths := (\<lambda>_. 3),
     sim_stat := (\<lambda>fd. if fd = 1 then \<lparr>stx_size = 0, stx_mode = m\<rparr> else \<lparr>stx_size = 5, stx_mode = 0x8000\<rparr>)\<rparr>"

section \<open>The contracts hold for it\<close>

lemma sim_os_simps [simp]:
  "sys_openat sim_os dir path fl w = (sim_paths w path, w)"
  "sys_close sim_os fd w = w\<lparr>sim_closed := sim_closed w @ [fd],
      sim_pipe_open := (if fd = 11 then False else sim_pipe_open w)\<rparr>"
  "sys_statx sim_os fd w = ((0, sim_stat w fd), w)"
  "sys_fadvise sim_os fd sz w = (0, w)"
  "sys_isatty sim_os fd w = (if S_ISCHR (stx_mode (sim_stat w fd)) then 1 else 0)"
  "sys_pread sim_os = sim_do_pread"
  "sys_write sim_os = sim_do_write"
  "sys_copy_file_range sim_os fd dst = sim_move_out fd"
  "sys_splice sim_os = sim_do_splice"
  "sys_sendfile sim_os = sim_do_sendfile"
  "sys_pipe sim_os w = ((0, 10, 11), w\<lparr>sim_pipe := [], sim_pipe_open := True\<rparr>)"
  "sys_setpipe_sz sim_os fd n w = (int (sim_cap w), w)"
  "sys_mmap sim_os = sim_do_mmap"
  "sys_munmap sim_os p sz w = w\<lparr>sim_map := None\<rparr>"
  "os_mem sim_os = sim_mem"
  "sys_getdents64 sim_os = sim_do_getdents"
  "sys_getrlimit sim_os w = ((0, sim_rlimit w), w)"
  "sys_setrlimit sim_os l w = (if rlim_cur l \<le> rlim_max l then (0, w\<lparr>sim_rlimit := l\<rparr>) else (-1, w))"
  "os_getenv sim_os = sim_env"
  "os_errno sim_os w = 5"
  "os_strerror sim_os e = ''Input/output error''"
  by (simp_all add: sim_os_def)

lemma sim_grant_cases:
  assumes "sim_grant want w = (r, w')"
  obtains (err) cs where "r = -1" "w' = w\<lparr>sim_script := cs\<rparr>"
    | (ok) cs k where "r = int k" "k \<le> want" "want \<noteq> 0 \<Longrightarrow> 0 < k" "w' = w\<lparr>sim_script := cs\<rparr>"
proof (cases "sim_script w")
  case Nil
  then have "w' = w\<lparr>sim_script := []\<rparr>" "r = int want"
    using assms by (auto simp: sim_grant_def)
  then show ?thesis by (auto intro: ok)
next
  case (Cons c cs)
  then have w': "w' = w\<lparr>sim_script := cs\<rparr>"
    and r: "r = (if c < 0 then -1 else if want = 0 then 0 else int (min want (max 1 (nat c))))"
    using assms by (auto simp: sim_grant_def)
  consider "c < 0" | "0 \<le> c" "want = 0" | "0 \<le> c" "0 < want" by linarith
  then show ?thesis
  proof cases
    case 1
    with r w' show ?thesis by (auto intro: err)
  next
    case 2
    with r w' show ?thesis by (auto intro: ok [of 0])
  next
    case 3
    with r w' show ?thesis by (auto intro: ok [of "min want (max 1 (nat c))"])
  qed
qed

lemma sim_pread_law:
  assumes "sim_do_pread fd cnt off w = ((r, bs), w')"
  shows "(\<exists>cs. w' = w\<lparr>sim_script := cs\<rparr>) \<and> (r = -1 \<or>
        (r = int (length bs) \<and> length bs \<le> unat cnt \<and>
         bs = take (length bs) (drop (unat off) (sim_files w fd)) \<and>
         (bs = [] \<longrightarrow> cnt = 0 \<or> length (sim_files w fd) \<le> unat off)))"
proof -
  let ?avail = "drop (unat off) (sim_files w fd)"
  let ?want = "min (unat cnt) (length ?avail)"
  from assms have grant: "sim_grant ?want w = (r, w')"
    and bs: "bs = (if r < 0 then [] else take (nat r) ?avail)"
    by (auto simp: sim_do_pread_def Let_def split: prod.splits)
  from grant show ?thesis
  proof (cases rule: sim_grant_cases)
    case (err cs)
    then show ?thesis by blast
  next
    case (ok cs k)
    then have eq: "bs = take k ?avail" and len: "length bs = k" using bs by auto
    have "cnt = 0 \<or> length (sim_files w fd) \<le> unat off" if "bs = []"
    proof (rule ccontr)
      assume "\<not> ?thesis"
      then have "?want \<noteq> 0" by (simp add: unat_gt_0 min_def)
      with ok(3) len that show False by simp
    qed
    moreover have "bs = take (length bs) ?avail" unfolding len by (rule eq)
    ultimately show ?thesis using ok(1,2,4) len by (intro conjI exI [of _ cs]) auto
  qed
qed

lemma sim_write_law:
  assumes "sim_do_write STDOUT_FILENO bs w = (r, w')"
  shows "\<exists>cs. (r = -1 \<and> w' = w\<lparr>sim_script := cs\<rparr>) \<or>
     (0 \<le> r \<and> nat r \<le> length bs \<and> (bs \<noteq> [] \<longrightarrow> 0 < r) \<and>
      w' = w\<lparr>sim_script := cs, sim_out := sim_out w @ take (nat r) bs\<rparr>)"
proof -
  obtain w1 where grant: "sim_grant (length bs) w = (r, w1)"
    and w': "w' = (if 0 \<le> r then w1\<lparr>sim_out := sim_out w1 @ take (nat r) bs\<rparr> else w1)"
    using assms by (auto simp: sim_do_write_def split: prod.splits)
  from grant show ?thesis
  proof (cases rule: sim_grant_cases)
    case (err cs)
    then show ?thesis using w' by auto
  next
    case (ok cs k)
    then show ?thesis using w' by (intro exI [of _ cs] disjI2) auto
  qed
qed

lemma sim_move_law:
  assumes "sim_move_out fd cnt w = (r, w')"
  shows "\<exists>cs. (r = -1 \<and> w' = w\<lparr>sim_script := cs\<rparr>) \<or>
     (0 \<le> r \<and> nat r \<le> unat cnt \<and> nat r \<le> length (sim_rest fd w) \<and>
      (r = 0 \<longrightarrow> cnt = 0 \<or> sim_rest fd w = []) \<and>
      w' = w\<lparr>sim_script := cs, sim_out := sim_out w @ take (nat r) (sim_rest fd w),
             sim_pos := (sim_pos w)(fd := sim_pos w fd + nat r)\<rparr>)"
proof -
  let ?want = "min (unat cnt) (length (sim_rest fd w))"
  obtain w1 where grant: "sim_grant ?want w = (r, w1)"
    and w': "w' = (if 0 \<le> r then w1\<lparr>sim_out := sim_out w1 @ take (nat r) (sim_rest fd w),
                     sim_pos := (sim_pos w1)(fd := sim_pos w fd + nat r)\<rparr> else w1)"
    using assms by (auto simp: sim_move_out_def split: prod.splits)
  from grant show ?thesis
  proof (cases rule: sim_grant_cases)
    case (err cs)
    then show ?thesis using w' by auto
  next
    case (ok cs k)
    have "cnt = 0 \<or> sim_rest fd w = []" if "k = 0"
    proof (rule ccontr)
      assume "\<not> ?thesis"
      then have "?want \<noteq> 0" by (simp add: unat_gt_0 min_def)
      with ok(3) that show False by simp
    qed
    then show ?thesis using ok w' by (intro exI [of _ cs] disjI2) auto
  qed
qed

interpretation sim_read: pread_source sim_os fd "take 1000 data" "\<lambda>w. sim_files w fd = take 1000 data"
  for fd data
proof
  show "sim_files w' fd = take 1000 data \<and> (r = -1 \<or>
        (r = int (length bs) \<and> length bs \<le> unat cnt \<and>
         bs = take (length bs) (drop (unat off) (take 1000 data)) \<and>
         (bs = [] \<longrightarrow> cnt = 0 \<or> length (take 1000 data) \<le> unat off)))"
    if "sim_files w fd = take 1000 data" "sys_pread sim_os fd cnt off w = ((r, bs), w')" for w cnt off r bs w'
    using sim_pread_law [of fd cnt off w r bs w'] that by auto
qed simp

interpretation sim_write: stdout_writer sim_os sim_out "\<lambda>w. True"
proof
  show "True \<and> (r = -1 \<and> sim_out w' = sim_out w \<or>
       0 \<le> r \<and> nat r \<le> length bs \<and> sim_out w' = sim_out w @ take (nat r) bs \<and> (bs \<noteq> [] \<longrightarrow> 0 < r))"
    if "sys_write sim_os STDOUT_FILENO bs w = (r, w')" for bs w r w'
    using sim_write_law [of bs w r w'] that by auto
qed

lemma sim_transfer_law:
  assumes "sim_move_out fd cnt w = (r, w')"
  shows "(r = -1 \<and> sim_out w' = sim_out w \<and> sim_rest fd w' = sim_rest fd w \<or>
         0 \<le> r \<and> nat r \<le> unat cnt \<and> nat r \<le> length (sim_rest fd w) \<and>
         sim_out w' = sim_out w @ take (nat r) (sim_rest fd w) \<and>
         sim_rest fd w' = drop (nat r) (sim_rest fd w) \<and>
         (r = 0 \<longrightarrow> cnt = 0 \<or> sim_rest fd w = []))"
  using sim_move_law [OF assms] by (auto simp: sim_rest_def add.commute)

text \<open>Any number of bytes may be in a file; the contract only asks for fewer than \<open>2 ^ 63\<close>.\<close>

interpretation sim_file: file_kernel sim_os sim_out "\<lambda>w. sim_files w fd = take 1000 data" fd "take 1000 data"
  for fd data
proof
  fix w w' :: sim and bs r
  assume "sim_files w fd = take 1000 data" "sys_write sim_os STDOUT_FILENO bs w = (r, w')"
  then show "sim_files w' fd = take 1000 data \<and>
      (r = -1 \<and> sim_out w' = sim_out w \<or>
       0 \<le> r \<and> nat r \<le> length bs \<and> sim_out w' = sim_out w @ take (nat r) bs \<and> (bs \<noteq> [] \<longrightarrow> 0 < r))"
    using sim_write_law [of bs w r w'] by auto
next
  fix w w' :: sim and cnt off x
  assume "sim_files w fd = take 1000 data" "sys_pread sim_os fd cnt off w = (x, w')"
  then show "sim_out w' = sim_out w"
    using sim_pread_law [of fd cnt off w "fst x" "snd x" w'] by auto
qed

end
