(* ===== verification/Pipeline.thy ===== *)
theory Pipeline
  imports Om_Prelude
begin

section \<open>Stages, composition and execution\<close>

text \<open>
  The template machinery of \<^verbatim>\<open>concepts/concepts.h\<close> and \<^verbatim>\<open>pipeline/pipeline.h\<close>.
  A stage before instantiation is a \<open>comp\<close>: a source, transform or sink with its node
  template and state (the payload \<open>'a\<close>), or a \<^verbatim>\<open>Composed\<close> pair. \<^verbatim>\<open>operator|\<close> keeps composing
  until a sink arrives, then instantiates the whole chain from the right into nested nodes.
  The second half states, as locales, what one stage promises to the stage before it.
\<close>

datatype kind = Source | Transform | Sink

datatype 'a comp =
    Stage kind 'a
  | Composed (left: "'a comp") (right: "'a comp")

datatype 'a node =
    Sink_Node 'a
  | Node 'a (next_node: "'a node")

text \<open>The concepts: \<^verbatim>\<open>Composed\<close> inherits from both \<^verbatim>\<open>Source\<close> and \<^verbatim>\<open>Transform\<close>.\<close>

fun is_source :: "'a comp \<Rightarrow> bool" where
  "is_source (Stage k a) = (k = Source)"
| "is_source (Composed l r) = True"

fun is_transform :: "'a comp \<Rightarrow> bool" where
  "is_transform (Stage k a) = (k = Transform)"
| "is_transform (Composed l r) = True"

fun is_sink :: "'a comp \<Rightarrow> bool" where
  "is_sink (Stage k a) = (k = Sink)"
| "is_sink (Composed l r) = False"

definition composable :: "'a comp \<Rightarrow> bool" where
  "composable c \<longleftrightarrow> is_source c \<or> is_transform c \<or> is_sink c"

text \<open>
  \<^verbatim>\<open>operator()(Next)\<close> of \<^verbatim>\<open>BaseNode\<close> and of \<^verbatim>\<open>Composed\<close>, and \<^verbatim>\<open>operator()()\<close> of a sink,
  which makes the innermost node.
\<close>

fun instantiate :: "'a comp \<Rightarrow> 'a node \<Rightarrow> 'a node" where
  "instantiate (Stage k a) next = Node a next"
| "instantiate (Composed l r) next = instantiate l (instantiate r next)"

fun sink_instance :: "'a comp \<Rightarrow> 'a node option" where
  "sink_instance (Stage Sink a) = Some (Sink_Node a)"
| "sink_instance _ = None"

definition pipe_op :: "'a comp \<Rightarrow> 'a comp \<Rightarrow> 'a comp + 'a node" where
  "pipe_op l r =
     (case sink_instance r of
        Some n \<Rightarrow> Inr (instantiate l n)
      | None \<Rightarrow> Inl (Composed l r))"

text \<open>\<^verbatim>\<open>get<Index>(node)\<close>: \<open>None\<close> where the instantiation does not compile.\<close>

fun get_node :: "nat \<Rightarrow> 'a node \<Rightarrow> 'a node option" where
  "get_node 0 n = Some n"
| "get_node (Suc i) (Node a n) = get_node i n"
| "get_node (Suc i) (Sink_Node a) = None"

text \<open>\<open>a | b | c | ...\<close> associates to the left.\<close>

fun chain :: "'a comp \<Rightarrow> 'a comp list \<Rightarrow> 'a comp" where
  "chain c [] = c"
| "chain c (t # ts) = chain (Composed c t) ts"

fun stages_of :: "'a node \<Rightarrow> 'a list" where
  "stages_of (Sink_Node a) = [a]"
| "stages_of (Node a n) = a # stages_of n"

text \<open>\<^verbatim>\<open>execute\<close>: run the pipeline, throw the error of a failed result.\<close>

definition execute :: "('s \<Rightarrow> (size_t expected \<times> 's) option) \<Rightarrow> 's \<Rightarrow> (unit outcome \<times> 's) option" where
  "execute pipeline s =
     (case pipeline s of
        None \<Rightarrow> None
      | Some (Inl e, s') \<Rightarrow> Some (Threw (Runtime_Error e), s')
      | Some (Inr n, s') \<Rightarrow> Some (Returned (), s'))"

section \<open>What the composition operator builds\<close>

lemma is_sink_iff: "is_sink c \<longleftrightarrow> (\<exists>n. sink_instance c = Some n)"
  by (cases c rule: sink_instance.cases) auto

lemma pipe_op_not_sink: "\<not> is_sink r \<Longrightarrow> pipe_op l r = Inl (Composed l r)"
  by (auto simp: pipe_op_def is_sink_iff split: option.splits)

lemma instantiate_chain:
  "instantiate (chain c ts) n = instantiate c (foldr instantiate ts n)"
  by (induction ts arbitrary: c) auto

lemma foldr_instantiate_stages:
  "stages_of (foldr instantiate (map (Stage Transform) ts) n) = ts @ stages_of n"
  by (induction ts) auto

lemma get_node_stages:
  "i < length (stages_of n) \<Longrightarrow> \<exists>m. get_node i n = Some m \<and> stages_of m = drop i (stages_of n)"
proof (induction i n rule: get_node.induct)
  case (1 n)
  then show ?case by simp
next
  case (2 i a n)
  then show ?case by simp
next
  case (3 i a)
  then show ?case by simp
qed

lemma pipe_op_chain_stages:
  assumes "pipe_op (chain (Stage Source s) (map (Stage Transform) ts)) (Stage Sink k) = Inr n"
  shows "stages_of n = s # ts @ [k]"
  using assms by (auto simp: pipe_op_def instantiate_chain foldr_instantiate_stages)

lemma pipe_op_assoc:
  "pipe_op (Composed (Composed a b) c) (Stage Sink k) = pipe_op (Composed a (Composed b c)) (Stage Sink k)"
  by (simp add: pipe_op_def)



section \<open>What a stage promises to the stage before it\<close>

text \<open>
  A stage that emits. \<open>out\<close> is what has reached standard output, \<open>view\<close> is that together
  with what is still buffered on the way there. A chunk \<open>d\<close> of at most \<open>lim\<close> bytes makes
  the stage return; when it is accepted, the view grows by exactly \<open>g d\<close>; when the call
  fails, what is on standard output is still a prefix of what should be there.
\<close>

locale emitter =
  fixes nxt :: "(bytes, 's) stage" and good :: "'s \<Rightarrow> bool"
    and view :: "'s \<Rightarrow> bytes" and out :: "'s \<Rightarrow> bytes" and g :: "bytes \<Rightarrow> bytes" and lim :: nat
  assumes out_view: "good s \<Longrightarrow> prefix (out s) (view s)"
    and emit_law: "good s \<Longrightarrow> length d \<le> lim \<Longrightarrow>
      \<exists>r s'. nxt d s = Some (r, s') \<and> prefix (out s') (view s @ g d) \<and>
        (case r of Inr k \<Rightarrow> good s' \<and> view s' = view s @ g d | Inl e \<Rightarrow> True)"
begin

lemma emit_cases:
  assumes "good s" "length d \<le> lim"
  obtains (fail) e s' where "nxt d s = Some (Inl e, s')" "prefix (out s') (view s @ g d)"
    | (okay) k s' where "nxt d s = Some (Inr k, s')" "good s'" "view s' = view s @ g d"
      "prefix (out s') (view s @ g d)"
proof -
  obtain r s' where "nxt d s = Some (r, s')" "prefix (out s') (view s @ g d)"
    "case r of Inr k \<Rightarrow> good s' \<and> view s' = view s @ g d | Inl e \<Rightarrow> True"
    using emit_law [OF assms] by blast
  then show thesis using fail okay by (cases r) auto
qed

lemma feed_emits:
  assumes "good s" "\<forall>c \<in> set cs. length c \<le> lim"
  shows "\<exists>r s'. feed nxt cs acc s = Some (r, s') \<and> prefix (out s') (view s @ concat (map g cs)) \<and>
      (case r of Inr k \<Rightarrow> good s' \<and> view s' = view s @ concat (map g cs) | Inl e \<Rightarrow> True)"
  using assms
proof (induction cs arbitrary: acc s)
  case Nil
  then show ?case by (simp add: out_view)
next
  case (Cons c cs)
  then have "good s" "length c \<le> lim" by auto
  then show ?case
  proof (cases rule: emit_cases)
    case (fail e s')
    have "prefix (view s @ g c) (view s @ concat (map g (c # cs)))" by simp
    with fail show ?thesis by (auto intro: prefix_order.trans)
  next
    case (okay k s')
    then show ?thesis using Cons.IH [of s' "acc + k"] Cons.prems by (simp cong: sum.case_cong)
  qed
qed

end

text \<open>An emitter whose count on success is a function of the chunk.\<close>

locale counting_emitter = emitter +
  fixes cnt :: "bytes \<Rightarrow> size_t"
  assumes count_law: "good s \<Longrightarrow> length d \<le> lim \<Longrightarrow> nxt d s = Some (Inr k, s') \<Longrightarrow> k = cnt d"
begin

lemma feed_counts:
  assumes "good s" "\<forall>c \<in> set cs. length c \<le> lim" "feed nxt cs acc s = Some (Inr k, s')"
  shows "k = acc + (\<Sum>c \<leftarrow> cs. cnt c)"
  using assms
proof (induction cs arbitrary: acc s)
  case Nil
  then show ?case by simp
next
  case (Cons c cs)
  then have c: "good s" "length c \<le> lim" by auto
  then show ?case
  proof (cases rule: emit_cases)
    case (fail e s1)
    then show ?thesis using Cons.prems by simp
  next
    case (okay n s1)
    then show ?thesis
      using Cons.IH [of s1 "acc + n"] Cons.prems count_law [OF c okay(1)] by (simp add: add.assoc)
  qed
qed

end

text \<open>
  A stage that takes text and a \<^verbatim>\<open>force_newline\<close> flag and puts it on an output: on success
  all of the text has been put there, with at most a newline after it and only if asked
  for; on an error, a prefix of it.
\<close>

locale text_sink =
  fixes put :: "bytes \<Rightarrow> bool \<Rightarrow> 's \<Rightarrow> (size_t expected \<times> 's) option"
    and out :: "'s \<Rightarrow> bytes" and good :: "'s \<Rightarrow> bool"
  assumes put_law: "good s \<Longrightarrow> length d < 2 ^ 63 \<Longrightarrow>
      \<exists>r s'. put d nl s = Some (r, s') \<and> good s' \<and>
        (case r of
           Inr n \<Rightarrow> n = size_of d + (if nl then 1 else 0) \<and>
             (out s' = out s @ d \<or> nl \<and> out s' = out s @ d @ [newline])
         | Inl e \<Rightarrow> \<exists>k \<le> length d. out s' = out s @ take k d)"
begin

lemma put_False_cases:
  assumes "good s" "length d < 2 ^ 63"
  obtains (fail) e s' k where "put d False s = Some (Inl e, s')" "good s'" "k \<le> length d"
      "out s' = out s @ take k d"
    | (okay) s' where "put d False s = Some (Inr (size_of d), s')" "good s'" "out s' = out s @ d"
proof -
  obtain r s' where "put d False s = Some (r, s')" "good s'"
    "case r of Inr n \<Rightarrow> n = size_of d + (if False then 1 else 0) \<and>
        (out s' = out s @ d \<or> False \<and> out s' = out s @ d @ [newline])
     | Inl e \<Rightarrow> \<exists>k \<le> length d. out s' = out s @ take k d"
    using put_law [OF assms, of False] by blast
  then show thesis using fail okay by (cases r) auto
qed

end

sublocale text_sink \<subseteq> plain: counting_emitter "\<lambda>d. put d False" good out out "\<lambda>d. d" "2 ^ 63 - 1" size_of
proof
  fix s :: 's and d :: bytes
  assume good: "good s"
  then show "prefix (out s) (out s)" by simp
  assume "length d \<le> 2 ^ 63 - 1"
  then have d: "length d < 2 ^ 63" by simp
  from good d show "\<exists>r s'. put d False s = Some (r, s') \<and> prefix (out s') (out s @ d) \<and>
      (case r of Inr k \<Rightarrow> good s' \<and> out s' = out s @ d | Inl e \<Rightarrow> True)"
    by (cases rule: put_False_cases) (auto simp: take_is_prefix)
  show "k = size_of d" if "put d False s = Some (Inr k, s'')" for k s''
    using good d by (cases rule: put_False_cases) (use that in auto)
qed

end
