(* ===== verification/Sinks.thy ===== *)
theory Sinks
  imports Sim_Kernel Pipeline
begin

section \<open>Sinks\<close>

text \<open>
  The sinks of \<^verbatim>\<open>src/sink\<close>: \<^verbatim>\<open>write.h\<close>, \<^verbatim>\<open>event_loop_write.h\<close>, \<^verbatim>\<open>cout.h\<close>, \<^verbatim>\<open>null_sink.h\<close>,
  \<^verbatim>\<open>splice.h\<close> and \<^verbatim>\<open>send_file.h\<close>. The loops over \<^verbatim>\<open>write\<close>, \<^verbatim>\<open>splice\<close> and \<^verbatim>\<open>sendfile\<close> can
  fail to end, so they are partial functions; that they return under the contracts of the
  calls is proved. The mutex of \<^verbatim>\<open>write.h\<close> is held for the whole call, so one call is one
  step of the model.
\<close>

subsection \<open>write.h\<close>

partial_function (option) write_loop ::
  "'w os \<Rightarrow> bytes \<Rightarrow> size_t \<Rightarrow> 'w \<Rightarrow> (size_t expected \<times> 'w) option" where
  "write_loop os data write_amount w =
     (if write_amount < size_of data then
        (case sys_write os STDOUT_FILENO (drop (unat write_amount) data) w of
           (written_this_iter, w') \<Rightarrow>
             (if written_this_iter = -1 then
                Some (Inl (''failed to write: ['' @ show_size write_amount @ ''/'' @
                           show_size (size_of data) @ '' bytes] '' @ os_strerror os (os_errno os w')), w')
              else write_loop os data (write_amount + word_of_int written_this_iter) w'))
      else Some (Inr write_amount, w))"

definition write_node :: "'w os \<Rightarrow> bytes \<Rightarrow> bool \<Rightarrow> 'w \<Rightarrow> (size_t expected \<times> 'w) option" where
  "write_node os data force_newline w =
     (case write_loop os data 0 w of
        None \<Rightarrow> None
      | Some (Inl e, w') \<Rightarrow> Some (Inl e, w')
      | Some (Inr write_amount, w') \<Rightarrow>
          (if force_newline then
             (case sys_write os STDOUT_FILENO [newline] w' of
                (_, w'') \<Rightarrow> Some (Inr (write_amount + 1), w''))
           else Some (Inr write_amount, w')))"

definition write_node_bytes :: "'w os \<Rightarrow> bytes \<Rightarrow> 'w \<Rightarrow> (size_t expected \<times> 'w) option" where
  "write_node_bytes os data w = write_node os data False w"

subsection \<open>null_sink.h\<close>

definition null_sink_node :: "'d \<Rightarrow> 's \<Rightarrow> (size_t expected \<times> 's) option" where
  "null_sink_node d s = Some (Inr 0, s)"

subsection \<open>cout.h\<close>

text \<open>
  The state is what has been put into \<^verbatim>\<open>std::cout\<close>. \<^verbatim>\<open>data.back()\<close> on an empty view is
  undefined; it is evaluated only with \<^verbatim>\<open>force_newline\<close>.
\<close>

definition cout_node :: "string \<Rightarrow> bool \<Rightarrow> string \<Rightarrow> size_t expected outcome \<times> string" where
  "cout_node data force_newline stream =
     (let stream = stream @ data in
      if force_newline then
        (if data = [] then (Undefined, stream)
         else if last data \<noteq> newline then (Returned (Inr (size_of data)), stream @ [newline])
         else (Returned (Inr (size_of data)), stream))
      else (Returned (Inr (size_of data)), stream))"

definition cout_node_bytes :: "bytes \<Rightarrow> string \<Rightarrow> size_t expected outcome \<times> string" where
  "cout_node_bytes data stream = cout_node data False stream"

subsection \<open>splice.h\<close>

partial_function (option) splice_sink_loop ::
  "'w os \<Rightarrow> int \<Rightarrow> size_t \<Rightarrow> size_t \<Rightarrow> 'w \<Rightarrow> (size_t expected \<times> 'w) option" where
  "splice_sink_loop os fd sz write_amount w =
     (if write_amount < sz then
        (case sys_splice os fd STDOUT_FILENO sz w of
           None \<Rightarrow> None
         | Some (written_this_iter, w') \<Rightarrow>
             (if written_this_iter = -1 then Some (Inl ''failed to splice'', w')
              else if written_this_iter = 0 then Some (Inr write_amount, w')
              else splice_sink_loop os fd sz (write_amount + word_of_int written_this_iter) w'))
      else Some (Inr write_amount, w))"

definition splice_sink_node ::
  "'w os \<Rightarrow> int \<Rightarrow> size_t \<Rightarrow> size_t \<Rightarrow> 'w \<Rightarrow> (size_t expected \<times> 'w) option" where
  "splice_sink_node os fd sz offset w = splice_sink_loop os fd sz 0 w"

subsection \<open>send_file.h\<close>

text \<open>
  \<^verbatim>\<open>off\<close> is declared inside the loop, so every iteration starts again at \<^verbatim>\<open>offset\<close>, and
  asks for \<^verbatim>\<open>size\<close> bytes.
\<close>

partial_function (option) send_file_loop ::
  "'w os \<Rightarrow> int \<Rightarrow> size_t \<Rightarrow> size_t \<Rightarrow> size_t \<Rightarrow> 'w \<Rightarrow> (size_t expected \<times> 'w) option" where
  "send_file_loop os fd sz offset write_amount w =
     (if write_amount < sz then
        (case sys_sendfile os STDOUT_FILENO fd offset sz w of
           (written_this_iter, w') \<Rightarrow>
             (if written_this_iter = -1 then
                Some (Inl (''failed to write: ['' @ show_size sz @ '' '' @ show_size offset @ '' ''), w')
              else if written_this_iter = 0 then Some (Inr write_amount, w')
              else send_file_loop os fd sz offset (write_amount + word_of_int written_this_iter) w'))
      else Some (Inr write_amount, w))"

definition send_file_node ::
  "'w os \<Rightarrow> int \<Rightarrow> size_t \<Rightarrow> size_t \<Rightarrow> 'w \<Rightarrow> (size_t expected \<times> 'w) option" where
  "send_file_node os fd sz offset w = send_file_loop os fd sz offset 0 w"

subsection \<open>event_loop_write.h\<close>

partial_function (option) event_loop_write_loop ::
  "'w os \<Rightarrow> bytes \<Rightarrow> size_t \<Rightarrow> 'w \<Rightarrow> (size_t expected \<times> 'w) option" where
  "event_loop_write_loop os data write_amount w =
     (if write_amount < size_of data then
        (case sys_write os STDOUT_FILENO (drop (unat write_amount) data) w of
           (written_this_iter, w') \<Rightarrow>
             (if written_this_iter = -1 then
                Some (Inl (''failed to write: ['' @ show_size write_amount @ ''/'' @
                           show_size (size_of data) @ '' bytes] '' @ os_strerror os (os_errno os w')), w')
              else event_loop_write_loop os data (write_amount + word_of_int written_this_iter) w'))
      else Some (Inr write_amount, w))"

definition event_loop_write_node ::
  "'w os \<Rightarrow> bytes \<Rightarrow> bool \<Rightarrow> 'w \<Rightarrow> (size_t expected \<times> 'w) option" where
  "event_loop_write_node os data force_newline w =
     (case event_loop_write_loop os data 0 w of
        None \<Rightarrow> None
      | Some (Inl e, w') \<Rightarrow> Some (Inl e, w')
      | Some (Inr write_amount, w') \<Rightarrow>
          (if force_newline then
             (case sys_write os STDOUT_FILENO [newline] w' of
                (_, w'') \<Rightarrow> Some (Inr (write_amount + 1), w''))
           else Some (Inr write_amount, w')))"

definition event_loop_write_node_bytes ::
  "'w os \<Rightarrow> bytes \<Rightarrow> 'w \<Rightarrow> (size_t expected \<times> 'w) option" where
  "event_loop_write_node_bytes os data w = event_loop_write_node os data False w"

section \<open>The write loop delivers every byte or stops at an error\<close>

context stdout_writer
begin

lemma write_loop_step:
  assumes "good w" "length data < 2 ^ 63" "unat amt < length data"
  obtains (err) e w1 where "write_loop os data amt w = Some (Inl e, w1)" "good w1" "out w1 = out w"
    | (written) k w1 where "write_loop os data amt w = write_loop os data (amt + word_of_nat k) w1" "good w1"
      "0 < k" "k \<le> length data - unat amt" "unat (amt + word_of_nat k) = unat amt + k"
      "out w1 = out w @ take k (drop (unat amt) data)"
proof -
  have lt: "amt < size_of data" using assms(2,3) by (simp add: word_less_nat_alt size_simps)
  obtain r w1 where call: "sys_write os STDOUT_FILENO (drop (unat amt) data) w = (r, w1)" by fastforce
  note law = write_law [OF assms(1) call]
  show thesis
  proof (cases "r = -1")
    case True
    then show thesis using that(1) law lt call by (subst (asm) write_loop.simps) simp
  next
    case False
    then have r: "0 < r" "nat r \<le> length data - unat amt" "out w1 = out w @ take (nat r) (drop (unat amt) data)" "good w1"
      using law assms(3) by auto
    then have amt: "unat (amt + word_of_nat (nat r)) = unat amt + nat r" using assms(2,3) by (simp add: size_simps)
    have "write_loop os data amt w = write_loop os data (amt + word_of_nat (nat r)) w1"
      using lt call False r(1) by (subst write_loop.simps) simp
    then show thesis using that(2) [of "nat r" w1] r amt by simp
  qed
qed

lemma write_loop_total:
  assumes "good w" "length data < 2 ^ 63" "unat amt \<le> length data"
  shows "\<exists>r w'. write_loop os data amt w = Some (r, w') \<and> good w' \<and>
      (case r of
         Inr n \<Rightarrow> n = size_of data \<and> out w' = out w @ drop (unat amt) data
       | Inl e \<Rightarrow> \<exists>k \<le> length data - unat amt. out w' = out w @ take k (drop (unat amt) data))"
  using assms
proof (induction "length data - unat amt" arbitrary: amt w rule: less_induct)
  case less
  show ?case
  proof (cases "unat amt < length data")
    case False
    then have "amt = size_of data" using less.prems(2,3) by (simp add: word_unat_eq_iff size_simps)
    then show ?thesis using False less.prems by (subst write_loop.simps) simp
  next
    case True
    with less.prems(1,2) show ?thesis
    proof (cases rule: write_loop_step)
      case (written k w1)
      have "length data - unat (amt + word_of_nat k) < length data - unat amt" "unat (amt + word_of_nat k) \<le> length data"
        using written(3-5) True by auto
      from less.hyps [OF this(1) written(2) less.prems(2) this(2), unfolded written(5)]
      obtain r w' where IH: "write_loop os data (amt + word_of_nat k) w1 = Some (r, w')" "good w'"
        "case r of
           Inr n \<Rightarrow> n = size_of data \<and> out w' = out w1 @ drop (unat amt + k) data
         | Inl e \<Rightarrow> \<exists>j \<le> length data - (unat amt + k). out w' = out w1 @ take j (drop (unat amt + k) data)" by blast
      show ?thesis
      proof (cases r)
        case (Inl e)
        then obtain j where "j \<le> length data - (unat amt + k)" "out w' = out w @ take (k + j) (drop (unat amt) data)"
          using IH(3) written(6) by (auto simp: take_add add.commute [of k "unat amt"])
        then show ?thesis using Inl IH(1,2) written(1,4) by (intro exI [of _ r] exI [of _ w']) (auto intro!: exI [of _ "k + j"])
      next
        case (Inr n)
        have "drop (unat amt) data = take k (drop (unat amt) data) @ drop (unat amt + k) data"
          by (metis append_take_drop_id drop_drop add.commute)
        then show ?thesis using Inr IH written(1,6) by simp
      qed
    qed auto
  qed
qed

lemma write_node_law:
  assumes "good w" "length data < 2 ^ 63"
  shows "\<exists>r w'. write_node os data nl w = Some (r, w') \<and> good w' \<and>
      (case r of
         Inr n \<Rightarrow> n = size_of data + (if nl then 1 else 0) \<and>
           (out w' = out w @ data \<or> nl \<and> out w' = out w @ data @ [newline])
       | Inl e \<Rightarrow> \<exists>k \<le> length data. out w' = out w @ take k data)"
proof -
  obtain r w1 where loop: "write_loop os data 0 w = Some (r, w1)" "good w1"
    "case r of Inr n \<Rightarrow> n = size_of data \<and> out w1 = out w @ data
     | Inl e \<Rightarrow> \<exists>k \<le> length data. out w1 = out w @ take k data"
    using write_loop_total [OF assms, of 0] by (auto cong: sum.case_cong)
  obtain r2 w2 where nlc: "sys_write os STDOUT_FILENO [newline] w1 = (r2, w2)"
    by fastforce
  have "good w2 \<and> (out w2 = out w1 \<or> out w2 = out w1 @ [newline])"
    using write_law [OF loop(2) nlc] by (auto simp: take_Cons' split: if_splits)
  then show ?thesis
    using loop nlc by (cases r) (auto simp: write_node_def)
qed

end

sublocale stdout_writer \<subseteq> wr: text_sink "write_node os" out good
  by unfold_locales (rule write_node_law)

text \<open>The sink fails only where a write does.\<close>

lemma write_loop_no_error:
  assumes "\<And>bs v. good v \<Longrightarrow> fst (sys_write os STDOUT_FILENO bs v) \<noteq> -1 \<and> good (snd (sys_write os STDOUT_FILENO bs v))"
    "good w" "write_loop os data amt w = Some (r, w')"
  shows "\<exists>k. r = Inr k"
proof -
  have "os = os \<longrightarrow> good w \<longrightarrow> (\<exists>k. fst (r, w') = Inr k)"
  proof (rule write_loop.raw_induct [OF _ assms(3),
        where P = "\<lambda>u data amt w x. u = os \<longrightarrow> good w \<longrightarrow> (\<exists>k. fst x = Inr k)"], intro impI)
    fix f :: "'a os \<Rightarrow> bytes \<Rightarrow> size_t \<Rightarrow> 'a \<Rightarrow> (size_t expected \<times> 'a) option" and u data amt w x
    assume IH: "\<And>u data amt w x. f u data amt w = Some x \<Longrightarrow> u = os \<longrightarrow> good w \<longrightarrow> (\<exists>k. fst x = Inr k)"
      and eq: "(if amt < size_of data then
        (case sys_write u STDOUT_FILENO (drop (unat amt) data) w of
           (n, w') \<Rightarrow>
             (if n = -1 then
                Some (Inl (''failed to write: ['' @ show_size amt @ ''/'' @
                           show_size (size_of data) @ '' bytes] '' @ os_strerror u (os_errno u w')), w')
              else f u data (amt + word_of_int n) w'))
        else Some (Inr amt, w)) = Some x" and u: "u = os" and w: "good w"
    obtain n w1 where call: "sys_write os STDOUT_FILENO (drop (unat amt) data) w = (n, w1)" by fastforce
    then have "n \<noteq> -1" "good w1" using assms(1) [OF w, of "drop (unat amt) data"] by simp_all
    then show "\<exists>k. fst x = Inr k" using eq call u IH by (auto split: if_splits)
  qed
  then show ?thesis using assms(2) by simp
qed

lemma write_node_no_error_in:
  assumes "\<And>bs v. good v \<Longrightarrow> fst (sys_write os STDOUT_FILENO bs v) \<noteq> -1 \<and> good (snd (sys_write os STDOUT_FILENO bs v))"
    "good w" "write_node os data nl w = Some (r, w')"
  shows "\<exists>k. r = Inr k"
proof -
  have "\<exists>k. q = Inr k" if "write_loop os data 0 w = Some (q, v)" for q v
    by (rule write_loop_no_error [of good, OF assms(1) assms(2) that])
  then show ?thesis
    using assms(3) by (force simp: write_node_def split: option.splits sum.splits if_splits prod.splits)
qed

lemma write_node_no_error:
  assumes "\<And>bs v. fst (sys_write os STDOUT_FILENO bs v) \<noteq> -1" "write_node os data nl w = Some (r, w')"
  shows "\<exists>k. r = Inr k"
  by (rule write_node_no_error_in [where good = "\<lambda>v. True", OF _ _ assms(2)]) (simp_all add: assms(1))

text \<open>The event-loop variant of the sink is the same loop without the mutex.\<close>

lemma event_loop_write_loop_le: "event_loop_write_loop os data amt w = Some r \<Longrightarrow> write_loop os data amt w = Some r"
proof (rule event_loop_write_loop.raw_induct [where P = "\<lambda>os data amt w r. write_loop os data amt w = Some r"])
  fix f os data amt w r
  assume IH: "\<And>os data amt w r. f os data amt w = Some r \<Longrightarrow> write_loop os data amt w = Some r"
    and eq: "(if amt < size_of data then
        (case sys_write os STDOUT_FILENO (drop (unat amt) data) w of
           (n, w') \<Rightarrow>
             (if n = -1 then
                Some (Inl (''failed to write: ['' @ show_size amt @ ''/'' @
                           show_size (size_of data) @ '' bytes] '' @ os_strerror os (os_errno os w')), w')
              else f os data (amt + word_of_int n) w'))
      else Some (Inr amt, w)) = Some r"
  then show "write_loop os data amt w = Some r"
    by (subst write_loop.simps) (auto split: prod.splits if_splits)
qed

lemma write_loop_le: "write_loop os data amt w = Some r \<Longrightarrow> event_loop_write_loop os data amt w = Some r"
proof (rule write_loop.raw_induct [where P = "\<lambda>os data amt w r. event_loop_write_loop os data amt w = Some r"])
  fix f os data amt w r
  assume IH: "\<And>os data amt w r. f os data amt w = Some r \<Longrightarrow> event_loop_write_loop os data amt w = Some r"
    and eq: "(if amt < size_of data then
        (case sys_write os STDOUT_FILENO (drop (unat amt) data) w of
           (n, w') \<Rightarrow>
             (if n = -1 then
                Some (Inl (''failed to write: ['' @ show_size amt @ ''/'' @
                           show_size (size_of data) @ '' bytes] '' @ os_strerror os (os_errno os w')), w')
              else f os data (amt + word_of_int n) w'))
      else Some (Inr amt, w)) = Some r"
  then show "event_loop_write_loop os data amt w = Some r"
    by (subst event_loop_write_loop.simps) (auto split: prod.splits if_splits)
qed

lemma event_loop_write_loop_eq: "event_loop_write_loop os data amt w = write_loop os data amt w"
  by (metis event_loop_write_loop_le write_loop_le not_None_eq)

lemma event_loop_write_node_eq: "event_loop_write_node os data nl w = write_node os data nl w"
  by (simp add: event_loop_write_node_def write_node_def event_loop_write_loop_eq)

section \<open>Properties\<close>

text \<open>
  C14. The write sink on any standard output that keeps the contract of \<^verbatim>\<open>write\<close>, short writes
  and errors included: the call returns. On success every byte of the data has been written
  once and in order, the count is the size of the data, and a forced newline adds one to the
  count (also when the write of the newline itself failed). On an error a prefix has been written.
\<close>

theorem write_node_delivers:
  assumes "stdout_writer os out good" "good w" "length data < 2 ^ 63"
  shows "\<exists>r w'. write_node os data nl w = Some (r, w') \<and> good w' \<and>
      (case r of
         Inr n \<Rightarrow> n = size_of data + (if nl then 1 else 0) \<and>
           (out w' = out w @ data \<or> nl \<and> out w' = out w @ data @ [newline])
       | Inl e \<Rightarrow> \<exists>k \<le> length data. out w' = out w @ take k data)"
  using assms by (rule stdout_writer.write_node_law)

theorem write_node_delivers_witness:
  "stdout_writer sim_os sim_out (\<lambda>w. True) \<and>
   (\<exists>r w'. write_node sim_os ''hello'' True (sim0\<lparr>sim_script := [2, 1, -1]\<rparr>) = Some (r, w') \<and>
      (case r of
         Inr n \<Rightarrow> n = 6 \<and> (sim_out w' = ''hello'' \<or> sim_out w' = ''hello'' @ [newline])
       | Inl e \<Rightarrow> \<exists>k \<le> length ''hello''. sim_out w' = take k ''hello''))"
  using write_node_delivers [OF sim_write.stdout_writer_axioms, where w = "sim0\<lparr>sim_script := [2, 1, -1]\<rparr>"
      and data = "''hello''" and nl = True]
    sim_write.stdout_writer_axioms
  by (simp add: sim0_def size_of_def cong: sum.case_cong)

text \<open>
  The event-loop write sink is the write sink without the mutex: the two nodes agree on
  every kernel, every data and every flag, also where they do not return.
\<close>

theorem event_loop_write_same_as_write:
  "event_loop_write_node os data nl w = write_node os data nl w \<and>
   event_loop_write_node_bytes os data w = write_node_bytes os data w"
  by (simp add: event_loop_write_node_bytes_def write_node_bytes_def event_loop_write_node_eq)

text \<open>
  The sendfile sink restarts at its offset after a short transfer: when the first call
  moves \<open>k\<close> bytes, fewer than asked for, and the second call moves all, the node
  reports success with \<open>k + size\<close> bytes, the first \<open>k\<close> of them written twice.
\<close>

theorem send_file_short_transfer_repeats:
  assumes first: "sys_sendfile os STDOUT_FILENO fd off sz w = (int k, w1)" "0 < k" "k < unat sz"
    "out w1 = out w @ take k (drop (unat off) data)"
    and second: "sys_sendfile os STDOUT_FILENO fd off sz w1 = (int (unat sz), w2)"
    "out w2 = out w1 @ take (unat sz) (drop (unat off) data)"
    and sz: "unat sz < 2 ^ 63"
  shows "send_file_node os fd sz off w = Some (Inr (word_of_nat k + sz), w2) \<and>
    out w2 = out w @ take k (drop (unat off) data) @ take (unat sz) (drop (unat off) data)"
proof -
  have k: "unat (word_of_nat k :: size_t) = k"
    using first(3) sz by (simp add: unat_of_nat take_bit_nat_eq_self)
  then have lt: "(word_of_nat k :: size_t) < sz" using first(3) by (simp add: word_less_nat_alt)
  have ge: "\<not> word_of_nat k + sz < sz"
  proof -
    have "unat (sz + word_of_nat k) = unat sz + k" using first(3) sz by (intro unat_plus_nat) simp
    then show ?thesis by (simp add: word_less_nat_alt add.commute)
  qed
  have pos: "0 < int (unat sz)" using first(2,3) by linarith
  have "0 < sz" using lt by (metis word_gt_0 word_not_simps(1))
  then have "send_file_node os fd sz off w = send_file_loop os fd sz off (word_of_nat k) w1"
    using first by (simp add: send_file_node_def send_file_loop.simps [of os fd sz off 0 w])
  also have "\<dots> = send_file_loop os fd sz off (word_of_nat k + sz) w2"
    using second(1) lt pos by (simp add: send_file_loop.simps [of os fd sz off "word_of_nat k" w1])
  also have "\<dots> = Some (Inr (word_of_nat k + sz), w2)"
    using ge by (simp add: send_file_loop.simps [of os fd sz off "word_of_nat k + sz" w2])
  finally show ?thesis using first(4) second(2) by simp
qed

theorem send_file_short_transfer_repeats_witness:
  "\<exists>w2. send_file_node sim_os 3 5 0 (sim0\<lparr>sim_files := (\<lambda>_. ''hello''), sim_script := [2]\<rparr>) = Some (Inr 7, w2) \<and>
     sim_out w2 = ''hehello''"
proof -
  let ?w = "sim0\<lparr>sim_files := (\<lambda>_. ''hello''), sim_script := [2]\<rparr>"
  let ?w1 = "?w\<lparr>sim_script := [], sim_out := ''he''\<rparr>"
  let ?w2 = "?w1\<lparr>sim_out := ''hehello''\<rparr>"
  have "send_file_node sim_os 3 5 0 ?w = Some (Inr (word_of_nat 2 + 5), ?w2) \<and>
      sim_out ?w2 = sim_out ?w @ take 2 (drop (unat (0 :: size_t)) ''hello'') @
        take (unat (5 :: size_t)) (drop (unat (0 :: size_t)) ''hello'')"
    by (rule send_file_short_transfer_repeats [where ?w1.0 = ?w1])
      (simp_all add: sim_do_sendfile_def sim_grant_def sim0_def Let_def)
  then show ?thesis by simp
qed

end
