(* ===== verification/Batch.thy ===== *)
theory Batch
  imports Sinks
begin

section \<open>The batching transform\<close>

text \<open>
  \<^verbatim>\<open>transform/batch.h\<close>: text is appended to \<^verbatim>\<open>buffer_\<close>, which is handed on when it has reached
  64 KiB; a call without arguments hands on what is left. The node's state is the buffer
  beside the state of what is downstream. The exceptions an allocation may throw are not
  modelled.
\<close>

abbreviation buffer_size :: size_t where
  "buffer_size \<equiv> 64 * 1024"

definition batch_node ::
  "(bytes \<Rightarrow> bool \<Rightarrow> 's \<Rightarrow> (size_t expected \<times> 's) option) \<Rightarrow> (string, string \<times> 's) stage" where
  "batch_node next data st =
     (case st of (buffer, s) \<Rightarrow>
        (let buffer' = buffer @ data in
         if size_of buffer' \<ge> buffer_size then
           (case next buffer' False s of
              None \<Rightarrow> None
            | Some (Inl e, s') \<Rightarrow> Some (Inl e, buffer', s')
            | Some (Inr n, s') \<Rightarrow> Some (Inr (0 + n), [], s'))
         else Some (Inr 0, buffer', s)))"

definition batch_flush ::
  "(bytes \<Rightarrow> bool \<Rightarrow> 's \<Rightarrow> (size_t expected \<times> 's) option) \<Rightarrow> string \<times> 's \<Rightarrow>
   (size_t expected \<times> string \<times> 's) option" where
  "batch_flush next st =
     (case st of (buffer, s) \<Rightarrow>
        (case next buffer False s of
           None \<Rightarrow> None
         | Some (Inl e, s') \<Rightarrow> Some (Inl e, buffer, s')
         | Some (Inr n, s') \<Rightarrow> Some (Inr (size_of buffer), buffer, s')))"

section \<open>Batching loses nothing and keeps the order\<close>

definition batch_good :: "('s \<Rightarrow> bool) \<Rightarrow> string \<times> 's \<Rightarrow> bool" where
  "batch_good good st \<longleftrightarrow> good (snd st) \<and> length (fst st) < unat buffer_size"

definition batch_view :: "('s \<Rightarrow> bytes) \<Rightarrow> string \<times> 's \<Rightarrow> bytes" where
  "batch_view out st = out (snd st) @ fst st"

definition batch_out :: "('s \<Rightarrow> bytes) \<Rightarrow> string \<times> 's \<Rightarrow> bytes" where
  "batch_out out st = out (snd st)"

lemmas batch_obs = batch_good_def batch_view_def batch_out_def

context text_sink
begin

lemma batch_emits:
  assumes "batch_good good st" "length d \<le> 2 ^ 62"
  shows "\<exists>r st'. batch_node put d st = Some (r, st') \<and> prefix (batch_out out st') (batch_view out st @ d) \<and>
    (case r of Inr k \<Rightarrow> batch_good good st' \<and> batch_view out st' = batch_view out st @ d | Inl e \<Rightarrow> True)"
proof -
  obtain b s where st: "st = (b, s)" by fastforce
  with assms have good: "good s" and len: "length (b @ d) < 2 ^ 63" by (simp_all add: batch_obs)
  have sz: "unat (size_of (b @ d)) = length (b @ d)" using len by (simp add: size_simps)
  show ?thesis
  proof (cases "size_of (b @ d) \<ge> buffer_size")
    case True
    from good len show ?thesis
    proof (cases rule: put_False_cases)
      case (fail e s' k)
      moreover have "prefix (out s @ take k (b @ d)) (out s @ b @ d)"
        using take_is_prefix [of k "b @ d"] by simp
      ultimately show ?thesis using True by (simp add: st batch_node_def batch_obs Let_def)
    next
      case (okay s')
      then show ?thesis using True by (simp add: st batch_node_def batch_obs Let_def)
    qed
  next
    case False
    then have "length (b @ d) < unat buffer_size" using sz by (simp add: not_le word_less_nat_alt)
    then show ?thesis
      using False good by (simp add: st batch_node_def batch_obs Let_def)
  qed
qed

lemma batch_flush_cases:
  assumes "batch_good good (b, s)"
  obtains (fail) e s' where "batch_flush put (b, s) = Some (Inl e, b, s')" "prefix (out s') (out s @ b)"
    | (okay) s' where "batch_flush put (b, s) = Some (Inr (size_of b), b, s')" "good s'" "out s' = out s @ b"
proof -
  have "good s" "length b < 2 ^ 63" using assms by (simp_all add: batch_obs)
  then show thesis
    by (cases rule: put_False_cases) (auto simp: batch_flush_def take_is_prefix intro: fail okay)
qed

end

sublocale text_sink \<subseteq> batch: emitter "batch_node put" "batch_good good" "batch_view out" "batch_out out"
  "\<lambda>d. d" "2 ^ 62"
proof
  show "prefix (batch_out out st) (batch_view out st)" for st
    by (simp add: batch_obs)
qed (rule batch_emits)

context text_sink
begin

lemma batch_run_then_flush:
  assumes "good s" "\<forall>d \<in> set ds. length d \<le> 2 ^ 62"
  shows "\<exists>r b s1. feed (batch_node put) ds acc ([], s) = Some (r, b, s1) \<and> prefix (out s1) (out s @ concat ds) \<and>
    (case r of
       Inl e \<Rightarrow> True
     | Inr n \<Rightarrow> length b < unat buffer_size \<and> out s1 @ b = out s @ concat ds \<and>
         (\<exists>q s2. batch_flush put (b, s1) = Some (q, b, s2) \<and> prefix (out s2) (out s @ concat ds) \<and>
            (case q of Inr m \<Rightarrow> m = size_of b \<and> out s2 = out s @ concat ds | Inl e \<Rightarrow> True)))"
proof -
  have "batch_good good ([], s)" using assms(1) by (simp add: batch_obs)
  from batch.feed_emits [OF this assms(2), of acc]
  obtain r b s1 where run: "feed (batch_node put) ds acc ([], s) = Some (r, b, s1)"
    "prefix (out s1) (out s @ concat ds)"
    and ok: "case r of Inr k \<Rightarrow> batch_good good (b, s1) \<and> out s1 @ b = out s @ concat ds | Inl e \<Rightarrow> True"
    by (auto simp: batch_obs)
  show ?thesis
  proof (cases r)
    case (Inl e)
    then show ?thesis using run by auto
  next
    case (Inr n)
    then have g1: "batch_good good (b, s1)" and view: "out s1 @ b = out s @ concat ds" using ok by auto
    from g1 have "\<exists>q s2. batch_flush put (b, s1) = Some (q, b, s2) \<and> prefix (out s2) (out s @ concat ds) \<and>
         (case q of Inr m \<Rightarrow> m = size_of b \<and> out s2 = out s @ concat ds | Inl e \<Rightarrow> True)"
      by (cases rule: batch_flush_cases) (auto simp flip: view)
    then show ?thesis using run Inr g1 view by (simp add: batch_obs)
  qed
qed

end

section \<open>Properties\<close>

text \<open>
  C15. Batching in front of any sink that keeps the text-sink contract, with errors allowed:
  a run over any pieces of text returns. While it succeeds, what is on the output followed
  by the buffer is the pieces in order, with fewer than 64 KiB in the buffer; the final
  flush then puts the rest there, so that no byte is lost, repeated or reordered. At any
  failure the output is a prefix of the pieces.
\<close>

theorem batch_loses_nothing:
  assumes "text_sink put out good" "good s" "\<forall>d \<in> set ds. length d \<le> 2 ^ 62"
  shows "\<exists>r b s1. feed (batch_node put) ds acc ([], s) = Some (r, b, s1) \<and> prefix (out s1) (out s @ concat ds) \<and>
    (case r of
       Inl e \<Rightarrow> True
     | Inr n \<Rightarrow> length b < unat buffer_size \<and> out s1 @ b = out s @ concat ds \<and>
         (\<exists>q s2. batch_flush put (b, s1) = Some (q, b, s2) \<and> prefix (out s2) (out s @ concat ds) \<and>
            (case q of Inr m \<Rightarrow> m = size_of b \<and> out s2 = out s @ concat ds | Inl e \<Rightarrow> True)))"
  using assms by (rule text_sink.batch_run_then_flush)

theorem batch_loses_nothing_witness:
  "\<exists>r b s1. feed (batch_node (write_node sim_os)) [''ab'', ''c''] 0 ([], sim0) = Some (r, b, s1) \<and>
    prefix (sim_out s1) (sim_out sim0 @ concat [''ab'', ''c'']) \<and>
    (case r of
       Inl e \<Rightarrow> True
     | Inr n \<Rightarrow> length b < unat buffer_size \<and> sim_out s1 @ b = sim_out sim0 @ concat [''ab'', ''c''] \<and>
         (\<exists>q s2. batch_flush (write_node sim_os) (b, s1) = Some (q, b, s2) \<and>
            prefix (sim_out s2) (sim_out sim0 @ concat [''ab'', ''c'']) \<and>
            (case q of Inr m \<Rightarrow> m = size_of b \<and> sim_out s2 = sim_out sim0 @ concat [''ab'', ''c''] | Inl e \<Rightarrow> True)))"
  by (rule batch_loses_nothing [OF sim_write.wr.text_sink_axioms]) simp_all

end
