(* ===== verification/Line_Filters.thy ===== *)
theory Line_Filters
  imports Batch
begin

section \<open>The regex transforms\<close>

text \<open>
  \<^verbatim>\<open>transform/re2_regex.h\<close>, \<^verbatim>\<open>transform/vectorscan_regex.h\<close> and \<^verbatim>\<open>transform/simple_regex.h\<close>. The three
  regex engines are parameters: \<open>partial_match\<close> (\<^verbatim>\<open>RE2::PartialMatch\<close>), \<open>hs_scan\<close> with its
  compiler and scratch allocator, and \<open>regex_search\<close> (\<^verbatim>\<open>std::regex_search\<close>, the position and
  length of a match). A chunk is filtered by itself: nothing is carried from one chunk to
  the next.
\<close>

text \<open>\<open>next(line)\<close> and then \<open>next("\n")\<close>, stopping at the first error.\<close>

definition emit_line :: "(string, 's) stage \<Rightarrow> string \<Rightarrow> 's \<Rightarrow> (size_t expected \<times> 's) option" where
  "emit_line next line s =
     (case next line s of
        None \<Rightarrow> None
      | Some (Inl e, s') \<Rightarrow> Some (Inl e, s')
      | Some (Inr _, s') \<Rightarrow> next [newline] s')"

subsection \<open>re2_regex.h\<close>

definition re2_pattern :: "string \<Rightarrow> string" where
  "re2_pattern pattern = ''(?m)'' @ pattern"

text \<open>The line at the front of \<^verbatim>\<open>remaining\<close>, and what is left after its newline.\<close>

definition re2_line :: "string \<Rightarrow> string" where
  "re2_line remaining =
     (case sv_find newline remaining 0 of None \<Rightarrow> remaining | Some p \<Rightarrow> sv_substr 0 p remaining)"

function re2_loop ::
  "(string \<Rightarrow> bool) \<Rightarrow> (string, 's) stage \<Rightarrow> size_t \<Rightarrow> string \<Rightarrow> 's \<Rightarrow> (size_t expected \<times> 's) option" where
  "re2_loop matches next found remaining s =
     (if remaining = [] then Some (Inr found, s)
      else
        (let newline_pos = sv_find newline remaining 0; line = re2_line remaining in
         case (if line \<noteq> [] \<and> matches line then
                 (case emit_line next line s of
                    None \<Rightarrow> None
                  | Some (Inl e, s') \<Rightarrow> Some (Inl e, s')
                  | Some (Inr _, s') \<Rightarrow> Some (Inr (found + 1), s'))
               else Some (Inr found, s)) of
           None \<Rightarrow> None
         | Some (Inl e, s') \<Rightarrow> Some (Inl e, s')
         | Some (Inr found', s') \<Rightarrow>
             (case newline_pos of
                None \<Rightarrow> Some (Inr found', s')
              | Some p \<Rightarrow> re2_loop matches next found' (drop (p + 1) remaining) s')))"
  by pat_completeness auto
termination
  by (relation "measure (\<lambda>(m, n, f, remaining, s). length remaining)") auto

declare re2_loop.simps [simp del]

definition re2_node ::
  "(string \<Rightarrow> string \<Rightarrow> bool) \<Rightarrow> string \<Rightarrow> (string, 's) stage \<Rightarrow> (bytes, 's) stage" where
  "re2_node partial_match pattern next data s =
     re2_loop (partial_match (re2_pattern pattern)) next 0 data s"

subsection \<open>vectorscan_regex.h\<close>

text \<open>
  The callback stores the end of every reported match and asks the scanner to go on
  (it returns 0). The scanner's report on a buffer is the list of its matches, in order.
\<close>

definition on_match :: "nat \<Rightarrow> nat \<Rightarrow> nat list \<Rightarrow> int \<times> nat list" where
  "on_match from to matches = (0, matches @ [to])"

fun report :: "(nat \<times> nat) list \<Rightarrow> nat list \<Rightarrow> nat list" where
  "report [] ctx = ctx"
| "report ((from, to) # ms) ctx =
     (case on_match from to ctx of (stop, ctx') \<Rightarrow> if stop = 0 then report ms ctx' else ctx')"

text \<open>
  The constructor of the state: \<open>hs_compile\<close> answers a result and an error message,
  \<open>hs_alloc_scratch\<close> a result; \<^verbatim>\<open>HS_SUCCESS\<close> is 0.
\<close>

definition vectorscan_state ::
  "(string \<Rightarrow> int \<times> string) \<Rightarrow> (string \<Rightarrow> int) \<Rightarrow> string \<Rightarrow> unit outcome" where
  "vectorscan_state hs_compile hs_alloc_scratch regex =
     (case hs_compile regex of
        (res, message) \<Rightarrow>
          (if res \<noteq> 0 then
             Threw (Runtime_Error (''failed to compile regex: '' @ regex @ '' ['' @ message @ '']''))
           else if hs_alloc_scratch regex \<noteq> 0 then
             Threw (Runtime_Error (''failed to create scratch space: '' @ show_int (hs_alloc_scratch regex)))
           else Returned ()))"

definition match_line :: "string \<Rightarrow> nat \<Rightarrow> string" where
  "match_line str match_end =
     (let previous_newline = sv_find_last_of newline (sv_substr 0 match_end str);
          line_start = (case previous_newline of None \<Rightarrow> 0 | Some p \<Rightarrow> p + 1);
          next_newline = sv_find newline str match_end;
          line_end = (case next_newline of None \<Rightarrow> length str | Some p \<Rightarrow> p)
      in sv_substr line_start (line_end - line_start) str)"

fun vectorscan_loop ::
  "(string, 's) stage \<Rightarrow> string \<Rightarrow> nat list \<Rightarrow> 's \<Rightarrow> (unit expected \<times> 's) option" where
  "vectorscan_loop next str [] s = Some (Inr (), s)"
| "vectorscan_loop next str (match_end # matches) s =
     (case emit_line next (match_line str match_end) s of
        None \<Rightarrow> None
      | Some (Inl e, s') \<Rightarrow> Some (Inl e, s')
      | Some (Inr _, s') \<Rightarrow> vectorscan_loop next str matches s')"

definition vectorscan_node ::
  "(bytes \<Rightarrow> int \<times> (nat \<times> nat) list) \<Rightarrow> (string, 's) stage \<Rightarrow> (bytes, 's) stage" where
  "vectorscan_node hs_scan next data s =
     (case hs_scan data of
        (res, reported) \<Rightarrow>
          (let matches = report reported [] in
           if res \<noteq> 0 then Some (Inl ''failed to parse input'', s)
           else
             (case vectorscan_loop next data matches s of
                None \<Rightarrow> None
              | Some (Inl e, s') \<Rightarrow> Some (Inl e, s')
              | Some (Inr _, s') \<Rightarrow> Some (Inr (size_of matches), s'))))"

subsection \<open>simple_regex.h\<close>

definition strip_front :: "string \<Rightarrow> string" where
  "strip_front line = dropWhile (\<lambda>c. c = newline \<or> c = carriage_return) line"

definition simple_line :: "string \<Rightarrow> nat \<Rightarrow> nat \<Rightarrow> string" where
  "simple_line str position len =
     (let previous_newline = sv_find_last_of newline (sv_substr 0 position str);
          start = (case previous_newline of None \<Rightarrow> 0 | Some p \<Rightarrow> p + 1);
          match_end = position + len;
          next_newline = sv_find newline str match_end;
          out_end = (case next_newline of None \<Rightarrow> length str | Some p \<Rightarrow> p)
      in strip_front (sv_substr start (out_end - start) str))"

function simple_regex_loop ::
  "(string \<Rightarrow> (nat \<times> nat) option) \<Rightarrow> (string \<Rightarrow> bool \<Rightarrow> 's \<Rightarrow> (size_t expected \<times> 's) option) \<Rightarrow>
   size_t \<Rightarrow> string \<Rightarrow> 's \<Rightarrow> (size_t expected \<times> 's) option" where
  "simple_regex_loop regex_search next found str s =
     (case regex_search str of
        None \<Rightarrow> Some (Inr found, s)
      | Some (position, len) \<Rightarrow>
          (case next (simple_line str position len) True s of
             None \<Rightarrow> None
           | Some (Inl e, s') \<Rightarrow> Some (Inl e, s')
           | Some (Inr _, s') \<Rightarrow>
               (case sv_find newline str (position + len) of
                  None \<Rightarrow> Some (Inr (found + 1), s')
                | Some next_newline \<Rightarrow>
                    simple_regex_loop regex_search next (found + 1) (drop (next_newline + 1) str) s')))"
  by pat_completeness auto
termination
  by (relation "measure (\<lambda>(r, n, f, str, s). length str)") (auto dest: sv_find_Some(2))

declare simple_regex_loop.simps [simp del]

definition simple_regex_node ::
  "(string \<Rightarrow> (nat \<times> nat) option) \<Rightarrow> (string \<Rightarrow> bool \<Rightarrow> 's \<Rightarrow> (size_t expected \<times> 's) option) \<Rightarrow>
   (bytes, 's) stage" where
  "simple_regex_node regex_search next data s = simple_regex_loop regex_search next 0 data s"

section \<open>Reference definitions\<close>

text \<open>The lines of a text; a newline ends a line, the last line may lack it.\<close>

function split_lines :: "string \<Rightarrow> string list" where
  "split_lines s =
     (if s = [] then []
      else takeWhile (\<lambda>c. c \<noteq> newline) s #
           split_lines (drop (Suc (length (takeWhile (\<lambda>c. c \<noteq> newline) s))) s))"
  by pat_completeness auto
termination
  by (relation "measure length") auto

declare split_lines.simps [simp del]

definition matching_lines :: "(string \<Rightarrow> bool) \<Rightarrow> string \<Rightarrow> string list" where
  "matching_lines matches data = filter (\<lambda>l. l \<noteq> [] \<and> matches l) (split_lines data)"

definition print_lines :: "string list \<Rightarrow> string" where
  "print_lines ls = concat (map (\<lambda>l. l @ [newline]) ls)"

text \<open>The lines the \<^verbatim>\<open>std::regex\<close> transform picks, and an output of them with some newlines.\<close>

function simple_lines :: "(string \<Rightarrow> (nat \<times> nat) option) \<Rightarrow> string \<Rightarrow> string list" where
  "simple_lines regex_search str =
     (case regex_search str of
        None \<Rightarrow> []
      | Some (position, len) \<Rightarrow>
          simple_line str position len #
          (case sv_find newline str (position + len) of
             None \<Rightarrow> []
           | Some p \<Rightarrow> simple_lines regex_search (drop (p + 1) str)))"
  by pat_completeness auto
termination
  by (relation "measure (\<lambda>(r, str). length str)") (auto dest: sv_find_Some(2))

declare simple_lines.simps [simp del]

definition print_some :: "(string \<times> bool) list \<Rightarrow> string" where
  "print_some ls = concat (map (\<lambda>(l, b). l @ (if b then [newline] else [])) ls)"

lemma print_lines_simps [simp]:
  "print_lines [] = []" "print_lines (l # ls) = l @ newline # print_lines ls"
  by (simp_all add: print_lines_def)

lemma print_lines_append [simp]: "print_lines (xs @ ys) = print_lines xs @ print_lines ys"
  by (simp add: print_lines_def)

section \<open>Emitting a line\<close>

text \<open>The interface the transforms rely on: a stage that passes text through unchanged.\<close>

locale line_sink = emitter nxt good view out "\<lambda>d. d" lim
  for nxt :: "(bytes, 's) stage" and good :: "'s \<Rightarrow> bool"
    and view :: "'s \<Rightarrow> bytes" and out :: "'s \<Rightarrow> bytes" and lim :: nat +
  assumes lim_pos: "1 \<le> lim"
begin

lemma emit_line_cases:
  assumes "good s" "length l \<le> lim"
  obtains (fail) e s' where "emit_line nxt l s = Some (Inl e, s')" "prefix (out s') (view s @ l @ [newline])"
    | (okay) k s' where "emit_line nxt l s = Some (Inr k, s')" "good s'" "view s' = view s @ l @ [newline]"
      "prefix (out s') (view s @ l @ [newline])"
  using assms
proof (cases rule: emit_cases)
  case (fail e s')
  moreover have "prefix (out s') ((view s @ l) @ [newline])"
    using fail(2) by (rule prefix_prefix)
  ultimately show thesis
    using that(1) [of e s'] by (simp add: emit_line_def)
next
  case (okay k s1)
  have "length [newline] \<le> lim" using lim_pos by simp
  with okay(2) show thesis
    using that okay(1,3) by (cases rule: emit_cases) (auto simp: emit_line_def)
qed

end

section \<open>The RE2 transform prints the matching lines\<close>

lemma split_lines_step:
  assumes "rem \<noteq> []"
  shows "split_lines rem = re2_line rem #
     (case sv_find newline rem 0 of None \<Rightarrow> [] | Some p \<Rightarrow> split_lines (drop (p + 1) rem))"
proof -
  let ?t = "takeWhile (\<lambda>c. c \<noteq> newline) rem"
  have le: "length ?t \<le> length rem" by (rule length_takeWhile_le)
  show ?thesis
  proof (cases "length ?t < length rem")
    case True
    then show ?thesis
      using assms by (subst split_lines.simps)
        (simp add: sv_find_def re2_line_def sv_substr_def takeWhile_eq_take [symmetric])
  next
    case False
    then have full: "length ?t = length rem" using le by simp
    then have "?t = rem" by (metis takeWhile_eq_take take_all order_refl)
    then show ?thesis
      using assms full by (subst split_lines.simps)
        (simp add: sv_find_def re2_line_def split_lines.simps [of "[]"])
  qed
qed

lemma matching_lines_Nil [simp]: "matching_lines m [] = []"
  by (simp add: matching_lines_def split_lines.simps)

text \<open>What the line at the front of the text contributes.\<close>

definition front_line :: "(string \<Rightarrow> bool) \<Rightarrow> string \<Rightarrow> string list" where
  "front_line m rem = (if re2_line rem \<noteq> [] \<and> m (re2_line rem) then [re2_line rem] else [])"

lemma matching_lines_step:
  assumes "rem \<noteq> []"
  shows "matching_lines m rem = front_line m rem @
     (case sv_find newline rem 0 of None \<Rightarrow> [] | Some p \<Rightarrow> matching_lines m (drop (p + 1) rem))"
  using split_lines_step [OF assms] by (auto simp: matching_lines_def front_line_def split: option.splits)

lemma re2_line_length: "length (re2_line rem) \<le> length rem"
  by (simp add: re2_line_def sv_substr_def split: option.splits)

context line_sink
begin

text \<open>One round: the line at the front is handed on if it matches, or the next stage fails.\<close>

lemma re2_loop_step:
  assumes "good s" "length rem \<le> lim" "rem \<noteq> []"
  obtains (fail) e s' where "re2_loop m nxt found rem s = Some (Inl e, s')" "prefix (out s') (view s @ print_lines (front_line m rem))"
    | (okay) s' where "good s'" "view s' = view s @ print_lines (front_line m rem)"
      "re2_loop m nxt found rem s =
         (case sv_find newline rem 0 of
            None \<Rightarrow> Some (Inr (found + size_of (front_line m rem)), s')
          | Some p \<Rightarrow> re2_loop m nxt (found + size_of (front_line m rem)) (drop (p + 1) rem) s')"
proof (cases "re2_line rem \<noteq> [] \<and> m (re2_line rem)")
  case False
  then have none: "front_line m rem = []" by (simp only: front_line_def if_False)
  have "re2_loop m nxt found rem s = (case sv_find newline rem 0 of
      None \<Rightarrow> Some (Inr found, s) | Some p \<Rightarrow> re2_loop m nxt found (drop (p + 1) rem) s)"
    using False assms(3) by (subst re2_loop.simps) (auto simp: Let_def)
  then show thesis using that(2) [of s, unfolded none size_of_Nil add_0_right] assms(1) by simp
next
  case hit: True
  have "length (re2_line rem) \<le> lim" using re2_line_length [of rem] assms(2) by simp
  with assms(1) show thesis
  proof (cases rule: emit_line_cases)
    case (fail e s')
    then show thesis
      using that(1) [of e s'] hit assms(3) re2_loop.simps [of m nxt found rem s] by (simp add: Let_def front_line_def)
  next
    case (okay k s1)
    have one: "front_line m rem = [re2_line rem]" "size_of [re2_line rem] = 1"
      using hit by (simp_all add: front_line_def size_of_def)
    show thesis
      using that(2) [of s1, unfolded one] okay hit assms(3) re2_loop.simps [of m nxt found rem s] by (simp add: Let_def)
  qed
qed

lemma re2_loop_emits:
  assumes "good s" "length rem \<le> lim"
  shows "\<exists>r s'. re2_loop m nxt found rem s = Some (r, s') \<and>
      prefix (out s') (view s @ print_lines (matching_lines m rem)) \<and>
      (case r of
         Inr k \<Rightarrow> good s' \<and> view s' = view s @ print_lines (matching_lines m rem) \<and>
           k = found + size_of (matching_lines m rem)
       | Inl e \<Rightarrow> True)"
  using assms
proof (induction "length rem" arbitrary: rem found s rule: less_induct)
  case less
  show ?case
  proof (cases "rem = []")
    case True
    then show ?thesis using less.prems by (simp add: re2_loop.simps out_view)
  next
    case False
    note lines = matching_lines_step [OF False, of m]
    from less.prems False show ?thesis
    proof (cases rule: re2_loop_step [where m = m and found = found])
      case (fail e s')
      then show ?thesis using prefix_prefix [OF fail(2)] lines by simp
    next
      case (okay s')
      show ?thesis
      proof (cases "sv_find newline rem 0")
        case None
        then show ?thesis using okay lines out_view [OF okay(1)] by simp
      next
        case (Some p)
        then have "length (drop (p + 1) rem) < length rem" using sv_find_Some(2) [OF Some] by simp
        then show ?thesis
          using less.hyps [OF _ okay(1), of "drop (p + 1) rem" "found + size_of (front_line m rem)"] less.prems(2) okay(2,3) lines Some
          by (simp add: size_of_append add.assoc)
      qed
    qed
  qed
qed

end

sublocale line_sink \<subseteq> re2: counting_emitter
  "re2_node pm pattern nxt" good view out
  "\<lambda>d. print_lines (matching_lines (pm (re2_pattern pattern)) d)" lim
  "\<lambda>d. size_of (matching_lines (pm (re2_pattern pattern)) d)" for pm pattern
proof
  fix s :: 's and d :: bytes
  assume asm: "good s" "length d \<le> lim"
  let ?m = "pm (re2_pattern pattern)"
  obtain r s' where run: "re2_loop ?m nxt 0 d s = Some (r, s')"
      "prefix (out s') (view s @ print_lines (matching_lines ?m d))"
      "case r of
         Inr k \<Rightarrow> good s' \<and> view s' = view s @ print_lines (matching_lines ?m d) \<and>
           k = 0 + size_of (matching_lines ?m d)
       | Inl e \<Rightarrow> True"
    using re2_loop_emits [OF asm, of ?m 0] by blast
  then show "\<exists>r s'. re2_node pm pattern nxt d s = Some (r, s') \<and>
      prefix (out s') (view s @ print_lines (matching_lines ?m d)) \<and>
      (case r of Inr k \<Rightarrow> good s' \<and> view s' = view s @ print_lines (matching_lines ?m d) | Inl e \<Rightarrow> True)"
    by (cases r) (auto simp: re2_node_def)
  show "k = size_of (matching_lines ?m d)" if "re2_node pm pattern nxt d s = Some (Inr k, s'')" for k s''
    using run that by (simp add: re2_node_def)
qed (rule out_view)

section \<open>The Vectorscan transform prints the line of every reported match\<close>

text \<open>
  \<open>match_line\<close> is the longest piece of the text around the offset that holds no newline.
\<close>

lemma line_start_spec:
  assumes "e \<le> length str"
  defines "a \<equiv> (case sv_find_last_of newline (take e str) of None \<Rightarrow> 0 | Some p \<Rightarrow> p + 1)"
  shows "a \<le> e" "take a str = [] \<or> last (take a str) = newline" "newline \<notin> set (drop a (take e str))"
proof -
  let ?p = "sv_find_last_of newline (take e str)"
  show "a \<le> e" using assms(1) by (auto simp: a_def dest!: sv_find_last_of_Some(1) split: option.splits)
  show "take a str = [] \<or> last (take a str) = newline"
  proof (cases ?p)
    case (Some p)
    have "p < length (take e str)" "take e str ! p = newline" using sv_find_last_of_Some [OF Some] by auto
    then show ?thesis using Some by (simp add: a_def take_Suc_conv_app_nth)
  qed (simp add: a_def)
  show "newline \<notin> set (drop a (take e str))"
    using sv_find_last_of_None [of newline "take e str"] sv_find_last_of_Some(3) [of newline "take e str"]
    by (cases ?p) (simp_all add: a_def)
qed

lemma line_end_spec:
  assumes "e \<le> length str"
  defines "b \<equiv> (case sv_find newline str e of None \<Rightarrow> length str | Some p \<Rightarrow> p)"
  shows "e \<le> b" "b \<le> length str" "drop b str = [] \<or> hd (drop b str) = newline"
    "newline \<notin> set (take (b - e) (drop e str))"
proof -
  let ?n = "sv_find newline str e"
  show "e \<le> b" "b \<le> length str"
    using assms(1) by (auto simp: b_def dest: sv_find_Some(1,2) split: option.splits)
  show "drop b str = [] \<or> hd (drop b str) = newline"
    using sv_find_Some(2,3) [of newline str e] by (cases ?n) (simp_all add: b_def hd_drop_conv_nth)
  show "newline \<notin> set (take (b - e) (drop e str))"
  proof (cases ?n)
    case None
    then have "newline \<notin> set (drop e str)" using sv_find_None [OF assms(1)] by simp
    then show ?thesis using set_take_subset by fast
  qed (use sv_find_Some(4) in \<open>auto simp: b_def\<close>)
qed

lemma match_line_spec:
  assumes "e \<le> length str"
  shows "\<exists>pre post. str = pre @ match_line str e @ post \<and>
      (pre = [] \<or> last pre = newline) \<and> (post = [] \<or> hd post = newline) \<and>
      newline \<notin> set (match_line str e) \<and> length pre \<le> e \<and> e \<le> length pre + length (match_line str e)"
proof -
  define a where "a = (case sv_find_last_of newline (take e str) of None \<Rightarrow> 0 | Some p \<Rightarrow> p + 1)"
  define b where "b = (case sv_find newline str e of None \<Rightarrow> length str | Some p \<Rightarrow> p)"
  note a = line_start_spec [OF assms, folded a_def] and b = line_end_spec [OF assms, folded b_def]
  have line: "match_line str e = take (b - a) (drop a str)"
    by (simp add: match_line_def sv_substr_def a_def b_def Let_def)
  have "take (b - a) (drop a str) = drop a (take b str)" using a(1) b(1) by (simp add: drop_take)
  also have "take b str = take e str @ take (b - e) (drop e str)" using b(1) by (metis le_add_diff_inverse take_add)
  finally have mid: "take (b - a) (drop a str) = drop a (take e str) @ take (b - e) (drop e str)"
    using a(1) assms by simp
  have "str = take a str @ take (b - a) (drop a str) @ drop b str"
    using a(1) b(1) by (metis append_take_drop_id drop_drop le_add_diff_inverse2 order_trans)
  moreover have "newline \<notin> set (match_line str e)" using a(3) b(4) line mid by simp
  moreover have "length (take a str) = a" "a + length (match_line str e) = b"
    using a(1) b(1,2) assms line by auto
  ultimately show ?thesis using a b line by (intro exI [of _ "take a str"] exI [of _ "drop b str"]) simp
qed

lemma report_ends: "report ms ctx = ctx @ map snd ms"
  by (induction ms ctx rule: report.induct) (auto simp: on_match_def)

lemma match_line_length: "length (match_line str e) \<le> length str"
  by (simp add: match_line_def sv_substr_def Let_def)

context line_sink
begin

lemma vectorscan_loop_emits:
  assumes "good s" "length str \<le> lim"
  shows "\<exists>r s'. vectorscan_loop nxt str es s = Some (r, s') \<and>
      prefix (out s') (view s @ print_lines (map (match_line str) es)) \<and>
      (case r of Inr u \<Rightarrow> good s' \<and> view s' = view s @ print_lines (map (match_line str) es) | Inl e \<Rightarrow> True)"
  using assms(1)
proof (induction es arbitrary: s)
  case Nil
  then show ?case by (simp add: out_view)
next
  case (Cons e es)
  have "length (match_line str e) \<le> lim" using match_line_length [of str e] assms(2) by simp
  with Cons.prems show ?case
  proof (cases rule: emit_line_cases)
    case (fail er s')
    moreover have "prefix (out s') ((view s @ match_line str e @ [newline]) @ print_lines (map (match_line str) es))"
      using fail(2) by (rule prefix_prefix)
    ultimately show ?thesis by simp
  next
    case (okay k s1)
    then show ?thesis using Cons.IH [OF okay(2)] by simp
  qed
qed

end

sublocale line_sink \<subseteq> vs: counting_emitter
  "vectorscan_node hs_scan nxt" good view out
  "\<lambda>d. print_lines (map (match_line d) (map snd (snd (hs_scan d))))" lim
  "\<lambda>d. size_of (snd (hs_scan d))" for hs_scan
proof
  fix s :: 's and d :: bytes
  assume asm: "good s" "length d \<le> lim"
  obtain res ms where scan: "hs_scan d = (res, ms)" by fastforce
  let ?es = "map snd ms"
  obtain r s' where run: "vectorscan_loop nxt d ?es s = Some (r, s')"
      "prefix (out s') (view s @ print_lines (map (match_line d) ?es))"
      "case r of Inr u \<Rightarrow> good s' \<and> view s' = view s @ print_lines (map (match_line d) ?es) | Inl e \<Rightarrow> True"
    using vectorscan_loop_emits [OF asm, of ?es] by blast
  have node: "vectorscan_node hs_scan nxt d s =
      (if res \<noteq> 0 then Some (Inl ''failed to parse input'', s)
       else case r of Inl e \<Rightarrow> Some (Inl e, s') | Inr u \<Rightarrow> Some (Inr (size_of ms), s'))"
    using run(1) scan by (cases r) (auto simp: vectorscan_node_def report_ends size_of_def)
  have "prefix (out s) (view s @ print_lines (map (match_line d) ?es))"
    using out_view [OF asm(1)] by (rule prefix_prefix)
  then show "\<exists>r s'. vectorscan_node hs_scan nxt d s = Some (r, s') \<and>
      prefix (out s') (view s @ print_lines (map (match_line d) (map snd (snd (hs_scan d))))) \<and>
      (case r of Inr k \<Rightarrow> good s' \<and> view s' = view s @ print_lines (map (match_line d) (map snd (snd (hs_scan d))))
       | Inl e \<Rightarrow> True)"
    using run node scan by (cases "res = 0"; cases r) simp_all
  show "k = size_of (snd (hs_scan d))" if "vectorscan_node hs_scan nxt d s = Some (Inr k, s'')" for k s''
    using that node scan by (cases "res = 0"; cases r) auto
qed (rule out_view)

text \<open>The batching transform is such a sink.\<close>

sublocale text_sink \<subseteq> batched: line_sink "batch_node put" "batch_good good" "batch_view out" "batch_out out" "2 ^ 62"
  by unfold_locales simp

section \<open>The std::regex transform returns\<close>

context text_sink
begin

text \<open>One round: the line of the match is handed on, with or without its newline, or the next stage fails.\<close>

lemma simple_regex_step:
  assumes "good s" "length str < 2 ^ 63" "search str = Some (position, len)"
  obtains (fail) e s' where "simple_regex_loop search put found str s = Some (Inl e, s')" "good s'"
    | (okay) b s' where "good s'" "out s' = out s @ print_some [(simple_line str position len, b)]"
      "simple_regex_loop search put found str s =
         (case sv_find newline str (position + len) of
            None \<Rightarrow> Some (Inr (found + 1), s')
          | Some p \<Rightarrow> simple_regex_loop search put (found + 1) (drop (p + 1) str) s')"
proof -
  let ?line = "simple_line str position len"
  have "length ?line \<le> length str"
    unfolding simple_line_def strip_front_def sv_substr_def Let_def
    by (rule order_trans [OF length_dropWhile_le]) simp
  then obtain r s' where put: "put ?line True s = Some (r, s')" "good s'"
    "case r of Inr n \<Rightarrow> n = size_of ?line + (if True then 1 else 0) \<and>
        (out s' = out s @ ?line \<or> True \<and> out s' = out s @ ?line @ [newline])
     | Inl e \<Rightarrow> \<exists>k \<le> length ?line. out s' = out s @ take k ?line"
    using put_law [of s ?line True] assms(1,2) by (meson le_less_trans)
  note loop = simple_regex_loop.simps [of search put found str s]
  show thesis
  proof (cases r)
    case (Inl e)
    then show thesis using that(1) [of e s'] loop put(1,2) assms(3) by simp
  next
    case (Inr k)
    then obtain b where "out s' = out s @ print_some [(?line, b)]"
      using put(3) that [of False] that [of True] by (auto simp: print_some_def)
    then show thesis using that(2) [of s' b] loop put(1,2) assms(3) Inr by simp
  qed
qed

lemma simple_regex_loop_total:
  assumes "good s" "length str < 2 ^ 63"
  shows "\<exists>r s'. simple_regex_loop search put found str s = Some (r, s') \<and> good s' \<and>
    (case r of
       Inr n \<Rightarrow> n = found + size_of (simple_lines search str) \<and>
         (\<exists>ls. map fst ls = simple_lines search str \<and> out s' = out s @ print_some ls)
     | Inl e \<Rightarrow> True)"
  using assms
proof (induction "length str" arbitrary: str found s rule: less_induct)
  case less
  show ?case
  proof (cases "search str")
    case None
    then show ?thesis using less.prems
      by (simp add: simple_regex_loop.simps simple_lines.simps print_some_def)
  next
    case (Some m)
    obtain position len where m: "search str = Some (position, len)" using Some by fastforce
    let ?line = "simple_line str position len"
    from less.prems m show ?thesis
    proof (cases rule: simple_regex_step [where found = found])
      case (fail e s')
      then show ?thesis by simp
    next
      case (okay b s')
      note lines = simple_lines.simps [of search str, unfolded m, simplified]
      show ?thesis
      proof (cases "sv_find newline str (position + len)")
        case None
        then show ?thesis
          using okay lines by (auto simp: size_of_def intro!: exI [of _ "[(?line, b)]"])
      next
        case (Some p)
        have "length (drop (p + 1) str) < length str" using sv_find_Some(2) [OF Some] by simp
        then obtain q s2 where IH: "simple_regex_loop search put (found + 1) (drop (p + 1) str) s' = Some (q, s2)"
          "good s2" "case q of
             Inr n \<Rightarrow> n = found + 1 + size_of (simple_lines search (drop (p + 1) str)) \<and>
               (\<exists>ls. map fst ls = simple_lines search (drop (p + 1) str) \<and> out s2 = out s' @ print_some ls)
           | Inl e \<Rightarrow> True"
          using less.hyps [OF _ okay(1), of "drop (p + 1) str" "found + 1"] less.prems(2) by auto
        have more: "print_some ((?line, b) # ls) = print_some [(?line, b)] @ print_some ls" for ls
          by (simp add: print_some_def)
        show ?thesis
        proof (cases q)
          case (Inr n)
          then obtain ls where "map fst ls = simple_lines search (drop (p + 1) str)" "out s2 = out s' @ print_some ls"
              "n = found + 1 + size_of (simple_lines search (drop (p + 1) str))" using IH(3) by auto
          then show ?thesis
            using IH(1,2) okay(2,3) lines Some Inr more [of ls]
            by (auto simp: size_of_def algebra_simps intro!: exI [of _ "(?line, b) # ls"])
        qed (use IH okay(3) Some in simp)
      qed
    qed
  qed
qed

end

section \<open>One line, whichever offset in it\<close>

lemma sv_find_last_of_append: "c \<notin> set ys \<Longrightarrow> sv_find_last_of c (xs @ ys) = sv_find_last_of c xs"
  by (auto simp: sv_find_last_of_def Let_def takeWhile_append)

lemma sv_find_skip:
  assumes "p \<le> q" "q \<le> length s" "c \<notin> set (take (q - p) (drop p s))"
  shows "sv_find c s p = sv_find c s q"
proof -
  have "drop p s = take (q - p) (drop p s) @ drop q s"
    using assms(1) by (metis append_take_drop_id drop_drop le_add_diff_inverse2)
  moreover have "takeWhile (\<lambda>x. x \<noteq> c) (take (q - p) (drop p s) @ drop q s) =
      take (q - p) (drop p s) @ takeWhile (\<lambda>x. x \<noteq> c) (drop q s)"
    using assms(3) by (intro takeWhile_append2) auto
  ultimately have "length (takeWhile (\<lambda>x. x \<noteq> c) (drop p s)) =
      (q - p) + length (takeWhile (\<lambda>x. x \<noteq> c) (drop q s))"
    using assms(1,2) by simp
  then show ?thesis using assms(1) by (simp add: sv_find_def Let_def)
qed

lemma match_line_same_line:
  assumes "e1 \<le> e2" "e2 \<le> length str" "newline \<notin> set (take (e2 - e1) (drop e1 str))"
  shows "match_line str e1 = match_line str e2"
proof -
  have "take e2 str = take e1 str @ take (e2 - e1) (drop e1 str)"
    using assms(1) by (metis le_add_diff_inverse take_add)
  then have "sv_find_last_of newline (take e2 str) = sv_find_last_of newline (take e1 str)"
    using assms(3) by (simp add: sv_find_last_of_append)
  moreover have "sv_find newline str e1 = sv_find newline str e2"
    using assms by (rule sv_find_skip)
  ultimately show ?thesis by (simp add: match_line_def sv_substr_def Let_def)
qed

section \<open>Properties\<close>

context line_sink
begin

lemma re2_prints:
  assumes "good s" "length d \<le> lim"
  shows "\<exists>r s'. re2_node pm pattern nxt d s = Some (r, s') \<and>
    prefix (out s') (view s @ print_lines (matching_lines (pm (''(?m)'' @ pattern)) d)) \<and>
    (case r of
       Inr k \<Rightarrow> good s' \<and> view s' = view s @ print_lines (matching_lines (pm (''(?m)'' @ pattern)) d) \<and>
         k = size_of (matching_lines (pm (''(?m)'' @ pattern)) d)
     | Inl e \<Rightarrow> True)"
  using re2_loop_emits [OF assms, of "pm (''(?m)'' @ pattern)" 0] by (simp add: re2_node_def re2_pattern_def)

lemma vectorscan_prints:
  assumes "good s" "length d \<le> lim" "hs_scan d = (0, ms)"
  shows "\<exists>r s'. vectorscan_node hs_scan nxt d s = Some (r, s') \<and>
    prefix (out s') (view s @ print_lines (map (match_line d \<circ> snd) ms)) \<and>
    (case r of
       Inr k \<Rightarrow> good s' \<and> view s' = view s @ print_lines (map (match_line d \<circ> snd) ms) \<and> k = size_of ms
     | Inl e \<Rightarrow> True)"
  using vs.emit_law [OF assms(1,2), of hs_scan] vs.count_law [OF assms(1,2), of hs_scan] assms(3)
  by (fastforce simp: comp_def split: sum.splits)

end

text \<open>
  C16. The RE2 transform in front of a stage that passes text on: the call returns, on success
  the lines of the chunk that are not empty and match the multi-line pattern have been passed
  on in order, each followed by a newline, and the count is their number; on an error what
  reached the output is a prefix of that.
\<close>

theorem re2_prints_matching_lines:
  assumes "line_sink nxt good view out lim" "good s" "length d \<le> lim"
  shows "\<exists>r s'. re2_node pm pattern nxt d s = Some (r, s') \<and>
    prefix (out s') (view s @ print_lines (matching_lines (pm (''(?m)'' @ pattern)) d)) \<and>
    (case r of
       Inr k \<Rightarrow> good s' \<and> view s' = view s @ print_lines (matching_lines (pm (''(?m)'' @ pattern)) d) \<and>
         k = size_of (matching_lines (pm (''(?m)'' @ pattern)) d)
     | Inl e \<Rightarrow> True)"
  using assms by (rule line_sink.re2_prints)

theorem re2_prints_matching_lines_witness:
  "\<exists>r s'. re2_node (\<lambda>p l. CHR ''x'' \<in> set l) ''x'' (batch_node (write_node sim_os)) (''ax'' @ [newline] @ ''b'') ([], sim0) =
      Some (r, s') \<and>
    prefix (batch_out sim_out s') (batch_view sim_out ([], sim0) @
      print_lines (matching_lines ((\<lambda>p l. CHR ''x'' \<in> set l) (''(?m)'' @ ''x'')) (''ax'' @ [newline] @ ''b''))) \<and>
    (case r of
       Inr k \<Rightarrow> batch_good (\<lambda>w. True) s' \<and> batch_view sim_out s' = batch_view sim_out ([], sim0) @
           print_lines (matching_lines ((\<lambda>p l. CHR ''x'' \<in> set l) (''(?m)'' @ ''x'')) (''ax'' @ [newline] @ ''b'')) \<and>
         k = size_of (matching_lines ((\<lambda>p l. CHR ''x'' \<in> set l) (''(?m)'' @ ''x'')) (''ax'' @ [newline] @ ''b''))
     | Inl e \<Rightarrow> True)"
  by (rule re2_prints_matching_lines [OF sim_write.wr.batched.line_sink_axioms]) (simp_all add: batch_obs)

text \<open>
  C17. The Vectorscan transform: the call returns; when the scan succeeds and the next stage
  accepts everything, it has passed on, for every reported match and in the order of the
  reports, the line around the end of the match and a newline, and the count is the number
  of matches.
\<close>

theorem vectorscan_prints_line_per_match:
  assumes "line_sink nxt good view out lim" "good s" "length d \<le> lim" "hs_scan d = (0, ms)"
  shows "\<exists>r s'. vectorscan_node hs_scan nxt d s = Some (r, s') \<and>
    prefix (out s') (view s @ print_lines (map (match_line d \<circ> snd) ms)) \<and>
    (case r of
       Inr k \<Rightarrow> good s' \<and> view s' = view s @ print_lines (map (match_line d \<circ> snd) ms) \<and> k = size_of ms
     | Inl e \<Rightarrow> True)"
  using assms by (rule line_sink.vectorscan_prints)

theorem vectorscan_prints_line_per_match_witness:
  "\<exists>r s'. vectorscan_node (\<lambda>d. (0, [(0, 1), (1, 2)])) (batch_node (write_node sim_os)) ''aab'' ([], sim0) = Some (r, s') \<and>
    prefix (batch_out sim_out s') (batch_view sim_out ([], sim0) @ print_lines (map (match_line ''aab'' \<circ> snd) [(0 :: nat, 1), (1, 2)])) \<and>
    (case r of
       Inr k \<Rightarrow> batch_good (\<lambda>w. True) s' \<and> batch_view sim_out s' = batch_view sim_out ([], sim0) @
           print_lines (map (match_line ''aab'' \<circ> snd) [(0 :: nat, 1), (1, 2)]) \<and> k = size_of [(0 :: nat, 1 :: nat), (1, 2)]
     | Inl e \<Rightarrow> True)"
  by (rule vectorscan_prints_line_per_match [OF sim_write.wr.batched.line_sink_axioms]) (simp_all add: batch_obs)

text \<open>
  C18. What is printed for a match that ends at offset \<open>e\<close> is the line that holds the offset:
  the text is \<open>pre\<close>, the line and \<open>post\<close>, the line holds no newline, it is bounded by
  newlines or the ends of the text, and \<open>e\<close> lies in it or at its end. All offsets of one line
  give the same line, so a line with several reported matches is printed once for each.
\<close>

theorem match_line_is_the_line:
  assumes "e \<le> length str"
  shows "(\<exists>pre post. str = pre @ match_line str e @ post \<and>
      (pre = [] \<or> last pre = newline) \<and> (post = [] \<or> hd post = newline) \<and>
      newline \<notin> set (match_line str e) \<and> length pre \<le> e \<and> e \<le> length pre + length (match_line str e)) \<and>
    (\<forall>e1 \<le> e. newline \<notin> set (take (e - e1) (drop e1 str)) \<longrightarrow> match_line str e1 = match_line str e)"
  using match_line_spec [OF assms] match_line_same_line assms by blast

theorem match_line_is_the_line_witness:
  "(\<exists>pre post. ''a'' @ [newline] @ ''bc'' = pre @ match_line (''a'' @ [newline] @ ''bc'') 4 @ post \<and>
      newline \<notin> set (match_line (''a'' @ [newline] @ ''bc'') 4)) \<and>
   match_line (''a'' @ [newline] @ ''bc'') 3 = match_line (''a'' @ [newline] @ ''bc'') 4 \<and>
   match_line (''a'' @ [newline] @ ''bc'') 4 = ''bc''"
  using match_line_is_the_line [of 4 "''a'' @ [newline] @ ''bc''"]
  by (auto simp: match_line_def sv_find_last_of_def sv_find_def sv_substr_def Let_def)



end
