(* ===== verification/Auto_Release.thy ===== *)
theory Auto_Release
  imports Posix
begin

section \<open>Owning handles\<close>

text \<open>
  \<^verbatim>\<open>utils/auto_release.h\<close> (the owning handle \<^verbatim>\<open>AutoRelease<T, D, Invalid>\<close>), \<^verbatim>\<open>utils/fd_closer.h\<close>
  and \<^verbatim>\<open>utils/auto_map.h\<close>. The deleter \<open>d\<close> is a parameter, an effect on a world \<open>'w\<close>;
  \<open>invalid\<close> is the template argument \<^verbatim>\<open>Invalid\<close>. The members are functions on one handle;
  \<open>handle_step\<close> runs them on a store of variables, so that moving and swapping between a
  variable and itself is part of the model.
\<close>

record 'a auto_release =
  obj :: 'a

definition ar_make :: "'a \<Rightarrow> 'a auto_release" where
  "ar_make x = \<lparr>obj = x\<rparr>"

definition ar_default :: "'a \<Rightarrow> 'a auto_release" where
  "ar_default invalid = ar_make invalid"

definition ar_destroy :: "'a \<Rightarrow> ('a \<Rightarrow> 'w \<Rightarrow> 'w) \<Rightarrow> 'a auto_release \<Rightarrow> 'w \<Rightarrow> 'w" where
  "ar_destroy invalid d a w = (if obj a \<noteq> invalid then d (obj a) w else w)"

definition ar_swap :: "'a auto_release \<Rightarrow> 'a auto_release \<Rightarrow> 'a auto_release \<times> 'a auto_release" where
  "ar_swap a b = (a\<lparr>obj := obj b\<rparr>, b\<lparr>obj := obj a\<rparr>)"

text \<open>The move constructor: a new handle and what is left in \<^verbatim>\<open>other\<close>.\<close>

definition ar_move :: "'a \<Rightarrow> 'a auto_release \<Rightarrow> 'a auto_release \<times> 'a auto_release" where
  "ar_move invalid other = ar_swap (ar_default invalid) other"

definition ar_reset :: "'a \<Rightarrow> ('a \<Rightarrow> 'w \<Rightarrow> 'w) \<Rightarrow> 'a auto_release \<Rightarrow> 'a \<Rightarrow> 'w \<Rightarrow> 'a auto_release \<times> 'w" where
  "ar_reset invalid d a x w = (a\<lparr>obj := x\<rparr>, if obj a \<noteq> invalid then d (obj a) w else w)"

definition ar_get :: "'a auto_release \<Rightarrow> 'a" where
  "ar_get a = obj a"

definition ar_bool :: "'a \<Rightarrow> 'a auto_release \<Rightarrow> bool" where
  "ar_bool invalid a = (obj a \<noteq> invalid)"

text \<open>\<^verbatim>\<open>operator&\<close> hands out the address of the object; this is a store through it.\<close>

definition ar_store :: "'a auto_release \<Rightarrow> 'a \<Rightarrow> 'a auto_release" where
  "ar_store a x = a\<lparr>obj := x\<rparr>"

subsection \<open>fd_closer.h and auto_map.h\<close>

definition fd_closer :: "'w os \<Rightarrow> int \<Rightarrow> 'w \<Rightarrow> 'w" where
  "fd_closer os fd w = sys_close os fd w"

definition fd_destroy :: "'w os \<Rightarrow> int auto_release \<Rightarrow> 'w \<Rightarrow> 'w" where
  "fd_destroy os a w = ar_destroy (-1) (fd_closer os) a w"

record auto_map =
  am_map :: ptr
  am_size :: size_t

definition auto_map_destroy :: "'w os \<Rightarrow> auto_map \<Rightarrow> 'w \<Rightarrow> 'w" where
  "auto_map_destroy os m w =
     (if am_map m \<noteq> 0 then sys_munmap os (am_map m) (am_size m) w else w)"

subsection \<open>A store of handle variables\<close>

text \<open>
  A slot of the store is a variable: \<open>None\<close> before construction and after destruction.
  \<open>released\<close> logs the deleter's calls, \<open>acquired\<close> the valid objects handed to a handle, \<open>lost\<close> those
  overwritten through the address a handle gives away.
\<close>

record 'a handles =
  vars :: "'a auto_release option list"
  acquired :: "'a multiset"
  released :: "'a multiset"
  lost :: "'a multiset"

datatype 'a handle_op =
    Construct nat 'a            \<comment> \<open>\<^verbatim>\<open>AutoRelease i{obj}\<close>\<close>
  | Construct_Default nat       \<comment> \<open>\<^verbatim>\<open>AutoRelease i{}\<close>\<close>
  | Construct_Move nat nat      \<comment> \<open>\<^verbatim>\<open>AutoRelease i{std::move(j)}\<close>\<close>
  | Assign_Move nat nat         \<comment> \<open>\<^verbatim>\<open>i = std::move(j)\<close>\<close>
  | Swap nat nat                \<comment> \<open>\<^verbatim>\<open>i.swap(j)\<close>\<close>
  | Reset nat 'a                \<comment> \<open>\<^verbatim>\<open>i.reset(obj)\<close>\<close>
  | Store nat 'a                \<comment> \<open>\<^verbatim>\<open>*(&i) = obj\<close>\<close>
  | Destroy nat

definition valid :: "'a \<Rightarrow> 'a \<Rightarrow> 'a multiset" where
  "valid invalid x = (if x \<noteq> invalid then {#x#} else {#})"

definition release_log :: "'a \<Rightarrow> 'a multiset \<Rightarrow> 'a multiset" where
  "release_log x m = add_mset x m"

definition slot :: "'a handles \<Rightarrow> nat \<Rightarrow> 'a auto_release option" where
  "slot h i = (if i < length (vars h) then vars h ! i else None)"

text \<open>
  One statement; \<open>None\<close> when it names a variable that is not alive (or constructs one that
  is), which no program does.
\<close>

fun handle_step :: "'a \<Rightarrow> 'a handle_op \<Rightarrow> 'a handles \<Rightarrow> 'a handles option" where
  "handle_step invalid (Construct i x) h =
     (if i < length (vars h) \<and> slot h i = None then
        Some (h\<lparr>vars := (vars h)[i := Some (ar_make x)], acquired := acquired h + valid invalid x\<rparr>)
      else None)"
| "handle_step invalid (Construct_Default i) h =
     (if i < length (vars h) \<and> slot h i = None then
        Some (h\<lparr>vars := (vars h)[i := Some (ar_default invalid)]\<rparr>)
      else None)"
| "handle_step invalid (Construct_Move i j) h =
     (case slot h j of
        None \<Rightarrow> None
      | Some b \<Rightarrow>
          if i < length (vars h) \<and> slot h i = None then
            (case ar_move invalid b of
               (a, b') \<Rightarrow> Some (h\<lparr>vars := (vars h)[j := Some b', i := Some a]\<rparr>))
          else None)"
| "handle_step invalid (Assign_Move i j) h =
     (case slot h j of
        None \<Rightarrow> None
      | Some b \<Rightarrow>
          (case ar_move invalid b of
             (new_obj, b') \<Rightarrow>
               (let h1 = h\<lparr>vars := (vars h)[j := Some b']\<rparr> in
                case slot h1 i of
                  None \<Rightarrow> None
                | Some a \<Rightarrow>
                    (case ar_swap a new_obj of
                       (a', new_obj') \<Rightarrow>
                         Some (h1\<lparr>vars := (vars h1)[i := Some a'],
                                  released := ar_destroy invalid release_log new_obj' (released h1)\<rparr>)))))"
| "handle_step invalid (Swap i j) h =
     (case (slot h i, slot h j) of
        (Some a, Some b) \<Rightarrow>
          (case ar_swap a b of
             (a', b') \<Rightarrow> Some (h\<lparr>vars := (vars h)[i := Some a', j := Some b']\<rparr>))
      | _ \<Rightarrow> None)"
| "handle_step invalid (Reset i x) h =
     (case slot h i of
        None \<Rightarrow> None
      | Some a \<Rightarrow>
          (case ar_reset invalid release_log a x (released h) of
             (a', rel) \<Rightarrow>
               Some (h\<lparr>vars := (vars h)[i := Some a'], released := rel,
                       acquired := acquired h + valid invalid x\<rparr>)))"
| "handle_step invalid (Store i x) h =
     (case slot h i of
        None \<Rightarrow> None
      | Some a \<Rightarrow>
          Some (h\<lparr>vars := (vars h)[i := Some (ar_store a x)], acquired := acquired h + valid invalid x,
                  lost := lost h + valid invalid (obj a)\<rparr>))"
| "handle_step invalid (Destroy i) h =
     (case slot h i of
        None \<Rightarrow> None
      | Some a \<Rightarrow>
          Some (h\<lparr>vars := (vars h)[i := None],
                  released := ar_destroy invalid release_log a (released h)\<rparr>))"

fun handle_run :: "'a \<Rightarrow> 'a handle_op list \<Rightarrow> 'a handles \<Rightarrow> 'a handles option" where
  "handle_run invalid [] h = Some h"
| "handle_run invalid (c # cs) h =
     (case handle_step invalid c h of None \<Rightarrow> None | Some h' \<Rightarrow> handle_run invalid cs h')"

definition no_handles :: "nat \<Rightarrow> 'a handles" where
  "no_handles n = \<lparr>vars = replicate n None, acquired = {#}, released = {#}, lost = {#}\<rparr>"

section \<open>Every acquired object is held or released, and only once\<close>

definition slot_held :: "'a \<Rightarrow> 'a auto_release option \<Rightarrow> 'a multiset" where
  "slot_held invalid v = (case v of None \<Rightarrow> {#} | Some a \<Rightarrow> valid invalid (obj a))"

definition held :: "'a \<Rightarrow> 'a auto_release option list \<Rightarrow> 'a multiset" where
  "held invalid vs = (\<Sum>v \<leftarrow> vs. slot_held invalid v)"

lemma sum_list_update_add:
  fixes f :: "'b \<Rightarrow> 'c::comm_monoid_add"
  shows "i < length xs \<Longrightarrow> sum_list (map f (xs[i := v])) + f (xs ! i) = sum_list (map f xs) + f v"
proof (induction xs arbitrary: i)
  case Nil
  then show ?case by simp
next
  case (Cons x xs)
  then show ?case by (cases i) (auto simp: add_ac)
qed

lemma slot_SomeD: "slot h i = Some a \<Longrightarrow> i < length (vars h) \<and> vars h ! i = Some a"
  by (auto simp: slot_def split: if_splits)

lemma slot_NoneD: "slot h i = None \<Longrightarrow> i < length (vars h) \<Longrightarrow> vars h ! i = None"
  by (auto simp: slot_def)

lemma held_update:
  "i < length vs \<Longrightarrow>
    held invalid (vs[i := v]) + slot_held invalid (vs ! i) = held invalid vs + slot_held invalid v"
  using sum_list_update_add [of i vs "slot_held invalid" v] by (simp add: held_def)

lemma held_new: "i < length vs \<Longrightarrow> vs ! i = None \<Longrightarrow>
    held invalid (vs[i := v]) = held invalid vs + slot_held invalid v"
  using held_update [of i vs invalid v] by (simp add: slot_held_def)

lemma held_old: "i < length vs \<Longrightarrow> vs ! i = Some a \<Longrightarrow>
    held invalid (vs[i := v]) + valid invalid (obj a) = held invalid vs + slot_held invalid v"
  using held_update [of i vs invalid v] by (simp add: slot_held_def)

lemma destroy_release_log:
  "ar_destroy invalid release_log a m = m + valid invalid (obj a)"
  by (simp add: ar_destroy_def release_log_def valid_def)

lemma reset_release_log:
  "ar_reset invalid release_log a x m = (\<lparr>obj = x\<rparr>, m + valid invalid (obj a))"
  by (simp add: ar_reset_def release_log_def valid_def)

lemma move_eq: "ar_move invalid b = (\<lparr>obj = obj b\<rparr>, \<lparr>obj = invalid\<rparr>)"
  by (simp add: ar_move_def ar_swap_def ar_default_def ar_make_def)

lemma swap_eq: "ar_swap a b = (\<lparr>obj = obj b\<rparr>, \<lparr>obj = obj a\<rparr>)"
  by (simp add: ar_swap_def)

lemma store_eq: "ar_store a x = \<lparr>obj = x\<rparr>"
  by (simp add: ar_store_def)

lemma slot_held_simps [simp]:
  "slot_held invalid None = {#}" "slot_held invalid (Some a) = valid invalid (obj a)"
  "valid invalid invalid = {#}"
  by (simp_all add: slot_held_def valid_def)

lemmas handle_ops = destroy_release_log reset_release_log move_eq swap_eq ar_make_def ar_default_def

definition balanced :: "'a \<Rightarrow> 'a handles \<Rightarrow> bool" where
  "balanced invalid h \<longleftrightarrow> acquired h = held invalid (vars h) + released h + lost h"

text \<open>What the handles hold when one of them gets another object, and when two of them change theirs.\<close>

lemma held_slot:
  "slot h i = Some a \<Longrightarrow> held invalid ((vars h)[i := v]) + valid invalid (obj a) = held invalid (vars h) + slot_held invalid v"
  using held_old [of i "vars h" a] slot_SomeD [of h i a] by simp

lemma held_construct_move:
  assumes "slot h j = Some b" "i < length (vars h)" "slot h i = None"
  shows "held invalid ((vars h)[j := Some \<lparr>obj = invalid\<rparr>, i := Some \<lparr>obj = obj b\<rparr>]) = held invalid (vars h)"
proof -
  let ?vs = "(vars h)[j := Some \<lparr>obj = invalid\<rparr>]"
  have "i \<noteq> j" using assms by auto
  then have "held invalid (?vs[i := Some \<lparr>obj = obj b\<rparr>]) = held invalid ?vs + valid invalid (obj b)"
    using assms(2) slot_NoneD [OF assms(3,2)] by (simp add: held_new)
  then show ?thesis using held_slot [OF assms(1), of invalid "Some \<lparr>obj = invalid\<rparr>"] by simp
qed

lemma held_assign_move:
  assumes "slot h j = Some b" "slot (h\<lparr>vars := (vars h)[j := Some \<lparr>obj = invalid\<rparr>]\<rparr>) i = Some a"
  shows "held invalid ((vars h)[j := Some \<lparr>obj = invalid\<rparr>, i := Some \<lparr>obj = obj b\<rparr>]) + valid invalid (obj a) =
    held invalid (vars h)"
  using held_slot [OF assms(2), of invalid "Some \<lparr>obj = obj b\<rparr>"] held_slot [OF assms(1), of invalid "Some \<lparr>obj = invalid\<rparr>"]
  by simp

lemma held_swap:
  assumes "slot h i = Some a" "slot h j = Some b"
  shows "held invalid ((vars h)[i := Some \<lparr>obj = obj b\<rparr>, j := Some \<lparr>obj = obj a\<rparr>]) = held invalid (vars h)"
proof -
  let ?vs = "(vars h)[i := Some \<lparr>obj = obj b\<rparr>]"
  have j: "j < length ?vs" "\<exists>c. ?vs ! j = Some c \<and> obj c = obj b"
    using slot_SomeD [OF assms(1)] slot_SomeD [OF assms(2)] by (auto simp: nth_list_update)
  then have "held invalid (?vs[j := Some \<lparr>obj = obj a\<rparr>]) + valid invalid (obj b) = held invalid ?vs + valid invalid (obj a)"
    using held_old [of j ?vs _ invalid "Some \<lparr>obj = obj a\<rparr>"] by fastforce
  then show ?thesis using held_slot [OF assms(1), of invalid "Some \<lparr>obj = obj b\<rparr>"] by simp
qed

lemma handle_step_balanced:
  assumes "handle_step invalid c h = Some h'" "balanced invalid h"
  shows "balanced invalid h'"
proof (cases c)
  case (Construct i x)
  with assms show ?thesis
    by (auto simp: balanced_def handle_ops held_new dest: slot_NoneD split: if_splits)
next
  case (Construct_Default i)
  with assms show ?thesis
    by (auto simp: balanced_def handle_ops held_new dest: slot_NoneD split: if_splits)
next
  case (Construct_Move i j)
  with assms show ?thesis
    by (auto simp: balanced_def handle_ops held_construct_move split: option.splits if_splits)
next
  case (Assign_Move i j)
  with assms obtain b where b: "slot h j = Some b" by (auto split: option.splits)
  with Assign_Move assms show ?thesis
    using held_assign_move [OF b] by (auto simp: balanced_def handle_ops Let_def add_ac split: option.splits)
next
  case (Swap i j)
  with assms show ?thesis by (auto simp: balanced_def handle_ops held_swap split: option.splits)
next
  case (Reset i x)
  with assms show ?thesis
    using held_slot [of h i _ invalid "Some \<lparr>obj = x\<rparr>"] by (auto simp: balanced_def handle_ops add_ac split: option.splits)
next
  case (Store i x)
  with assms show ?thesis
    using held_slot [of h i _ invalid "Some \<lparr>obj = x\<rparr>"] by (auto simp: balanced_def store_eq add_ac split: option.splits)
next
  case (Destroy i)
  with assms show ?thesis
    using held_slot [of h i _ invalid None] by (auto simp: balanced_def handle_ops add_ac split: option.splits)
qed

lemma handle_run_balanced:
  "handle_run invalid cs h = Some h' \<Longrightarrow> balanced invalid h \<Longrightarrow> balanced invalid h'"
  by (induction cs arbitrary: h) (auto split: option.splits dest: handle_step_balanced)

lemma handle_run_lost:
  "handle_run invalid cs h = Some h' \<Longrightarrow> \<forall>i x. Store i x \<notin> set cs \<Longrightarrow> lost h' = lost h"
proof (induction cs arbitrary: h)
  case (Cons c cs)
  then obtain h1 where step: "handle_step invalid c h = Some h1" "handle_run invalid cs h1 = Some h'"
    by (auto split: option.splits)
  have "lost h1 = lost h"
    using step(1) Cons.prems(2) by (cases c) (auto simp: Let_def split: option.splits if_splits prod.splits)
  then show ?case using Cons.IH [OF step(2)] Cons.prems(2) by simp
qed simp

lemma no_handles_balanced: "balanced invalid (no_handles n)"
  by (induction n) (simp_all add: balanced_def no_handles_def held_def)

lemma held_none_alive: "\<forall>v \<in> set vs. v = None \<Longrightarrow> held invalid vs = {#}"
  by (induction vs) (auto simp: held_def)

text \<open>
  C22. Whatever sequence of constructions, moves, move assignments (a handle to itself
  included), swaps, resets, stores through the address of a handle and destructions a program runs, every
  valid object handed to a handle is either still held by exactly one live handle, has been released by the
  deleter, or was overwritten through the address, counted with multiplicity; without such stores nothing is overwritten, and when
  no handle is alive any more, exactly the acquired objects have been released.
\<close>

theorem handles_release_once:
  assumes "handle_run invalid cs (no_handles n) = Some h"
  shows "acquired h = held invalid (vars h) + released h + lost h \<and>
    ((\<forall>i x. Store i x \<notin> set cs) \<longrightarrow>
      lost h = {#} \<and> ((\<forall>v \<in> set (vars h). v = None) \<longrightarrow> released h = acquired h))"
  using handle_run_balanced [OF assms no_handles_balanced] handle_run_lost [OF assms]
  by (auto simp: balanced_def held_none_alive no_handles_def)

theorem handles_release_once_witness:
  "\<exists>h. handle_run (-1) [Construct 0 (3::int), Construct_Default 1, Assign_Move 1 0, Assign_Move 1 1,
          Reset 1 4, Destroy 1, Destroy 0] (no_handles 2) = Some h \<and>
     released h = {#3, 4#} \<and> released h = acquired h"
proof -
  let ?cs = "[Construct 0 (3::int), Construct_Default 1, Assign_Move 1 0, Assign_Move 1 1,
          Reset 1 4, Destroy 1, Destroy 0]"
  have run: "handle_run (-1) ?cs (no_handles 2) =
      Some \<lparr>vars = [None, None], acquired = {#3, 4#}, released = {#3, 4#}, lost = {#}\<rparr>"
    by (simp add: no_handles_def slot_def handle_ops valid_def numeral_2_eq_2 Let_def)
  show ?thesis
    using run handles_release_once [OF run] by auto
qed

end
