(* ===== verification/Sources.thy ===== *)
theory Sources
  imports Sim_Kernel Pipeline Auto_Release
begin

section \<open>Sources\<close>

text \<open>
  The sources of \<^verbatim>\<open>src/source\<close>. \<^verbatim>\<open>copy_file_range.h\<close>, \<^verbatim>\<open>direct_splice.h\<close> and \<^verbatim>\<open>splice.h\<close> move
  bytes inside the kernel, \<^verbatim>\<open>read_file.h\<close> reads chunks and passes them to the next stage,
  \<^verbatim>\<open>mapped_file.h\<close>, \<^verbatim>\<open>mapped_chunk_file.h\<close> and \<^verbatim>\<open>zero_copy_read.h\<close> are the remaining variants.
  The next stage is the parameter \<open>next\<close>; where it has state of its own, that state \<open>'n\<close>
  is threaded beside the world. All loop counters are 64-bit.
\<close>

subsection \<open>copy_file_range.h\<close>

abbreviation max_chunk :: size_t where
  "max_chunk \<equiv> 0x40000000"

partial_function (option) copy_file_range_loop ::
  "'w os \<Rightarrow> int \<Rightarrow> size_t \<Rightarrow> size_t \<Rightarrow> 'w \<Rightarrow> (size_t expected \<times> 'w) option" where
  "copy_file_range_loop os fd sz offset w =
     (if offset \<noteq> sz then
        (let chunk_size = min max_chunk (sz - offset) in
         case sys_copy_file_range os fd STDOUT_FILENO chunk_size w of
           (copied_this_iter, w') \<Rightarrow>
             (if copied_this_iter = -1 then Some (Inl ''failed to copy_file_range'', w')
              else if copied_this_iter = 0 then Some (Inr offset, w')
              else copy_file_range_loop os fd sz (offset + word_of_int copied_this_iter) w'))
      else Some (Inr offset, w))"

definition copy_file_range_node :: "'w os \<Rightarrow> int \<Rightarrow> size_t \<Rightarrow> 'w \<Rightarrow> (size_t expected \<times> 'w) option" where
  "copy_file_range_node os fd sz w = copy_file_range_loop os fd sz 0 w"

subsection \<open>direct_splice.h\<close>

partial_function (option) direct_splice_loop ::
  "'w os \<Rightarrow> int \<Rightarrow> size_t \<Rightarrow> size_t \<Rightarrow> size_t \<Rightarrow> 'w \<Rightarrow> (size_t expected \<times> 'w) option" where
  "direct_splice_loop os fd pipe_size sz offset w =
     (if offset \<noteq> sz then
        (let chunk_size = min pipe_size (sz - offset) in
         case sys_splice os fd STDOUT_FILENO chunk_size w of
           None \<Rightarrow> None
         | Some (sent_this_iter, w') \<Rightarrow>
             (if sent_this_iter = -1 then Some (Inl ''failed to splice data'', w')
              else if sent_this_iter = 0 then Some (Inr offset, w')
              else direct_splice_loop os fd pipe_size sz (offset + word_of_int sent_this_iter) w'))
      else Some (Inr offset, w))"

definition direct_splice_node :: "'w os \<Rightarrow> int \<Rightarrow> size_t \<Rightarrow> 'w \<Rightarrow> (size_t expected \<times> 'w) option" where
  "direct_splice_node os fd sz w =
     (case sys_setpipe_sz os STDOUT_FILENO (1024 * 1024) w of
        (pipe_size, w') \<Rightarrow>
          (if pipe_size < 0 then
             Some (Inl (''failed to get out pipe size: '' @ os_strerror os (os_errno os w')), w')
           else direct_splice_loop os fd (word_of_int pipe_size) sz 0 w'))"

subsection \<open>splice.h\<close>

text \<open>The next stage is told \<^verbatim>\<open>chunk_size\<close>, not the number of bytes that reached the pipe.\<close>

partial_function (option) splice_source_loop ::
  "'w os \<Rightarrow> (int \<Rightarrow> size_t \<Rightarrow> size_t \<Rightarrow> 'w \<Rightarrow> (size_t expected \<times> 'w) option) \<Rightarrow>
   int \<Rightarrow> int \<Rightarrow> int \<Rightarrow> size_t \<Rightarrow> size_t \<Rightarrow> size_t \<Rightarrow> size_t \<Rightarrow> 'w \<Rightarrow> (size_t expected \<times> 'w) option" where
  "splice_source_loop os next fd in_pipe out_pipe pipe_size sz bytes_output offset w =
     (if offset \<noteq> sz then
        (let chunk_size = min pipe_size (sz - offset) in
         case sys_splice os fd in_pipe chunk_size w of
           None \<Rightarrow> None
         | Some (sent_this_iter, w1) \<Rightarrow>
             (if sent_this_iter = -1 then Some (Inl ''failed to splice data in'', w1)
              else if sent_this_iter = 0 then Some (Inr bytes_output, w1)
              else
                (case next out_pipe chunk_size 0 w1 of
                   None \<Rightarrow> None
                 | Some (processed, w2) \<Rightarrow>
                     (case processed of
                        Inl e \<Rightarrow> Some (Inl e, w2)
                      | Inr n \<Rightarrow>
                          splice_source_loop os next fd in_pipe out_pipe pipe_size sz
                            (bytes_output + n) (offset + word_of_int sent_this_iter) w2))))
      else Some (Inr bytes_output, w))"

definition splice_source_node ::
  "'w os \<Rightarrow> (int \<Rightarrow> size_t \<Rightarrow> size_t \<Rightarrow> 'w \<Rightarrow> (size_t expected \<times> 'w) option) \<Rightarrow>
   int \<Rightarrow> size_t \<Rightarrow> 'w \<Rightarrow> (size_t expected \<times> 'w) option" where
  "splice_source_node os next fd sz w =
     (case sys_pipe os w of
        ((rc, pipes0, pipes1), w1) \<Rightarrow>
          (if rc \<noteq> 0 then
             Some (Inl (''failed to create pipes: '' @ os_strerror os (os_errno os w1)), w1)
           else
             (let in_pipe = ar_make pipes1; out_pipe = ar_make pipes0;
                  leave = (\<lambda>w. fd_destroy os in_pipe (fd_destroy os out_pipe w)) in
              case sys_setpipe_sz os (ar_get out_pipe) (1024 * 1024) w1 of
                (pipe_size, w2) \<Rightarrow>
                  (if pipe_size < 0 then
                     Some (Inl (''failed to get out pipe size: '' @ os_strerror os (os_errno os w2)), leave w2)
                   else
                     (case splice_source_loop os next fd (ar_get in_pipe) (ar_get out_pipe)
                             (word_of_int pipe_size) sz 0 0 w2 of
                        None \<Rightarrow> None
                      | Some (r, w3) \<Rightarrow> Some (r, leave w3))))))"

subsection \<open>read_file.h\<close>

text \<open>
  \<^verbatim>\<open>pread\<close> fills the thread-local buffer; the next stage gets the span of the bytes read.
\<close>

abbreviation read_file_max_size :: size_t where
  "read_file_max_size \<equiv> 10 * 1024 * 1024"

partial_function (option) read_file_loop ::
  "'w os \<Rightarrow> (bytes, 'n \<times> 'w) stage \<Rightarrow> int \<Rightarrow> size_t \<Rightarrow> size_t \<Rightarrow> size_t \<Rightarrow> 'n \<Rightarrow> 'w \<Rightarrow>
   (size_t expected \<times> 'n \<times> 'w) option" where
  "read_file_loop os next fd sz bytes_output read_amount n w =
     (case sys_pread os fd read_file_max_size read_amount w of
        ((read_this_iter, buffer), w') \<Rightarrow>
          (if read_this_iter = -1 then
             Some (Inl (''failed to read: ['' @ show_size read_amount @ ''/'' @ show_size sz @ '' bytes]''), n, w')
           else if read_this_iter = 0 then Some (Inr bytes_output, n, w')
           else
             (case next (take (nat read_this_iter) buffer) (n, w') of
                None \<Rightarrow> None
              | Some (processed, n', w'') \<Rightarrow>
                  (case processed of
                     Inl e \<Rightarrow> Some (Inl e, n', w'')
                   | Inr k \<Rightarrow>
                       read_file_loop os next fd sz (bytes_output + k)
                         (read_amount + word_of_int read_this_iter) n' w''))))"

definition read_file_node ::
  "'w os \<Rightarrow> (bytes, 'n \<times> 'w) stage \<Rightarrow> int \<Rightarrow> size_t \<Rightarrow> 'n \<times> 'w \<Rightarrow>
   (size_t expected \<times> 'n \<times> 'w) option" where
  "read_file_node os next fd sz s = read_file_loop os next fd sz 0 0 (fst s) (snd s)"

subsection \<open>mapped_file.h\<close>

text \<open>
  \<^verbatim>\<open>mmap\<close> reports a failure as \<^verbatim>\<open>MAP_FAILED\<close>; the code tests for a null pointer. Reading
  memory that is not mapped is undefined behaviour.
\<close>

definition mapped_file_node ::
  "'w os \<Rightarrow> (bytes, 'w) stage \<Rightarrow> int \<Rightarrow> size_t \<Rightarrow> 'w \<Rightarrow> (size_t expected outcome \<times> 'w) option" where
  "mapped_file_node os next fd sz w =
     (case sys_mmap os sz fd w of
        (map_ptr, w1) \<Rightarrow>
          (if map_ptr = 0 then
             Some (Returned (Inl (''failed to map file: '' @ os_strerror os (os_errno os w1))), w1)
           else
             (let auto_map = \<lparr>am_map = map_ptr, am_size = sz\<rparr> in
              case os_mem os w1 map_ptr sz of
                None \<Rightarrow> Some (Undefined, w1)
              | Some mem \<Rightarrow>
                  (case next mem w1 of
                     None \<Rightarrow> None
                   | Some (r, w2) \<Rightarrow> Some (Returned r, auto_map_destroy os auto_map w2)))))"

subsection \<open>mapped_chunk_file.h\<close>

text \<open>
  \<^verbatim>\<open>views::chunk\<close> cuts the mapping into pieces of \<^verbatim>\<open>chunk_size\<close> bytes. The page-touching loop
  only reads the mapping into a dummy, which the check of \<open>os_mem\<close> covers.
\<close>

function chunks_of :: "nat \<Rightarrow> bytes \<Rightarrow> bytes list" where
  "chunks_of n bs = (if bs = [] \<or> n = 0 then [] else take n bs # chunks_of n (drop n bs))"
  by pat_completeness auto
termination
  by (relation "measure (\<lambda>(n, bs). length bs)") auto

declare chunks_of.simps [simp del]

definition mapped_chunk_file_node ::
  "'w os \<Rightarrow> (bytes, 'w) stage \<Rightarrow> int \<Rightarrow> size_t \<Rightarrow> 'w \<Rightarrow> (size_t expected outcome \<times> 'w) option" where
  "mapped_chunk_file_node os next fd sz w =
     (case sys_mmap os sz fd w of
        (map_ptr, w1) \<Rightarrow>
          (if map_ptr = MAP_FAILED then
             Some (Returned (Inl (''failed to map file: '' @ os_strerror os (os_errno os w1))), w1)
           else
             (let auto_map = \<lparr>am_map = map_ptr, am_size = sz\<rparr> in
              case os_mem os w1 map_ptr sz of
                None \<Rightarrow> Some (Undefined, w1)
              | Some mem \<Rightarrow>
                  (case feed next (chunks_of (10 * 1024 * 1024) mem) 0 w1 of
                     None \<Rightarrow> None
                   | Some (r, w2) \<Rightarrow> Some (Returned r, auto_map_destroy os auto_map w2)))))"

subsection \<open>zero_copy_read.h\<close>

partial_function (option) zero_copy_read_loop ::
  "(int \<Rightarrow> size_t \<Rightarrow> size_t \<Rightarrow> 'w \<Rightarrow> (size_t expected \<times> 'w) option) \<Rightarrow>
   int \<Rightarrow> size_t \<Rightarrow> size_t \<Rightarrow> size_t \<Rightarrow> 'w \<Rightarrow> (size_t expected \<times> 'w) option" where
  "zero_copy_read_loop next fd sz bytes_output offset w =
     (if offset \<noteq> sz then
        (let read_this_iter = min (10 * 1024 * 1024) (sz - offset) in
         case next fd read_this_iter offset w of
           None \<Rightarrow> None
         | Some (processed, w') \<Rightarrow>
             (case processed of
                Inl e \<Rightarrow> Some (Inl e, w')
              | Inr n \<Rightarrow>
                  zero_copy_read_loop next fd sz (bytes_output + n) (offset + read_this_iter) w'))
      else Some (Inr bytes_output, w))"

definition zero_copy_read_node ::
  "(int \<Rightarrow> size_t \<Rightarrow> size_t \<Rightarrow> 'w \<Rightarrow> (size_t expected \<times> 'w) option) \<Rightarrow>
   int \<Rightarrow> size_t \<Rightarrow> 'w \<Rightarrow> (size_t expected \<times> 'w) option" where
  "zero_copy_read_node next fd sz w = zero_copy_read_loop next fd sz 0 0 w"

section \<open>Loops that move bytes at the file position\<close>

text \<open>
  \<^verbatim>\<open>copy_file_range.h\<close> and \<^verbatim>\<open>direct_splice.h\<close> run the same loop over different calls. The locale
  takes the loop by its unfolding equation and proves once that it returns, and how much
  has been moved.
\<close>

locale transfer_loop = transfer xfer rest dst good
  for xfer :: "size_t \<Rightarrow> 'w \<Rightarrow> (int \<times> 'w) option"
    and rest :: "'w \<Rightarrow> bytes" and dst :: "'w \<Rightarrow> bytes" and good :: "'w \<Rightarrow> bool" +
  fixes limit :: size_t and err :: string
    and loop :: "size_t \<Rightarrow> size_t \<Rightarrow> 'w \<Rightarrow> (size_t expected \<times> 'w) option"
  assumes limit_pos: "0 < limit"
    and loop_eq: "loop sz off w =
      (if off \<noteq> sz then
         (case xfer (min limit (sz - off)) w of
            None \<Rightarrow> None
          | Some (r, w') \<Rightarrow>
              (if r = -1 then Some (Inl err, w')
               else if r = 0 then Some (Inr off, w')
               else loop sz (off + word_of_int r) w'))
       else Some (Inr off, w))"
begin

text \<open>One iteration: it ends the loop, or moves \<open>k\<close> bytes and goes on behind them.\<close>

lemma loop_step:
  assumes "good w" "off \<le> sz" "off \<noteq> sz"
  obtains (err) w1 where "loop sz off w = Some (Inl err, w1)" "good w1" "dst w1 = dst w" "rest w1 = rest w"
    | (at_end) w1 where "loop sz off w = Some (Inr off, w1)" "good w1" "dst w1 = dst w" "rest w = []" "rest w1 = []"
    | (moved) k w1 where "loop sz off w = loop sz (off + word_of_nat k) w1" "good w1" "0 < k"
      "k \<le> unat sz - unat off" "k \<le> length (rest w)" "unat (off + word_of_nat k) = unat off + k"
      "dst w1 = dst w @ take k (rest w)" "rest w1 = drop k (rest w)"
proof -
  let ?c = "min limit (sz - off)"
  have c: "unat ?c \<le> unat sz - unat off" using assms(2) by (simp add: size_simps)
  have c0: "?c \<noteq> 0" using limit_pos assms(3) by (auto simp: min_def)
  obtain r w1 where call: "xfer ?c w = Some (r, w1)" and g: "good w1"
    and law: "r = -1 \<and> dst w1 = dst w \<and> rest w1 = rest w \<or>
       0 \<le> r \<and> nat r \<le> unat ?c \<and> nat r \<le> length (rest w) \<and>
       dst w1 = dst w @ take (nat r) (rest w) \<and> rest w1 = drop (nat r) (rest w) \<and>
       (r = 0 \<longrightarrow> ?c = 0 \<or> rest w = [])"
    using xfer_law [OF assms(1), of ?c] by blast
  have unfold: "loop sz off w =
      (if r = -1 then Some (Inl err, w1) else if r = 0 then Some (Inr off, w1)
       else loop sz (off + word_of_int r) w1)"
    using assms(3) call by (subst loop_eq) simp
  consider "r = -1" | "r = 0" | "0 < r" using law by linarith
  then show thesis
  proof cases
    case 1
    then show thesis using that(1) [of w1] unfold law g by auto
  next
    case 2
    then show thesis using that(2) [of w1] unfold law g c0 by auto
  next
    case 3
    then have "nat r \<le> unat sz - unat off" "word_of_int r = (word_of_nat (nat r) :: size_t)" using law c by auto
    moreover from this(1) have "unat (off + word_of_nat (nat r)) = unat off + nat r"
      using unat_size_bound [of sz] assms(2) by (simp add: size_simps word_le_nat_alt)
    ultimately show thesis using that(3) [of "nat r" w1] 3 unfold law g by auto
  qed
qed

lemma loop_total:
  assumes "good w" "off \<le> sz"
  shows "\<exists>r w' k. loop sz off w = Some (r, w') \<and> good w' \<and>
      k \<le> min (unat sz - unat off) (length (rest w)) \<and>
      dst w' = dst w @ take k (rest w) \<and> rest w' = drop k (rest w) \<and>
      (case r of
         Inr n \<Rightarrow> n = off + word_of_nat k \<and> k = min (unat sz - unat off) (length (rest w))
       | Inl e \<Rightarrow> e = err)"
  using assms
proof (induction "unat sz - unat off" arbitrary: off w rule: less_induct)
  case less
  show ?case
  proof (cases "off = sz")
    case True
    then show ?thesis using less.prems by (subst loop_eq) auto
  next
    case False
    from less.prems False show ?thesis
    proof (cases rule: loop_step)
      case (moved k w1)
      let ?off = "off + word_of_nat k"
      have "unat sz - unat ?off < unat sz - unat off" "?off \<le> sz" using moved(3,4,6) by (auto simp: word_le_nat_alt)
      then obtain r w' j where IH: "loop sz ?off w1 = Some (r, w')" "good w'"
        "j \<le> min (unat sz - unat ?off) (length (rest w1))"
        "dst w' = dst w1 @ take j (rest w1)" "rest w' = drop j (rest w1)"
        "case r of
           Inr n \<Rightarrow> n = ?off + word_of_nat j \<and> j = min (unat sz - unat ?off) (length (rest w1))
         | Inl e \<Rightarrow> e = err"
        using less.hyps [OF _ moved(2), of ?off] by blast
      have min_k: "min (unat sz - unat off) (length (rest w)) = k + min (unat sz - unat ?off) (length (rest w1))"
        unfolding moved(6,8) length_drop using moved(4,5) by arith
      have "dst w' = dst w @ take (k + j) (rest w)" "rest w' = drop (k + j) (rest w)"
        using IH(4,5) moved(7,8) by (simp_all add: take_add add.commute [of j k])
      then show ?thesis
        unfolding min_k using moved(1) IH(1-3,6)
        by (intro exI [of _ r] exI [of _ w'] exI [of _ "k + j"]) (cases r; simp add: add.assoc)
    qed (auto intro: exI [of _ 0])
  qed
qed

lemma loop_from_start:
  assumes "good w"
  shows "\<exists>r w' k. loop sz 0 w = Some (r, w') \<and> good w' \<and>
      k \<le> min (unat sz) (length (rest w)) \<and>
      dst w' = dst w @ take k (rest w) \<and> rest w' = drop k (rest w) \<and>
      (case r of Inr n \<Rightarrow> n = word_of_nat k \<and> k = min (unat sz) (length (rest w)) | Inl e \<Rightarrow> e = err)"
  using loop_total [OF assms, of 0 sz] by (simp cong: sum.case_cong)

end

text \<open>The contract of \<^verbatim>\<open>copy_file_range\<close> from \<open>fd\<close> to standard output.\<close>

locale copy_range_kernel =
  transfer "\<lambda>cnt w. Some (sys_copy_file_range os fd STDOUT_FILENO cnt w)" rest out good
  for os :: "'w os" and fd :: int and rest :: "'w \<Rightarrow> bytes" and out :: "'w \<Rightarrow> bytes"
    and good :: "'w \<Rightarrow> bool"

sublocale copy_range_kernel \<subseteq> cfr: transfer_loop
  "\<lambda>cnt w. Some (sys_copy_file_range os fd STDOUT_FILENO cnt w)" rest out good
  max_chunk "''failed to copy_file_range''" "copy_file_range_loop os fd"
proof
  show "(0 :: size_t) < max_chunk" by simp
  show "copy_file_range_loop os fd sz off w =
      (if off \<noteq> sz then
         (case Some (sys_copy_file_range os fd STDOUT_FILENO (min max_chunk (sz - off)) w) of
            None \<Rightarrow> None
          | Some (r, w') \<Rightarrow>
              (if r = -1 then Some (Inl ''failed to copy_file_range'', w')
               else if r = 0 then Some (Inr off, w')
               else copy_file_range_loop os fd sz (off + word_of_int r) w'))
       else Some (Inr off, w))" for sz off w
    by (subst copy_file_range_loop.simps) (simp add: Let_def)
qed

text \<open>
  The contract of \<^verbatim>\<open>splice\<close> from \<open>fd\<close> into the pipe on standard output: \<^verbatim>\<open>F_SETPIPE_SZ\<close> fails
  or answers the size of the pipe, and moves no data.
\<close>

locale direct_splice_kernel =
  transfer "sys_splice os fd STDOUT_FILENO" rest out good
  for os :: "'w os" and fd :: int and rest :: "'w \<Rightarrow> bytes" and out :: "'w \<Rightarrow> bytes"
    and good :: "'w \<Rightarrow> bool" +
  fixes pipe_size :: int
  assumes pipe_size_range: "0 < pipe_size" "pipe_size < 2 ^ 31"
    and setpipe_law: "good w \<Longrightarrow> sys_setpipe_sz os STDOUT_FILENO (1024 * 1024) w = (p, w') \<Longrightarrow>
      good w' \<and> rest w' = rest w \<and> out w' = out w \<and> (p < 0 \<or> p = pipe_size)"

sublocale direct_splice_kernel \<subseteq> ds: transfer_loop
  "sys_splice os fd STDOUT_FILENO" rest out good
  "word_of_int pipe_size" "''failed to splice data''" "direct_splice_loop os fd (word_of_int pipe_size)"
proof
  have "(word_of_int pipe_size :: size_t) \<noteq> 0"
    using pipe_size_range by (simp add: word_of_int_eq_0_iff zdvd_not_zless)
  then show "(0 :: size_t) < word_of_int pipe_size"
    by (simp add: word_gt_0)
  show "direct_splice_loop os fd (word_of_int pipe_size) sz off w =
      (if off \<noteq> sz then
         (case sys_splice os fd STDOUT_FILENO (min (word_of_int pipe_size) (sz - off)) w of
            None \<Rightarrow> None
          | Some (r, w') \<Rightarrow>
              (if r = -1 then Some (Inl ''failed to splice data'', w')
               else if r = 0 then Some (Inr off, w')
               else direct_splice_loop os fd (word_of_int pipe_size) sz (off + word_of_int r) w'))
       else Some (Inr off, w))" for sz off w
    by (subst direct_splice_loop.simps) (simp add: Let_def)
qed

section \<open>Reading a file in chunks\<close>

text \<open>
  The interface between \<^verbatim>\<open>ReadFileNode\<close>, the kernel's \<^verbatim>\<open>pread\<close> and the next stage: the next
  stage emits, and a read does not change what has been emitted.
\<close>

locale read_pipeline = emitter nxt good view out g lim
  for nxt :: "(bytes, 'n \<times> 'w) stage" and good :: "'n \<times> 'w \<Rightarrow> bool"
    and view :: "'n \<times> 'w \<Rightarrow> bytes" and out :: "'n \<times> 'w \<Rightarrow> bytes" and g :: "bytes \<Rightarrow> bytes" and lim :: nat +
  fixes os :: "'w os" and fd :: int and data :: bytes
  assumes source: "pread_source os fd data (\<lambda>w. good (n, w))"
    and pread_view: "good (n, w) \<Longrightarrow> sys_pread os fd cnt off w = (x, w') \<Longrightarrow>
      view (n, w') = view (n, w) \<and> out (n, w') = out (n, w)"
    and lim_chunk: "unat read_file_max_size \<le> lim"
begin

text \<open>The three things one iteration can do.\<close>

lemma read_step:
  assumes "good (n, w)" "unat off \<le> length data"
  obtains (err) e w1 where "read_file_loop os nxt fd sz acc off n w = Some (Inl e, n, w1)"
      "out (n, w1) = out (n, w)"
    | (eof) w1 where "read_file_loop os nxt fd sz acc off n w = Some (Inr acc, n, w1)"
      "good (n, w1)" "view (n, w1) = view (n, w)" "drop (unat off) data = []"
    | (chunk) bs w1 where "bs \<noteq> []" "length bs \<le> unat read_file_max_size" "good (n, w1)"
      "view (n, w1) = view (n, w)" "bs @ drop (unat (off + size_of bs)) data = drop (unat off) data"
      "unat (off + size_of bs) = unat off + length bs" "unat off + length bs \<le> length data"
      "read_file_loop os nxt fd sz acc off n w =
         (case nxt bs (n, w1) of
            None \<Rightarrow> None
          | Some (Inl e, n', w') \<Rightarrow> Some (Inl e, n', w')
          | Some (Inr k, n', w') \<Rightarrow> read_file_loop os nxt fd sz (acc + k) (off + size_of bs) n' w')"
proof -
  obtain r bs w1 where call: "sys_pread os fd read_file_max_size off w = ((r, bs), w1)"
    by (metis prod.exhaust)
  have law: "good (n, w1) \<and> (r = -1 \<or>
        (r = int (length bs) \<and> length bs \<le> unat read_file_max_size \<and>
         bs = take (length bs) (drop (unat off) data) \<and>
         (bs = [] \<longrightarrow> read_file_max_size = 0 \<or> length data \<le> unat off)))"
    using pread_source.pread_law [OF source assms(1) call] .
  have bound: "length data < 2 ^ 63"
    using source [of n] by (rule pread_source.data_bound)
  have view1: "view (n, w1) = view (n, w)" "out (n, w1) = out (n, w)"
    using pread_view [OF assms(1) call] by auto
  consider "r = -1" | "r = int (length bs)" "bs = []" | "r = int (length bs)" "bs \<noteq> []"
    using law by blast
  then show thesis
  proof cases
    case 1
    then show thesis using err call view1 by (subst (asm) read_file_loop.simps) simp
  next
    case 2
    then show thesis using eof law call view1 by (subst (asm) read_file_loop.simps) simp
  next
    case 3
    then have bs: "bs = take (length bs) (drop (unat off) data)" "length bs \<le> unat read_file_max_size"
      using law by auto
    have len: "unat off + length bs \<le> length data"
      using arg_cong [OF bs(1), of length] assms(2) by simp
    have off: "unat (off + size_of bs) = unat off + length bs"
      unfolding size_of_def using len bound by (simp add: size_simps)
    have "bs @ drop (unat (off + size_of bs)) data = drop (unat off) data"
      using off bs(1) by (metis append_take_drop_id drop_drop add.commute)
    moreover have "read_file_loop os nxt fd sz acc off n w =
         (case nxt bs (n, w1) of
            None \<Rightarrow> None
          | Some (Inl e, n', w') \<Rightarrow> Some (Inl e, n', w')
          | Some (Inr k, n', w') \<Rightarrow> read_file_loop os nxt fd sz (acc + k) (off + size_of bs) n' w')"
      using call 3 by (subst read_file_loop.simps)
        (auto simp: size_of_def split: option.splits prod.splits sum.splits)
    ultimately show thesis using chunk 3 bs(2) law view1 off len by blast
  qed
qed

lemma read_file_loop_emits:
  assumes "good (n, w)" "unat off \<le> length data"
  shows "\<exists>r n' w' cs. read_file_loop os nxt fd sz acc off n w = Some (r, n', w') \<and>
      (\<forall>c \<in> set cs. c \<noteq> [] \<and> length c \<le> unat read_file_max_size) \<and>
      prefix (concat cs) (drop (unat off) data) \<and>
      prefix (out (n', w')) (view (n, w) @ concat (map g cs)) \<and>
      (case r of
         Inr m \<Rightarrow> concat cs = drop (unat off) data \<and> good (n', w') \<and>
           view (n', w') = view (n, w) @ concat (map g cs)
       | Inl e \<Rightarrow> True)"
  using assms
proof (induction "length data - unat off" arbitrary: acc off n w rule: less_induct)
  case less
  from less.prems show ?case
  proof (cases rule: read_step [where sz = sz and acc = acc])
    case (err e w1)
    then show ?thesis
      using out_view [OF less.prems(1)]
      by (intro exI [of _ "Inl e"] exI [of _ n] exI [of _ w1] exI [of _ "[]"]) simp
  next
    case (eof w1)
    then show ?thesis
      using out_view [OF eof(2)]
      by (intro exI [of _ "Inr acc"] exI [of _ n] exI [of _ w1] exI [of _ "[]"]) simp
  next
    case (chunk bs w1)
    have "length bs \<le> lim" using chunk(2) lim_chunk by simp
    with chunk(3) show ?thesis
    proof (cases rule: emit_cases)
      case (fail e s')
      then show ?thesis
        using chunk
        by (intro exI [of _ "Inl e"] exI [of _ "fst s'"] exI [of _ "snd s'"] exI [of _ "[bs]"])
          (auto simp flip: chunk(5))
    next
      case (okay k s')
      obtain n2 w2 where s': "s' = (n2, w2)" by fastforce
      have "length data - unat (off + size_of bs) < length data - unat off"
        using chunk(1,6,7) by (cases bs) auto
      then obtain r n' w' cs where IH:
        "read_file_loop os nxt fd sz (acc + k) (off + size_of bs) n2 w2 = Some (r, n', w')"
        "\<forall>c \<in> set cs. c \<noteq> [] \<and> length c \<le> unat read_file_max_size"
        "prefix (concat cs) (drop (unat (off + size_of bs)) data)"
        "prefix (out (n', w')) (view (n2, w2) @ concat (map g cs))"
        "case r of
           Inr m \<Rightarrow> concat cs = drop (unat (off + size_of bs)) data \<and> good (n', w') \<and>
             view (n', w') = view (n2, w2) @ concat (map g cs)
         | Inl e \<Rightarrow> True"
        using less.hyps [of "off + size_of bs" n2 w2 "acc + k"] okay(2) chunk(6,7) s' by auto
      show ?thesis
        using IH chunk(1,2,8) okay s'
        by (intro exI [of _ r] exI [of _ n'] exI [of _ w'] exI [of _ "bs # cs"])
          (auto simp: chunk(4) simp flip: chunk(5) split: sum.splits)
    qed
  qed
qed

lemma read_file_emits:
  assumes "good (n, w)"
  shows "\<exists>r n' w' cs. read_file_node os nxt fd sz (n, w) = Some (r, n', w') \<and>
      (\<forall>c \<in> set cs. c \<noteq> [] \<and> length c \<le> unat read_file_max_size) \<and>
      prefix (concat cs) data \<and> prefix (out (n', w')) (view (n, w) @ concat (map g cs)) \<and>
      (case r of
         Inr m \<Rightarrow> concat cs = data \<and> good (n', w') \<and> view (n', w') = view (n, w) @ concat (map g cs)
       | Inl e \<Rightarrow> True)"
  using read_file_loop_emits [OF assms, of 0 sz 0] by (simp add: read_file_node_def cong: sum.case_cong)

end

section \<open>The simulated kernel meets the contracts\<close>

interpretation sim_copy: copy_range_kernel sim_os fd "sim_rest fd" sim_out "\<lambda>w. True"
  for fd
proof
  fix w :: sim and cnt
  obtain r w' where call: "sim_move_out fd cnt w = (r, w')" by fastforce
  from sim_transfer_law [OF call] call
  show "\<exists>r w'. Some (sys_copy_file_range sim_os fd STDOUT_FILENO cnt w) = Some (r, w') \<and> True \<and>
        (r = -1 \<and> sim_out w' = sim_out w \<and> sim_rest fd w' = sim_rest fd w \<or>
         0 \<le> r \<and> nat r \<le> unat cnt \<and> nat r \<le> length (sim_rest fd w) \<and>
         sim_out w' = sim_out w @ take (nat r) (sim_rest fd w) \<and>
         sim_rest fd w' = drop (nat r) (sim_rest fd w) \<and>
         (r = 0 \<longrightarrow> cnt = 0 \<or> sim_rest fd w = []))"
    by auto
qed

interpretation sim_direct: direct_splice_kernel sim_os 3 "sim_rest 3" sim_out
  "\<lambda>w. sim_cap w = 1048576" 1048576
proof
  fix w :: sim and cnt
  assume cap: "sim_cap w = 1048576"
  obtain r w' where call: "sim_move_out 3 cnt w = (r, w')" by fastforce
  have "sim_cap w' = 1048576" using sim_move_law [OF call] cap by auto
  with sim_transfer_law [OF call] call
  show "\<exists>r w'. sys_splice sim_os 3 STDOUT_FILENO cnt w = Some (r, w') \<and> sim_cap w' = 1048576 \<and>
        (r = -1 \<and> sim_out w' = sim_out w \<and> sim_rest 3 w' = sim_rest 3 w \<or>
         0 \<le> r \<and> nat r \<le> unat cnt \<and> nat r \<le> length (sim_rest 3 w) \<and>
         sim_out w' = sim_out w @ take (nat r) (sim_rest 3 w) \<and>
         sim_rest 3 w' = drop (nat r) (sim_rest 3 w) \<and>
         (r = 0 \<longrightarrow> cnt = 0 \<or> sim_rest 3 w = []))"
    by (auto simp: sim_do_splice_def)
qed auto

section \<open>Properties\<close>

context copy_range_kernel
begin

lemma copy_node_total:
  assumes "good w"
  shows "\<exists>r w' k. copy_file_range_node os fd sz w = Some (r, w') \<and> good w' \<and>
      k \<le> min (unat sz) (length (rest w)) \<and>
      out w' = out w @ take k (rest w) \<and> rest w' = drop k (rest w) \<and>
      (case r of
         Inr n \<Rightarrow> n = word_of_nat k \<and> k = min (unat sz) (length (rest w))
       | Inl e \<Rightarrow> e = ''failed to copy_file_range'')"
  unfolding copy_file_range_node_def using assms by (rule cfr.loop_from_start)

end

context direct_splice_kernel
begin

lemma direct_node_total:
  assumes "good w"
  shows "\<exists>r w' k. direct_splice_node os fd sz w = Some (r, w') \<and> good w' \<and>
      k \<le> min (unat sz) (length (rest w)) \<and>
      out w' = out w @ take k (rest w) \<and> rest w' = drop k (rest w) \<and>
      (case r of Inr n \<Rightarrow> n = word_of_nat k \<and> k = min (unat sz) (length (rest w)) | Inl e \<Rightarrow> True)"
proof -
  obtain p w1 where call: "sys_setpipe_sz os STDOUT_FILENO (1024 * 1024) w = (p, w1)" by fastforce
  note w1 = setpipe_law [OF assms call]
  show ?thesis
  proof (cases "p < 0")
    case True
    then show ?thesis using call w1
      by (intro exI [of _ "Inl _"] exI [of _ w1] exI [of _ 0]) (simp add: direct_splice_node_def)
  next
    case False
    then have node: "direct_splice_node os fd sz w = direct_splice_loop os fd (word_of_int pipe_size) sz 0 w1"
      using call w1 by (simp add: direct_splice_node_def)
    have "good w1" using w1 by simp
    from ds.loop_from_start [OF this, of sz] obtain r w' k where
      "direct_splice_loop os fd (word_of_int pipe_size) sz 0 w1 = Some (r, w')" "good w'"
      "k \<le> min (unat sz) (length (rest w1))" "out w' = out w1 @ take k (rest w1)" "rest w' = drop k (rest w1)"
      "case r of Inr n \<Rightarrow> n = word_of_nat k \<and> k = min (unat sz) (length (rest w1)) | Inl e \<Rightarrow> e = ''failed to splice data''"
      by blast
    with node w1 show ?thesis by (cases r) auto
  qed
qed

end

text \<open>
  Copying to a regular file, under the contract of \<^verbatim>\<open>copy_file_range\<close>, with short copies
  and errors: the node returns. On success the bytes moved are the file from its position, up
  to the size asked for or the end of the file, and their number is the result; on an error
  a prefix of that has been moved.
\<close>

theorem copy_file_range_copies:
  assumes "copy_range_kernel os fd rest out good" "good w"
  shows "\<exists>r w' k. copy_file_range_node os fd sz w = Some (r, w') \<and> good w' \<and>
      k \<le> min (unat sz) (length (rest w)) \<and>
      out w' = out w @ take k (rest w) \<and> rest w' = drop k (rest w) \<and>
      (case r of
         Inr n \<Rightarrow> n = word_of_nat k \<and> k = min (unat sz) (length (rest w))
       | Inl e \<Rightarrow> e = ''failed to copy_file_range'')"
  using assms by (rule copy_range_kernel.copy_node_total)

theorem copy_file_range_copies_witness:
  "copy_range_kernel sim_os 3 (sim_rest 3) sim_out (\<lambda>w. True) \<and>
   (\<exists>r w' k. copy_file_range_node sim_os 3 9 (sim_hello [2, 1]) = Some (r, w') \<and>
      k \<le> length ''hello'' \<and> sim_out w' = take k ''hello'' \<and>
      (case r of Inr n \<Rightarrow> n = word_of_nat k \<and> k = length ''hello'' | Inl e \<Rightarrow> e = ''failed to copy_file_range''))"
  using copy_file_range_copies [OF sim_copy.copy_range_kernel_axioms [of 3], where w = "sim_hello [2, 1]" and sz = 9]
    sim_copy.copy_range_kernel_axioms [of 3]
  by (auto simp: sim_hello_def sim0_def sim_rest_def cong: sum.case_cong)

text \<open>
  Splicing a file straight into the pipe on standard output, under the contract of
  \<^verbatim>\<open>splice\<close>: the node returns, and on success the bytes moved are the file from its
  position up to the size asked for or its end, their number the result; a failure leaves
  a prefix moved.
\<close>

theorem direct_splice_copies:
  assumes "direct_splice_kernel os fd rest out good pipe_size" "good w"
  shows "\<exists>r w' k. direct_splice_node os fd sz w = Some (r, w') \<and> good w' \<and>
      k \<le> min (unat sz) (length (rest w)) \<and>
      out w' = out w @ take k (rest w) \<and> rest w' = drop k (rest w) \<and>
      (case r of Inr n \<Rightarrow> n = word_of_nat k \<and> k = min (unat sz) (length (rest w)) | Inl e \<Rightarrow> True)"
  using assms by (rule direct_splice_kernel.direct_node_total)

theorem direct_splice_copies_witness:
  "direct_splice_kernel sim_os 3 (sim_rest 3) sim_out (\<lambda>w. sim_cap w = 1048576) 1048576 \<and>
   (\<exists>r w' k. direct_splice_node sim_os 3 4 (sim_hello [3, 1]) = Some (r, w') \<and>
      k \<le> length ''hell'' \<and> sim_out w' = take k ''hello'' \<and>
      (case r of Inr n \<Rightarrow> n = word_of_nat k \<and> k = length ''hell'' | Inl e \<Rightarrow> True))"
  using direct_splice_copies [OF sim_direct.direct_splice_kernel_axioms, where w = "sim_hello [3, 1]" and sz = 4]
    sim_direct.direct_splice_kernel_axioms
  by (auto simp: sim_hello_def sim0_def sim_rest_def cong: sum.case_cong)

text \<open>
  A failed \<^verbatim>\<open>mmap\<close> answers \<^verbatim>\<open>MAP_FAILED\<close>. The chunked variant reports it; the plain mapped
  file compares with a null pointer instead, goes on, and hands the next stage memory that is
  not mapped.
\<close>

theorem mmap_failure_is_missed:
  assumes "sys_mmap os sz fd w = (MAP_FAILED, w1)" "os_mem os w1 MAP_FAILED sz = None"
  shows "mapped_file_node os nxt fd sz w = Some (Undefined, w1) \<and>
    mapped_chunk_file_node os nxt fd sz w =
      Some (Returned (Inl (''failed to map file: '' @ os_strerror os (os_errno os w1))), w1)"
  using assms by (simp add: mapped_file_node_def mapped_chunk_file_node_def)

theorem mmap_failure_is_missed_witness:
  "mapped_file_node sim_os (\<lambda>d s. Some (Inr 0, s)) 3 5 (sim_hello [-1]) = Some (Undefined, sim_hello []) \<and>
   mapped_chunk_file_node sim_os (\<lambda>d s. Some (Inr 0, s)) 3 5 (sim_hello [-1]) =
      Some (Returned (Inl ''failed to map file: Input/output error''), sim_hello [])"
  using mmap_failure_is_missed [where os = sim_os and sz = 5 and fd = 3 and w = "sim_hello [-1]"
      and ?w1.0 = "sim_hello []" and nxt = "\<lambda>d s. Some (Inr 0, s)"]
  by (simp add: sim_do_mmap_def sim_mem_def sim_grant_def sim_hello_def sim0_def)

end
