(* ===== verification/Grep_File.thy ===== *)
theory Grep_File
  imports Line_Filters Sources
begin

section \<open>The pipeline of the grep workers\<close>

text \<open>
  The pipeline every worker of \<^verbatim>\<open>commands/grep.h\<close> builds,
  \<^verbatim>\<open>ReadFile{} | VectorScan{regex} | Batch{} | Write{}\<close>, on one file, and the flush of the batch at
  the end of the worker. The state is the buffer of the batch beside
  the world. \<open>hs_scan\<close> is the scanner with the compiled pattern.
\<close>

definition grep_pipeline ::
  "'w os \<Rightarrow> (bytes \<Rightarrow> int \<times> (nat \<times> nat) list) \<Rightarrow> int \<Rightarrow> string \<times> 'w \<Rightarrow> (size_t expected \<times> string \<times> 'w) option" where
  "grep_pipeline os hs_scan fd s =
     read_file_node os (vectorscan_node hs_scan (batch_node (write_node os))) fd 0 s"

definition grep_flush :: "'w os \<Rightarrow> string \<times> 'w \<Rightarrow> (size_t expected \<times> string \<times> 'w) option" where
  "grep_flush os s = batch_flush (write_node os) s"

text \<open>What a chunk, and a list of chunks, contribute to the output.\<close>

definition scan_output :: "(bytes \<Rightarrow> int \<times> (nat \<times> nat) list) \<Rightarrow> bytes list \<Rightarrow> bytes" where
  "scan_output hs_scan cs = concat (map (\<lambda>d. print_lines (map (match_line d) (map snd (snd (hs_scan d))))) cs)"

section \<open>One file\<close>

sublocale file_kernel \<subseteq> gf: read_pipeline
  "vectorscan_node hs_scan (batch_node (write_node os))" "batch_good good" "batch_view out" "batch_out out"
  "\<lambda>d. print_lines (map (match_line d) (map snd (snd (hs_scan d))))" "2 ^ 62" os fd data
  for hs_scan
proof (intro read_pipeline.intro read_pipeline_axioms.intro)
  show "emitter (vectorscan_node hs_scan (batch_node (write_node os))) (batch_good good) (batch_view out)
     (batch_out out) (\<lambda>d. print_lines (map (match_line d) (map snd (snd (hs_scan d))))) (2 ^ 62)"
    by (rule wr.batched.vs.emitter_axioms)
  fix n :: string and w w' and cnt off x
  show "pread_source os fd data (\<lambda>w. batch_good good (n, w))"
    using pread_source_axioms unfolding pread_source_def batch_good_def by simp blast
  assume "batch_good good (n, w)" "sys_pread os fd cnt off w = (x, w')"
  then show "batch_view out (n, w') = batch_view out (n, w) \<and> batch_out out (n, w') = batch_out out (n, w)"
    using pread_out by (auto simp: batch_obs)
qed simp

context file_kernel
begin

lemma grep_file_emits:
  assumes "batch_good good s"
  shows "\<exists>r s' cs. execute (grep_pipeline os hs_scan fd) s = Some (r, s') \<and> prefix (concat cs) (data) \<and>
      (\<forall>c \<in> set cs. c \<noteq> [] \<and> length c \<le> unat read_file_max_size) \<and>
      prefix (batch_out out s') (batch_view out s @ scan_output hs_scan cs) \<and>
      (r = Returned () \<and> concat cs = data \<and> batch_good good s' \<and>
         batch_view out s' = batch_view out s @ scan_output hs_scan cs \<or>
       (\<exists>e. r = Threw (Runtime_Error e)))"
proof -
  obtain n w where s: "s = (n, w)" by fastforce
  obtain r n' w' cs where run:
      "read_file_node os (vectorscan_node hs_scan (batch_node (write_node os))) fd 0 (n, w) = Some (r, n', w')"
      "\<forall>c \<in> set cs. c \<noteq> [] \<and> length c \<le> unat read_file_max_size" "prefix (concat cs) (data)"
      "prefix (batch_out out (n', w')) (batch_view out (n, w) @ scan_output hs_scan cs)"
      "case r of
         Inr m \<Rightarrow> concat cs = data \<and> batch_good good (n', w') \<and>
           batch_view out (n', w') = batch_view out (n, w) @ scan_output hs_scan cs
       | Inl e \<Rightarrow> True"
    using gf.read_file_emits [OF assms [unfolded s], where hs_scan = hs_scan and sz = 0]
    unfolding scan_output_def by (elim exE conjE)
  then show ?thesis
    unfolding s by (intro exI [of _ "case r of Inl e \<Rightarrow> Threw (Runtime_Error e) | Inr k \<Rightarrow> Returned ()"]
        exI [of _ "(n', w')"] exI [of _ cs]) (auto simp: execute_def grep_pipeline_def split: sum.splits)
qed

lemma grep_flush_emits:
  assumes "batch_good good (n, w)"
  shows "\<exists>q w'. grep_flush os (n, w) = Some (q, n, w') \<and> prefix (out w') (out w @ n) \<and> (\<forall>k. q = Inr k \<longrightarrow> out w' = out w @ n)"
  using assms by (cases rule: wr.batch_flush_cases) (auto simp: grep_flush_def)

end

section \<open>Only a failing call makes a file fail\<close>

definition calls_succeed :: "'w os \<Rightarrow> (bytes \<Rightarrow> int \<times> (nat \<times> nat) list) \<Rightarrow> bool" where
  "calls_succeed os hs_scan \<longleftrightarrow>
     (\<forall>bs v. fst (sys_write os STDOUT_FILENO bs v) \<noteq> -1) \<and>
     (\<forall>fd cnt off v. fst (fst (sys_pread os fd cnt off v)) \<noteq> -1) \<and> (\<forall>d. fst (hs_scan d) = 0)"

definition no_error :: "('d, 's) stage \<Rightarrow> bool" where
  "no_error next \<longleftrightarrow> (\<forall>d s r s'. next d s = Some (r, s') \<longrightarrow> (\<exists>k. r = Inr k))"

lemma no_errorD: "no_error next \<Longrightarrow> next d s \<noteq> Some (Inl e, s')"
  by (fastforce simp: no_error_def)

lemma no_error_batch: "no_error (\<lambda>d. put d False) \<Longrightarrow> no_error (batch_node put)"
  unfolding no_error_def [of "batch_node put"]
  by (auto simp: batch_node_def Let_def split: option.splits sum.splits if_splits prod.splits dest: no_errorD)

lemma no_error_vectorscan:
  assumes "no_error next" "\<And>d. fst (hs_scan d) = 0"
  shows "no_error (vectorscan_node hs_scan next)"
proof -
  have loop: "vectorscan_loop next str ms s \<noteq> Some (Inl e, s')" for str ms s e s'
    by (induction ms arbitrary: s)
      (auto simp: emit_line_def no_errorD [OF assms(1)] split: option.splits sum.splits prod.splits)
  show ?thesis
    unfolding no_error_def
  proof (intro allI impI)
    fix d s r s'
    assume run: "vectorscan_node hs_scan next d s = Some (r, s')"
    then show "\<exists>k. r = Inr k"
      using assms(2) [of d] loop
      by (auto simp: vectorscan_node_def Let_def split: option.splits sum.splits prod.splits if_splits)
  qed
qed

lemma no_error_read_file:
  fixes os :: "'w os" and n :: 'n
  assumes "no_error next" "\<And>fd cnt off v. fst (fst (sys_pread os fd cnt off v)) \<noteq> -1"
    "read_file_loop os next fd sz out amt n w = Some (r, s')"
  shows "\<exists>k. r = Inr k"
proof -
  have "os = os \<longrightarrow> next = next \<longrightarrow> (\<exists>k. fst (r, s') = Inr k)"
  proof (rule read_file_loop.raw_induct [OF _ assms(3),
        where P = "\<lambda>u nx fd sz out amt n w x. u = os \<longrightarrow> nx = next \<longrightarrow> (\<exists>k. fst x = Inr k)"], intro impI)
    fix f :: "'w os \<Rightarrow> (bytes, 'n \<times> 'w) stage \<Rightarrow> int \<Rightarrow> size_t \<Rightarrow> size_t \<Rightarrow> size_t \<Rightarrow> 'n \<Rightarrow> 'w \<Rightarrow>
        (size_t expected \<times> 'n \<times> 'w) option" and u nx fd sz out amt n w x
    assume IH: "\<And>u nx fd sz out amt n w x. f u nx fd sz out amt n w = Some x \<Longrightarrow>
        u = os \<longrightarrow> nx = next \<longrightarrow> (\<exists>k. fst x = Inr k)"
      and eq: "(case sys_pread u fd read_file_max_size amt w of
        ((read_this_iter, buffer), w') \<Rightarrow>
          (if read_this_iter = -1 then
             Some (Inl (''failed to read: ['' @ show_size amt @ ''/'' @ show_size sz @ '' bytes]''), n, w')
           else if read_this_iter = 0 then Some (Inr out, n, w')
           else
             (case nx (take (nat read_this_iter) buffer) (n, w') of
                None \<Rightarrow> None
              | Some (processed, n', w'') \<Rightarrow>
                  (case processed of
                     Inl e \<Rightarrow> Some (Inl e, n', w'')
                   | Inr k \<Rightarrow> f u nx fd sz (out + k) (amt + word_of_int read_this_iter) n' w'')))) = Some x"
      and u: "u = os" "nx = next"
    obtain m buffer w' where call: "sys_pread os fd read_file_max_size amt w = ((m, buffer), w')" by (metis prod.exhaust)
    then have "m \<noteq> -1" using assms(2) [of fd read_file_max_size amt w] by simp
    then show "\<exists>k. fst x = Inr k"
      using eq no_errorD [OF assms(1)] IH [THEN mp, THEN mp, OF _ u] unfolding u call
      by (cases x) (auto split: if_splits option.splits sum.splits)
  qed
  then show ?thesis by simp
qed

lemma grep_pipeline_succeeds:
  assumes "calls_succeed os hs_scan" "grep_pipeline os hs_scan fd s = Some (r, s')"
  shows "\<exists>k. r = Inr k"
proof -
  have "fst (sys_write os STDOUT_FILENO bs v) \<noteq> -1" for bs v using assms(1) by (simp add: calls_succeed_def)
  then have "no_error (\<lambda>d. write_node os d False)"
    unfolding no_error_def by (intro allI impI) (rule write_node_no_error)
  then have "no_error (vectorscan_node hs_scan (batch_node (write_node os)))"
    using assms(1) by (intro no_error_vectorscan no_error_batch) (simp_all add: calls_succeed_def)
  moreover have "fst (fst (sys_pread os fd cnt off v)) \<noteq> -1" for fd cnt off v
    using assms(1) by (simp add: calls_succeed_def)
  ultimately show ?thesis
    using assms(2) unfolding grep_pipeline_def read_file_node_def by (rule no_error_read_file)
qed

end
