(* ===== verification/Dirents.thy ===== *)
theory Dirents
  imports Posix
begin

section \<open>Directory entries\<close>

text \<open>
  The \<^verbatim>\<open>linux_dirent64\<close> records of \<^verbatim>\<open>utils/event_loop.h\<close> and the loop over a \<^verbatim>\<open>getdents64\<close> buffer that
  \<^verbatim>\<open>commands/grep.h\<close> and \<^verbatim>\<open>utils/event_loop.h\<close> both run. A record is read where the span starts:
  8 bytes inode, 8 bytes offset, 2 bytes record length, 1 byte type, then the name up to a
  zero byte, numbers in little endian. An access that leaves the span is \<open>Undefined\<close>. The
  work done for one entry is the parameter \<open>f\<close> of the loop. A record length of zero makes
  the loop look at the same entry for ever, so the loop is a partial function.
\<close>

record linux_dirent64 =
  d_ino :: "64 word"
  d_off :: "64 word"
  d_reclen :: "16 word"
  d_type :: "8 word"
  d_name :: string

abbreviation (input) DT_DIR :: "8 word" where "DT_DIR \<equiv> 4"
abbreviation (input) DT_REG :: "8 word" where "DT_REG \<equiv> 8"

fun le_nat :: "bytes \<Rightarrow> nat" where
  "le_nat [] = 0"
| "le_nat (b # bs) = of_char b + 256 * le_nat bs"

definition decode_dirent :: "bytes \<Rightarrow> linux_dirent64 option" where
  "decode_dirent span =
     (let name = takeWhile (\<lambda>c. c \<noteq> CHR 0x00) (drop 19 span) in
      if 19 + length name < length span then
        Some \<lparr>d_ino = word_of_nat (le_nat (take 8 span)),
              d_off = word_of_nat (le_nat (take 8 (drop 8 span))),
              d_reclen = word_of_nat (le_nat (take 2 (drop 16 span))),
              d_type = word_of_nat (le_nat (take 1 (drop 18 span))),
              d_name = name\<rparr>
      else None)"

partial_function (option) walk_dirents ::
  "(linux_dirent64 \<Rightarrow> 's \<Rightarrow> (unit outcome \<times> 's) option) \<Rightarrow> bytes \<Rightarrow> 's \<Rightarrow> (unit outcome \<times> 's) option" where
  "walk_dirents f span s =
     (if span = [] then Some (Returned (), s)
      else
        (case decode_dirent span of
           None \<Rightarrow> Some (Undefined, s)
         | Some d \<Rightarrow>
             (case f d s of
                None \<Rightarrow> None
              | Some (r, s') \<Rightarrow>
                  (if r \<noteq> Returned () then Some (r, s')
                   else if length span < unat (d_reclen d) then Some (Undefined, s')
                   else walk_dirents f (drop (unat (d_reclen d)) span) s'))))"

section \<open>What the kernel writes\<close>

text \<open>
  The other side of the interface: a record of the length it announces, with the name, its
  zero byte and padding. This is the documented layout of a \<^verbatim>\<open>getdents64\<close> buffer.
\<close>

fun le_bytes :: "nat \<Rightarrow> nat \<Rightarrow> bytes" where
  "le_bytes 0 n = []"
| "le_bytes (Suc k) n = char_of n # le_bytes k (n div 256)"

definition wf_dirent :: "linux_dirent64 \<Rightarrow> bool" where
  "wf_dirent d \<longleftrightarrow> CHR 0x00 \<notin> set (d_name d) \<and> 20 + length (d_name d) \<le> unat (d_reclen d)"

definition encode_dirent :: "linux_dirent64 \<Rightarrow> bytes" where
  "encode_dirent d =
     le_bytes 8 (unat (d_ino d)) @ le_bytes 8 (unat (d_off d)) @ le_bytes 2 (unat (d_reclen d)) @
     le_bytes 1 (unat (d_type d)) @ d_name d @
     replicate (unat (d_reclen d) - 19 - length (d_name d)) (CHR 0x00)"

text \<open>The entries one after the other, stopping where the work on one of them does not return normally.\<close>

fun each_entry :: "(linux_dirent64 \<Rightarrow> 's \<Rightarrow> (unit outcome \<times> 's) option) \<Rightarrow> linux_dirent64 list \<Rightarrow> 's \<Rightarrow>
    (unit outcome \<times> 's) option" where
  "each_entry f [] s = Some (Returned (), s)"
| "each_entry f (d # ds) s =
     (case f d s of
        None \<Rightarrow> None
      | Some (r, s') \<Rightarrow> if r = Returned () then each_entry f ds s' else Some (r, s'))"

text \<open>What \<^verbatim>\<open>getdents64\<close> leaves in the buffer when it succeeds: whole, well-formed records.\<close>

definition getdents_ok :: "'w os \<Rightarrow> bool" where
  "getdents_ok os \<longleftrightarrow>
     (\<forall>fd sz w r buf w'. sys_getdents64 os fd sz w = ((r, buf), w') \<longrightarrow> 0 < r \<longrightarrow>
        (\<exists>ds. (\<forall>d \<in> set ds. wf_dirent d) \<and> take (nat r) buf = concat (map encode_dirent ds)))"

section \<open>Reading back what was written\<close>

lemma length_le_bytes [simp]: "length (le_bytes k n) = k"
  by (induction k n rule: le_bytes.induct) auto

lemma le_nat_le_bytes: "le_nat (le_bytes k n) = n mod 256 ^ k"
proof (induction k n rule: le_bytes.induct)
  case (2 k n)
  have "n mod 256 ^ Suc k = 256 * (n div 256 mod 256 ^ k) + n mod 256"
    by (simp add: mod_mult2_eq)
  then show ?case using 2 by simp
qed simp

lemma le_word: "LENGTH('a :: len) = 8 * k \<Longrightarrow> word_of_nat (le_nat (le_bytes k (unat (x :: 'a word)))) = x"
proof -
  assume len: "LENGTH('a) = 8 * k"
  have "256 ^ k = (2 :: nat) ^ LENGTH('a)" unfolding len power_mult by simp
  then have "unat x mod 256 ^ k = unat x"
    using unsigned_less [of x] by simp
  then show ?thesis by (simp add: le_nat_le_bytes)
qed

lemma encode_dirent_length: "wf_dirent d \<Longrightarrow> length (encode_dirent d) = unat (d_reclen d)"
  by (auto simp: encode_dirent_def wf_dirent_def)

lemma encode_dirent_parts:
  assumes "wf_dirent d"
  shows "take 8 (encode_dirent d @ rest) = le_bytes 8 (unat (d_ino d))"
    "take 8 (drop 8 (encode_dirent d @ rest)) = le_bytes 8 (unat (d_off d))"
    "take 2 (drop 16 (encode_dirent d @ rest)) = le_bytes 2 (unat (d_reclen d))"
    "take 1 (drop 18 (encode_dirent d @ rest)) = le_bytes 1 (unat (d_type d))"
    "\<exists>zs. drop 19 (encode_dirent d @ rest) = d_name d @ CHR 0x00 # zs"
proof -
  show "\<exists>zs. drop 19 (encode_dirent d @ rest) = d_name d @ CHR 0x00 # zs"
  proof -
    have "0 < unat (d_reclen d) - 19 - length (d_name d)"
      using assms unfolding wf_dirent_def by linarith
    then obtain n where "unat (d_reclen d) - 19 - length (d_name d) = Suc n"
      using gr0_conv_Suc by blast
    then show ?thesis by (simp add: encode_dirent_def drop_append)
  qed
qed (simp_all add: encode_dirent_def drop_append take_append)

lemma decode_encode_dirent:
  assumes "wf_dirent d"
  shows "decode_dirent (encode_dirent d @ rest) = Some d"
proof -
  obtain zs where name: "drop 19 (encode_dirent d @ rest) = d_name d @ CHR 0x00 # zs"
    using encode_dirent_parts(5) [OF assms] by blast
  have "takeWhile (\<lambda>c. c \<noteq> CHR 0x00) (drop 19 (encode_dirent d @ rest)) = d_name d"
    using assms unfolding name wf_dirent_def by (subst takeWhile_append2) auto
  moreover have "19 + length (d_name d) < length (encode_dirent d @ rest)"
    using encode_dirent_length [OF assms] assms by (auto simp: wf_dirent_def)
  moreover have "word_of_nat (le_nat (le_bytes 8 (unat (d_ino d)))) = d_ino d"
    "word_of_nat (le_nat (le_bytes 8 (unat (d_off d)))) = d_off d"
    "word_of_nat (le_nat (le_bytes 2 (unat (d_reclen d)))) = d_reclen d"
    "word_of_nat (le_nat (le_bytes 1 (unat (d_type d)))) = d_type d"
    by (rule le_word; simp)+
  ultimately show ?thesis
    by (simp only: decode_dirent_def encode_dirent_parts(1-4) [OF assms] Let_def if_True) simp
qed

lemma walk_dirents_step:
  assumes "wf_dirent d"
  shows "walk_dirents f (encode_dirent d @ rest) s =
    (case f d s of
       None \<Rightarrow> None
     | Some (r, s') \<Rightarrow> if r = Returned () then walk_dirents f rest s' else Some (r, s'))"
proof -
  have "encode_dirent d \<noteq> []"
    using encode_dirent_length [OF assms] assms by (auto simp: wf_dirent_def)
  then show ?thesis
    by (subst walk_dirents.simps)
      (simp add: decode_encode_dirent [OF assms] encode_dirent_length [OF assms] split: option.splits prod.splits)
qed

lemma walk_dirents_encoded:
  "\<forall>d \<in> set ds. wf_dirent d \<Longrightarrow> walk_dirents f (concat (map encode_dirent ds)) s = each_entry f ds s"
proof (induction ds arbitrary: s)
  case Nil
  then show ?case by (simp add: walk_dirents.simps)
next
  case (Cons d ds)
  then show ?case by (simp add: walk_dirents_step split: option.splits prod.splits)
qed

section \<open>Properties\<close>

text \<open>
  C29. The loop over a \<^verbatim>\<open>getdents64\<close> buffer that holds well-formed records sees exactly those
  records, with the inode, offset, length, type and name that were written, in order and each
  once, ends, and never reads outside the buffer; it stops early only where the work on an
  entry does.
\<close>

theorem walk_sees_every_entry:
  assumes "\<forall>d \<in> set ds. wf_dirent d"
  shows "walk_dirents f (concat (map encode_dirent ds)) s = each_entry f ds s"
  using assms by (rule walk_dirents_encoded)

theorem walk_sees_every_entry_witness:
  "walk_dirents (\<lambda>d s. Some (Returned (), s @ [d_name d]))
     (encode_dirent \<lparr>d_ino = 7, d_off = 1, d_reclen = 24, d_type = 8, d_name = ''abc''\<rparr> @
      encode_dirent \<lparr>d_ino = 8, d_off = 2, d_reclen = 32, d_type = 4, d_name = ''sub''\<rparr>) [] =
   Some (Returned (), [''abc'', ''sub''])"
  using walk_sees_every_entry [where f = "\<lambda>d s. Some (Returned (), s @ [d_name d])" and s = "[]"
      and ds = "[\<lparr>d_ino = 7, d_off = 1, d_reclen = 24, d_type = 8, d_name = ''abc''\<rparr>,
                 \<lparr>d_ino = 8, d_off = 2, d_reclen = 32, d_type = 4, d_name = ''sub''\<rparr>]"]
  by (simp add: wf_dirent_def)

text \<open>
  C30. Decoding a record gives back what was encoded, whatever follows it in the buffer.
\<close>

theorem dirent_round_trip:
  assumes "wf_dirent d"
  shows "decode_dirent (encode_dirent d @ rest) = Some d"
  using assms by (rule decode_encode_dirent)

theorem dirent_round_trip_witness:
  "decode_dirent (encode_dirent \<lparr>d_ino = 7, d_off = 1, d_reclen = 24, d_type = 8, d_name = ''a''\<rparr> @ ''xyz'') =
     Some \<lparr>d_ino = 7, d_off = 1, d_reclen = 24, d_type = 8, d_name = ''a''\<rparr>"
  by (rule dirent_round_trip) (simp add: wf_dirent_def)

text \<open>
  A record of length zero stops the loop from making progress: as long as the work on it
  returns normally the loop never ends.
\<close>

theorem zero_record_length_never_ends:
  assumes "decode_dirent span = Some d" "d_reclen d = 0" "\<And>s. \<exists>s'. f d s = Some (Returned (), s')"
  shows "walk_dirents f span s = None"
proof -
  have "span \<noteq> []" using assms(1) by (auto simp: decode_dirent_def)
  have never: "False" if "walk_dirents f span s = Some r" for r
  proof -
    have "f = f \<longrightarrow> span = span \<longrightarrow> False"
    proof (rule walk_dirents.raw_induct [where P = "\<lambda>f' span' s' r. f' = f \<longrightarrow> span' = span \<longrightarrow> False", OF _ that], intro impI)
      fix g f' span' s' r
      assume IH: "\<And>f' span' s' r. g f' span' s' = Some r \<Longrightarrow> f' = f \<longrightarrow> span' = span \<longrightarrow> False"
        and eq: "(if span' = [] then Some (Returned (), s')
          else (case decode_dirent span' of
             None \<Rightarrow> Some (Undefined, s')
           | Some d \<Rightarrow>
               (case f' d s' of
                  None \<Rightarrow> None
                | Some (r, s') \<Rightarrow>
                    (if r \<noteq> Returned () then Some (r, s')
                     else if length span' < unat (d_reclen d) then Some (Undefined, s')
                     else g f' (drop (unat (d_reclen d)) span') s')))) = Some r"
        and same: "f' = f" "span' = span"
      obtain s1 where "f d s' = Some (Returned (), s1)" using assms(3) by blast
      then have "g f span s1 = Some r" using eq same assms(1,2) \<open>span \<noteq> []\<close> by simp
      then show False using IH by blast
    qed
    then show False by simp
  qed
  then show ?thesis by (cases "walk_dirents f span s") auto
qed

theorem zero_record_length_never_ends_witness:
  "walk_dirents (\<lambda>d s. Some (Returned (), s)) (replicate 24 (CHR 0x00)) () = None"
  by (rule zero_record_length_never_ends [where d = "\<lparr>d_ino = 0, d_off = 0, d_reclen = 0, d_type = 0, d_name = []\<rparr>"])
    (simp_all add: decode_dirent_def numeral_eq_Suc)

end
