(* ===== verification/Splice_Pipe.thy ===== *)
theory Splice_Pipe
  imports Sinks Sources
begin

section \<open>The splice source and sink joined by a pipe\<close>

text \<open>
  \<^verbatim>\<open>source/splice.h\<close> fills a pipe of its own and \<^verbatim>\<open>sink/splice.h\<close> drains it to standard output.
  Both ends belong to the process, so draining an empty pipe blocks for ever. The source
  tells the sink how many bytes it asked for, not how many arrived: the pair copies the file
  when no splice into the pipe is short, and cannot succeed after a short one.
\<close>

locale pipe_kernel =
  fixes os :: "'w os" and fd :: int and rp :: int and wp :: int
    and rest :: "'w \<Rightarrow> bytes" and pipe :: "'w \<Rightarrow> bytes" and out :: "'w \<Rightarrow> bytes" and good :: "'w \<Rightarrow> bool"
  assumes splice_in: "good w \<Longrightarrow> pipe w = [] \<Longrightarrow>
      \<exists>r w'. sys_splice os fd wp cnt w = Some (r, w') \<and> good w' \<and> out w' = out w \<and>
        (r = -1 \<and> pipe w' = [] \<and> rest w' = rest w \<or>
         0 \<le> r \<and> nat r \<le> unat cnt \<and> nat r \<le> length (rest w) \<and>
         pipe w' = take (nat r) (rest w) \<and> rest w' = drop (nat r) (rest w) \<and>
         (r = 0 \<longrightarrow> cnt = 0 \<or> rest w = []))"
    and splice_out: "good w \<Longrightarrow> pipe w \<noteq> [] \<Longrightarrow>
      \<exists>r w'. sys_splice os rp STDOUT_FILENO cnt w = Some (r, w') \<and> good w' \<and> rest w' = rest w \<and>
        (r = -1 \<and> pipe w' = pipe w \<and> out w' = out w \<or>
         0 \<le> r \<and> nat r \<le> unat cnt \<and> nat r \<le> length (pipe w) \<and>
         out w' = out w @ take (nat r) (pipe w) \<and> pipe w' = drop (nat r) (pipe w) \<and>
         (cnt \<noteq> 0 \<longrightarrow> 0 < r))"
    and splice_out_blocks: "good w \<Longrightarrow> pipe w = [] \<Longrightarrow> cnt \<noteq> 0 \<Longrightarrow>
      sys_splice os rp STDOUT_FILENO cnt w = None"
begin

text \<open>One iteration of the sink on a pipe that holds data.\<close>

lemma sink_step:
  assumes "good w" "pipe w \<noteq> []" "amt < sz"
  obtains (err) w1 where "splice_sink_loop os rp sz amt w = Some (Inl ''failed to splice'', w1)"
      "good w1" "rest w1 = rest w" "pipe w1 = pipe w" "out w1 = out w"
    | (moved) k w1 where
      "splice_sink_loop os rp sz amt w = splice_sink_loop os rp sz (amt + word_of_nat k) w1"
      "good w1" "rest w1 = rest w" "0 < k" "k \<le> length (pipe w)"
      "out w1 = out w @ take k (pipe w)" "pipe w1 = drop k (pipe w)"
proof -
  have "sz \<noteq> 0" using assms(3) by auto
  obtain r w1 where call: "sys_splice os rp STDOUT_FILENO sz w = Some (r, w1)"
    and g: "good w1" "rest w1 = rest w"
    and law: "r = -1 \<and> pipe w1 = pipe w \<and> out w1 = out w \<or>
         0 \<le> r \<and> nat r \<le> unat sz \<and> nat r \<le> length (pipe w) \<and>
         out w1 = out w @ take (nat r) (pipe w) \<and> pipe w1 = drop (nat r) (pipe w) \<and>
         (sz \<noteq> 0 \<longrightarrow> 0 < r)"
    using splice_out [OF assms(1,2), of sz] by blast
  show thesis
  proof (cases "r = -1")
    case True
    then show thesis
      using err [of w1] call g law assms(3) by (simp add: splice_sink_loop.simps [of os rp sz amt w])
  next
    case False
    then show thesis
      using moved [of "nat r" w1] call g law assms(3) \<open>sz \<noteq> 0\<close>
      by (simp add: splice_sink_loop.simps [of os rp sz amt w])
  qed
qed

lemma sink_drains:
  assumes "good w" "unat amt + length (pipe w) = unat sz"
  shows "\<exists>r w' k. splice_sink_loop os rp sz amt w = Some (r, w') \<and> good w' \<and> rest w' = rest w \<and>
      k \<le> length (pipe w) \<and> out w' = out w @ take k (pipe w) \<and> pipe w' = drop k (pipe w) \<and>
      (case r of Inr n \<Rightarrow> n = sz \<and> k = length (pipe w) | Inl e \<Rightarrow> e = ''failed to splice'')"
  using assms
proof (induction "length (pipe w)" arbitrary: amt w rule: less_induct)
  case less
  show ?case
  proof (cases "pipe w = []")
    case True
    then have "amt = sz" using less.prems(2) by (simp add: word_unat_eq_iff)
    then show ?thesis
      using True less.prems by (auto simp: splice_sink_loop.simps [of os rp sz sz w])
  next
    case False
    then have "0 < length (pipe w)" by simp
    then have "amt < sz" using less.prems(2) unfolding word_less_nat_alt by linarith
    with less.prems(1) False show ?thesis
    proof (cases rule: sink_step)
      case (err w1)
      then show ?thesis by (intro exI [of _ "Inl _"] exI [of _ w1] exI [of _ 0]) auto
    next
      case (moved k w1)
      have amt: "unat (amt + word_of_nat k) = unat amt + k"
        using less.prems(2) moved(5) unat_size_bound [of sz] by (simp add: size_simps)
      have "length (pipe w1) < length (pipe w)" "unat (amt + word_of_nat k) + length (pipe w1) = unat sz"
        using moved amt less.prems(2) False by auto
      then obtain r w' j where IH: "splice_sink_loop os rp sz (amt + word_of_nat k) w1 = Some (r, w')"
        "good w'" "rest w' = rest w1" "j \<le> length (pipe w1)" "out w' = out w1 @ take j (pipe w1)"
        "pipe w' = drop j (pipe w1)"
        "case r of Inr n \<Rightarrow> n = sz \<and> j = length (pipe w1) | Inl e \<Rightarrow> e = ''failed to splice''"
        using less.hyps [OF _ moved(2)] by blast
      show ?thesis
      proof (intro exI conjI)
        show "splice_sink_loop os rp sz amt w = Some (r, w')" using moved(1) IH(1) by simp
        show "good w'" "rest w' = rest w" using IH(2,3) moved(3) by simp_all
        show "k + j \<le> length (pipe w)" using IH(4) moved(5,7) by simp
        show "out w' = out w @ take (k + j) (pipe w)" using IH(5) moved(6,7) by (simp add: take_add)
        show "pipe w' = drop (k + j) (pipe w)" using IH(6) moved(7) by (simp add: add.commute)
        show "case r of Inr n \<Rightarrow> n = sz \<and> k + j = length (pipe w) | Inl e \<Rightarrow> e = ''failed to splice''"
          using IH(7) moved(5,7) by (cases r) auto
      qed
    qed
  qed
qed

lemma sink_short_never_succeeds:
  assumes "good w" "unat amt + length (pipe w) < unat sz"
  shows "splice_sink_loop os rp sz amt w = None \<or>
    (\<exists>w'. splice_sink_loop os rp sz amt w = Some (Inl ''failed to splice'', w'))"
  using assms
proof (induction "length (pipe w)" arbitrary: amt w rule: less_induct)
  case less
  then have lt: "amt < sz" by (simp add: word_less_nat_alt)
  show ?case
  proof (cases "pipe w = []")
    case True
    moreover have "sz \<noteq> 0" using lt by auto
    ultimately show ?thesis
      using splice_out_blocks [OF less.prems(1)] lt by (simp add: splice_sink_loop.simps [of os rp sz amt w])
  next
    case False
    from less.prems(1) False lt show ?thesis
    proof (cases rule: sink_step)
      case (err w1)
      then show ?thesis by blast
    next
      case (moved k w1)
      have "unat (amt + word_of_nat k) = unat amt + k"
        using less.prems(2) moved(5) unat_size_bound [of sz] by (simp add: size_simps)
      then have "length (pipe w1) < length (pipe w)" "unat (amt + word_of_nat k) + length (pipe w1) < unat sz"
        using moved less.prems(2) False by auto
      then show ?thesis using less.hyps [OF _ moved(2)] moved(1) by simp
    qed
  qed
qed

lemma short_splice_never_succeeds:
  assumes "good w" "pipe w = []" "offset \<noteq> sz"
    and call: "sys_splice os fd wp (min pipe_size (sz - offset)) w = Some (r, w1)"
    and short: "0 < r" "nat r < unat (min pipe_size (sz - offset))"
  shows "splice_source_loop os (splice_sink_node os) fd wp rp pipe_size sz acc offset w = None \<or>
    (\<exists>w'. splice_source_loop os (splice_sink_node os) fd wp rp pipe_size sz acc offset w =
        Some (Inl ''failed to splice'', w'))"
proof -
  let ?c = "min pipe_size (sz - offset)"
  have w1: "good w1" "length (pipe w1) = nat r"
    using splice_in [OF assms(1,2), of ?c] call short by auto
  have "splice_sink_loop os rp ?c 0 w1 = None \<or>
      (\<exists>w'. splice_sink_loop os rp ?c 0 w1 = Some (Inl ''failed to splice'', w'))"
    using sink_short_never_succeeds [of w1 0 ?c] w1 short by simp
  then show ?thesis
    using call short assms(3)
    by (auto simp: splice_source_loop.simps [of os "splice_sink_node os" fd wp rp pipe_size sz acc offset w]
        Let_def splice_sink_node_def)
qed

end

text \<open>No splice into the empty pipe is short.\<close>

locale full_pipe_kernel = pipe_kernel +
  fixes pipe_size :: size_t
  assumes pipe_size_pos: "0 < pipe_size"
    and splice_in_full: "good w \<Longrightarrow> pipe w = [] \<Longrightarrow> cnt \<le> pipe_size \<Longrightarrow>
      sys_splice os fd wp cnt w = Some (r, w') \<Longrightarrow> r \<noteq> -1 \<Longrightarrow> nat r = min (unat cnt) (length (rest w))"
begin

text \<open>One iteration of the source: the pipe is filled with what was asked for, and the sink drains it.\<close>

lemma fill_step:
  assumes "good w" "pipe w = []" "c \<le> pipe_size" "0 < unat c" "unat c \<le> length (rest w)"
  obtains (err) w1 where "sys_splice os fd wp c w = Some (-1, w1)" "good w1" "out w1 = out w"
    | (filled) w1 where "sys_splice os fd wp c w = Some (int (unat c), w1)" "good w1" "out w1 = out w"
      "pipe w1 = take (unat c) (rest w)" "rest w1 = drop (unat c) (rest w)"
proof -
  obtain r w1 where call: "sys_splice os fd wp c w = Some (r, w1)" and w1: "good w1" "out w1 = out w"
    and law: "r = -1 \<and> pipe w1 = [] \<and> rest w1 = rest w \<or>
         0 \<le> r \<and> nat r \<le> unat c \<and> nat r \<le> length (rest w) \<and>
         pipe w1 = take (nat r) (rest w) \<and> rest w1 = drop (nat r) (rest w) \<and>
         (r = 0 \<longrightarrow> c = 0 \<or> rest w = [])"
    using splice_in [OF assms(1,2), of c] by blast
  show thesis
  proof (cases "r = -1")
    case True
    then show thesis using err call w1 by simp
  next
    case False
    then have "nat r = unat c" using splice_in_full [OF assms(1-3) call] assms(5) by simp
    moreover from this have "r = int (unat c)" using assms(4) by linarith
    ultimately show thesis using filled [of w1] call w1 law False by auto
  qed
qed

lemma source_step:
  assumes "good w" "pipe w = []" "unat off + length (rest w) = unat sz" "off \<noteq> sz"
  obtains (err) e w1 k where
      "splice_source_loop os (splice_sink_node os) fd wp rp pipe_size sz acc off w = Some (Inl e, w1)" "good w1"
      "k \<le> length (rest w)" "out w1 = out w @ take k (rest w)" "e = ''failed to splice data in'' \<or> e = ''failed to splice''"
    | (moved) c w1 where
      "splice_source_loop os (splice_sink_node os) fd wp rp pipe_size sz acc off w =
       splice_source_loop os (splice_sink_node os) fd wp rp pipe_size sz (acc + c) (off + c) w1"
      "good w1" "pipe w1 = []" "0 < unat c" "unat c \<le> length (rest w)"
      "out w1 = out w @ take (unat c) (rest w)" "rest w1 = drop (unat c) (rest w)"
proof -
  let ?loop = "splice_source_loop os (splice_sink_node os) fd wp rp pipe_size sz"
  define c where "c = min pipe_size (sz - off)"
  have "off \<le> sz" using assms(3) by (simp add: word_le_nat_alt)
  then have c: "unat c = min (unat pipe_size) (length (rest w))" using assms(3) by (simp add: c_def size_simps)
  have "rest w \<noteq> []" using assms(3,4) by (auto simp: word_unat_eq_iff)
  then have c_pos: "0 < unat c" using c pipe_size_pos by (simp add: unat_gt_0 word_gt_0)
  have le: "c \<le> pipe_size" "unat c \<le> length (rest w)" using c by (simp_all add: c_def)
  from assms(1,2) le(1) c_pos le(2) show thesis
  proof (cases rule: fill_step)
    case (err w1)
    then have "?loop acc off w = Some (Inl ''failed to splice data in'', w1)"
      using assms(4) by (subst splice_source_loop.simps) (simp add: Let_def c_def)
    then show thesis using that(1) [of _ w1 0] err by simp
  next
    case (filled w1)
    have len: "length (pipe w1) = unat c" using filled(4) le(2) by simp
    obtain q w2 k where sink: "splice_sink_loop os rp c 0 w1 = Some (q, w2)" "good w2"
      "rest w2 = rest w1" "k \<le> length (pipe w1)" "out w2 = out w1 @ take k (pipe w1)"
      "pipe w2 = drop k (pipe w1)"
      "case q of Inr n \<Rightarrow> n = c \<and> k = length (pipe w1) | Inl e \<Rightarrow> e = ''failed to splice''"
      using sink_drains [of w1 0 c] filled(2) len by auto
    have "uint c \<noteq> 0" "uint c \<noteq> -1" using c_pos uint_ge_0 [of c] by (force simp: uint_0_iff, linarith)
    then have step: "?loop acc off w = (case q of Inl e \<Rightarrow> Some (Inl e, w2) | Inr n \<Rightarrow> ?loop (acc + n) (off + c) w2)"
      using assms(4) filled(1) sink(1)
      by (subst splice_source_loop.simps) (simp add: Let_def splice_sink_node_def flip: c_def)
    have out: "out w2 = out w @ take k (rest w)" using sink(4,5) filled(3,4) len by (simp add: min_absorb1)
    show thesis
    proof (cases q)
      case (Inl e)
      then show thesis using that(1) [of e w2 k] step sink(2,4,7) out len le(2) by simp
    next
      case (Inr n)
      then show thesis using that(2) [of c w2] step sink filled(5) out len le(2) c_pos by simp
    qed
  qed
qed

lemma splice_loop_total:
  assumes "good w" "pipe w = []" "unat off + length (rest w) = unat sz"
  shows "\<exists>r w' k. splice_source_loop os (splice_sink_node os) fd wp rp pipe_size sz acc off w = Some (r, w') \<and>
      good w' \<and> k \<le> length (rest w) \<and> out w' = out w @ take k (rest w) \<and>
      (case r of Inr n \<Rightarrow> k = length (rest w) \<and> n = acc + word_of_nat k
       | Inl e \<Rightarrow> e = ''failed to splice data in'' \<or> e = ''failed to splice'')"
  using assms
proof (induction "length (rest w)" arbitrary: acc off w rule: less_induct)
  case less
  show ?case
  proof (cases "off = sz")
    case True
    then have "rest w = []" using less.prems(3) by simp
    then show ?thesis using True less.prems(1) by (auto simp: splice_source_loop.simps)
  next
    case False
    from less.prems False show ?thesis
    proof (cases rule: source_step [where acc = acc])
      case (err e w1 k)
      then show ?thesis by (intro exI [of _ "Inl e"] exI [of _ w1] exI [of _ k]) simp
    next
      case (moved c w1)
      have "unat (off + c) = unat off + unat c" using less.prems(3) moved(5) unat_size_bound [of sz]
        by (intro unat_add_lem [THEN iffD1]) simp
      then have "length (rest w1) < length (rest w)" "unat (off + c) + length (rest w1) = unat sz"
        using moved(4,5,7) less.prems(3) by auto
      then obtain r w' j where IH:
          "splice_source_loop os (splice_sink_node os) fd wp rp pipe_size sz (acc + c) (off + c) w1 = Some (r, w')"
          "good w'" "j \<le> length (rest w1)" "out w' = out w1 @ take j (rest w1)"
          "case r of Inr m \<Rightarrow> j = length (rest w1) \<and> m = acc + c + word_of_nat j
           | Inl e \<Rightarrow> e = ''failed to splice data in'' \<or> e = ''failed to splice''"
        using less.hyps [OF _ moved(2,3)] by blast
      have "word_of_nat (unat c + j) = c + word_of_nat j" by simp
      then show ?thesis using moved(1,5-7) IH
        by (intro exI [of _ r] exI [of _ w'] exI [of _ "unat c + j"])
          (cases r; simp add: take_add del: of_nat_add)
    qed
  qed
qed

end

text \<open>
  The whole source: \<^verbatim>\<open>pipe\<close> makes the pair of descriptors, \<^verbatim>\<open>F_SETPIPE_SZ\<close> answers its size,
  and both ends are closed on the way out.
\<close>

locale splice_kernel = full_pipe_kernel +
  fixes start :: "'a \<Rightarrow> bool" and psize :: int
  assumes pipe_law: "start w \<Longrightarrow> sys_pipe os w = ((rc, p0, p1), w') \<Longrightarrow>
      out w' = out w \<and> (rc = 0 \<longrightarrow> p0 = rp \<and> p1 = wp \<and> good w' \<and> pipe w' = [] \<and> rest w' = rest w)"
    and setpipe_law: "good w \<Longrightarrow> sys_setpipe_sz os rp (1024 * 1024) w = (p, w') \<Longrightarrow>
      good w' \<and> pipe w' = pipe w \<and> rest w' = rest w \<and> out w' = out w \<and> (p < 0 \<or> p = psize)"
    and close_law: "out (sys_close os d w) = out w"
    and psize: "pipe_size = word_of_int psize"
begin

lemma splice_node_total:
  assumes "start w" "unat sz = length (rest w)"
  shows "\<exists>r w' k. splice_source_node os (splice_sink_node os) fd sz w = Some (r, w') \<and>
      k \<le> length (rest w) \<and> out w' = out w @ take k (rest w) \<and>
      (case r of Inr n \<Rightarrow> n = sz \<and> out w' = out w @ rest w | Inl e \<Rightarrow> True)"
proof -
  obtain rc p0 p1 w1 where p: "sys_pipe os w = ((rc, p0, p1), w1)" by (metis prod.exhaust)
  note l1 = pipe_law [OF assms(1) p]
  show ?thesis
  proof (cases "rc = 0")
    case False
    then show ?thesis using p l1 by (intro exI [of _ "Inl _"] exI [of _ w1] exI [of _ 0])
        (simp add: splice_source_node_def)
  next
    case True
    then have ends: "p0 = rp" "p1 = wp" and w1: "good w1" "pipe w1 = []" "rest w1 = rest w" "out w1 = out w"
      using l1 by auto
    obtain p w2 where s: "sys_setpipe_sz os rp (1024 * 1024) w1 = (p, w2)" by fastforce
    have w2: "good w2" "pipe w2 = []" "rest w2 = rest w" "out w2 = out w" "p < 0 \<or> p = psize"
      using setpipe_law [OF w1(1) s] w1 by auto
    let ?leave = "\<lambda>v. fd_destroy os (ar_make wp) (fd_destroy os (ar_make rp) v)"
    have leave: "out (?leave v) = out v" for v
      by (simp add: fd_destroy_def ar_destroy_def ar_make_def fd_closer_def close_law)
    obtain q w3 k where l: "splice_source_loop os (splice_sink_node os) fd wp rp pipe_size sz 0 0 w2 = Some (q, w3)"
      "k \<le> length (rest w)" "out w3 = out w @ take k (rest w)"
      "case q of Inr n \<Rightarrow> k = length (rest w) \<and> n = 0 + word_of_nat k | Inl e \<Rightarrow> e = ''failed to splice data in'' \<or> e = ''failed to splice''"
      using splice_loop_total [of w2 0 sz 0] w2 assms(2) by auto
    have sz: "word_of_nat (length (rest w)) = sz" by (simp flip: assms(2))
    show ?thesis
    proof (cases "p < 0")
      case neg: True
      then show ?thesis
        using p True ends s w2(4) leave
        by (intro exI [of _ "Inl _"] exI [of _ "?leave w2"] exI [of _ 0])
          (simp add: splice_source_node_def ar_get_def ar_make_def)
    next
      case False
      then have "splice_source_node os (splice_sink_node os) fd sz w = Some (q, ?leave w3)"
        using p True ends s w2(5) l(1) psize by (simp add: splice_source_node_def ar_get_def ar_make_def)
      then show ?thesis using l leave sz by (cases q) (auto intro!: exI [of _ k])
    qed
  qed
qed

end

section \<open>The simulated kernel meets the contract\<close>

abbreviation sim_piped :: "sim \<Rightarrow> bool" where
  "sim_piped w \<equiv> sim_pipe_open w \<and> sim_cap w = 1048576"

lemma sim_splice_in_law:
  assumes "sim_pipe w = []" "0 < sim_cap w"
  obtains (err) cs where "sim_script w \<noteq> []" "sim_do_splice 3 11 cnt w = Some (-1, w\<lparr>sim_script := cs\<rparr>)"
    | (moved) cs k where "k \<le> min (min (unat cnt) (sim_cap w)) (length (sim_rest 3 w))"
      "k = 0 \<Longrightarrow> cnt = 0 \<or> sim_rest 3 w = []"
      "sim_script w = [] \<Longrightarrow> cs = [] \<and> k = min (min (unat cnt) (sim_cap w)) (length (sim_rest 3 w))"
      "sim_do_splice 3 11 cnt w = Some (int k, w\<lparr>sim_script := cs, sim_pipe := take k (sim_rest 3 w),
          sim_pos := (sim_pos w)(3 := sim_pos w 3 + k)\<rparr>)"
proof -
  let ?want = "min (min (unat cnt) (sim_cap w)) (length (sim_rest 3 w))"
  obtain r w1 where grant: "sim_grant ?want w = (r, w1)" by fastforce
  have call: "sim_do_splice 3 11 cnt w = Some (r, if 0 \<le> r then w1\<lparr>sim_pipe := sim_pipe w1 @ take (nat r) (sim_rest 3 w),
                                           sim_pos := (sim_pos w1)(3 := sim_pos w 3 + nat r)\<rparr> else w1)"
    using assms grant by (simp add: sim_do_splice_def)
  from grant show thesis
  proof (cases rule: sim_grant_cases)
    case (err cs)
    moreover have "sim_script w \<noteq> []" using grant err(1) by (auto simp: sim_grant_def)
    ultimately show thesis using that(1) [of cs] call by simp
  next
    case (ok cs k)
    have "sim_script w = [] \<Longrightarrow> cs = [] \<and> k = ?want"
      using grant ok by (auto simp: sim_grant_def dest!: arg_cong [of _ _ sim_script])
    moreover have "cnt = 0 \<or> sim_rest 3 w = []" if "k = 0"
    proof (rule ccontr)
      assume "\<not> ?thesis"
      then have "?want \<noteq> 0" using assms(2) by (simp add: unat_gt_0 min_def)
      with ok(3) that show False by simp
    qed
    ultimately show thesis using that(2) [of k cs] ok call assms(1) by simp
  qed
qed

lemma sim_splice_out_law:
  assumes "sim_pipe w \<noteq> []"
  obtains (err) cs where "sim_script w \<noteq> []" "sim_do_splice 10 1 cnt w = Some (-1, w\<lparr>sim_script := cs\<rparr>)"
    | (moved) cs k where "k \<le> unat cnt" "k \<le> length (sim_pipe w)" "cnt \<noteq> 0 \<Longrightarrow> 0 < k"
      "sim_script w = [] \<Longrightarrow> cs = []"
      "sim_do_splice 10 1 cnt w = Some (int k, w\<lparr>sim_script := cs,
          sim_out := sim_out w @ take k (sim_pipe w), sim_pipe := drop k (sim_pipe w)\<rparr>)"
proof -
  let ?want = "min (unat cnt) (length (sim_pipe w))"
  obtain r w1 where grant: "sim_grant ?want w = (r, w1)" by fastforce
  have call: "sim_do_splice 10 1 cnt w = Some (r, if 0 \<le> r then w1\<lparr>sim_out := sim_out w1 @ take (nat r) (sim_pipe w1),
                                           sim_pipe := drop (nat r) (sim_pipe w1)\<rparr> else w1)"
    using assms grant by (simp add: sim_do_splice_def)
  from grant show thesis
  proof (cases rule: sim_grant_cases)
    case (err cs)
    moreover have "sim_script w \<noteq> []" using grant err(1) by (auto simp: sim_grant_def)
    ultimately show thesis using that(1) [of cs] call by simp
  next
    case (ok cs k)
    have "sim_script w = [] \<Longrightarrow> cs = []"
      using grant ok by (auto simp: sim_grant_def dest!: arg_cong [of _ _ sim_script])
    moreover have "0 < k" if "cnt \<noteq> 0"
    proof -
      have "?want \<noteq> 0" using that assms by (simp add: unat_gt_0 min_def)
      then show ?thesis by (rule ok(3))
    qed
    ultimately show thesis using that(2) [of k cs] ok call by simp
  qed
qed

interpretation sim_pipes: pipe_kernel sim_os 3 10 11 "sim_rest 3" sim_pipe sim_out sim_piped
proof
  fix w :: sim and cnt
  assume w: "sim_piped w" "sim_pipe w = []"
  then have "sim_pipe w = []" "0 < sim_cap w" by simp_all
  then show "\<exists>r w'. sys_splice sim_os 3 11 cnt w = Some (r, w') \<and> sim_piped w' \<and> sim_out w' = sim_out w \<and>
        (r = -1 \<and> sim_pipe w' = [] \<and> sim_rest 3 w' = sim_rest 3 w \<or>
         0 \<le> r \<and> nat r \<le> unat cnt \<and> nat r \<le> length (sim_rest 3 w) \<and>
         sim_pipe w' = take (nat r) (sim_rest 3 w) \<and> sim_rest 3 w' = drop (nat r) (sim_rest 3 w) \<and>
         (r = 0 \<longrightarrow> cnt = 0 \<or> sim_rest 3 w = []))"
    by (cases rule: sim_splice_in_law [of _ cnt]) (use w in \<open>auto simp: sim_rest_def add.commute\<close>)
next
  fix w :: sim and cnt
  assume w: "sim_piped w" "sim_pipe w \<noteq> []"
  from w(2) show "\<exists>r w'. sys_splice sim_os 10 STDOUT_FILENO cnt w = Some (r, w') \<and> sim_piped w' \<and>
        sim_rest 3 w' = sim_rest 3 w \<and>
        (r = -1 \<and> sim_pipe w' = sim_pipe w \<and> sim_out w' = sim_out w \<or>
         0 \<le> r \<and> nat r \<le> unat cnt \<and> nat r \<le> length (sim_pipe w) \<and>
         sim_out w' = sim_out w @ take (nat r) (sim_pipe w) \<and> sim_pipe w' = drop (nat r) (sim_pipe w) \<and>
         (cnt \<noteq> 0 \<longrightarrow> 0 < r))"
    by (cases rule: sim_splice_out_law [of _ cnt]) (use w in \<open>auto simp: sim_rest_def\<close>)
next
  fix w :: sim and cnt :: size_t
  assume "sim_piped w" "sim_pipe w = []"
  then show "sys_splice sim_os 10 STDOUT_FILENO cnt w = None"
    by (simp add: sim_do_splice_def)
qed

interpretation sim_full_pipes: full_pipe_kernel sim_os 3 10 11 "sim_rest 3" sim_pipe sim_out
  "\<lambda>w. sim_piped w \<and> sim_script w = []" 1048576
proof
  fix w :: sim and cnt
  assume w: "sim_piped w \<and> sim_script w = []" "sim_pipe w = []"
  then have "sim_pipe w = []" "0 < sim_cap w" by simp_all
  then show "\<exists>r w'. sys_splice sim_os 3 11 cnt w = Some (r, w') \<and> (sim_piped w' \<and> sim_script w' = []) \<and>
        sim_out w' = sim_out w \<and>
        (r = -1 \<and> sim_pipe w' = [] \<and> sim_rest 3 w' = sim_rest 3 w \<or>
         0 \<le> r \<and> nat r \<le> unat cnt \<and> nat r \<le> length (sim_rest 3 w) \<and>
         sim_pipe w' = take (nat r) (sim_rest 3 w) \<and> sim_rest 3 w' = drop (nat r) (sim_rest 3 w) \<and>
         (r = 0 \<longrightarrow> cnt = 0 \<or> sim_rest 3 w = []))"
    by (cases rule: sim_splice_in_law [of _ cnt]) (use w in \<open>auto simp: sim_rest_def add.commute\<close>)
next
  fix w :: sim and cnt
  assume w: "sim_piped w \<and> sim_script w = []" "sim_pipe w \<noteq> []"
  from w(2) show "\<exists>r w'. sys_splice sim_os 10 STDOUT_FILENO cnt w = Some (r, w') \<and>
        (sim_piped w' \<and> sim_script w' = []) \<and> sim_rest 3 w' = sim_rest 3 w \<and>
        (r = -1 \<and> sim_pipe w' = sim_pipe w \<and> sim_out w' = sim_out w \<or>
         0 \<le> r \<and> nat r \<le> unat cnt \<and> nat r \<le> length (sim_pipe w) \<and>
         sim_out w' = sim_out w @ take (nat r) (sim_pipe w) \<and> sim_pipe w' = drop (nat r) (sim_pipe w) \<and>
         (cnt \<noteq> 0 \<longrightarrow> 0 < r))"
    by (cases rule: sim_splice_out_law [of _ cnt]) (use w in \<open>auto simp: sim_rest_def\<close>)
next
  fix w :: sim and cnt :: size_t
  assume "sim_piped w \<and> sim_script w = []" "sim_pipe w = []" "cnt \<noteq> 0"
  then show "sys_splice sim_os 10 STDOUT_FILENO cnt w = None"
    by (simp add: sim_do_splice_def)
next
  fix w w' :: sim and cnt :: size_t and r
  assume w: "sim_piped w \<and> sim_script w = []" "sim_pipe w = []" and cnt: "cnt \<le> 1048576"
    and call: "sys_splice sim_os 3 11 cnt w = Some (r, w')"
  have le: "unat cnt \<le> 1048576" using cnt by (simp add: word_le_nat_alt)
  have "sim_pipe w = []" "0 < sim_cap w" using w by simp_all
  then show "nat r = min (unat cnt) (length (sim_rest 3 w))"
    by (cases rule: sim_splice_in_law [of _ cnt]) (use w call le in auto)
qed simp

interpretation sim_splice: splice_kernel sim_os 3 10 11 "sim_rest 3" sim_pipe sim_out
  "\<lambda>w. sim_piped w \<and> sim_script w = []" 1048576 "\<lambda>w. sim_cap w = 1048576 \<and> sim_script w = []" 1048576
  by unfold_locales (auto simp: sim_rest_def)

section \<open>Properties\<close>

text \<open>
  The splice source and sink joined by their pipe, when no splice into the empty pipe is
  short: the pair returns, on success standard output has received the whole file in order
  and the result is its size, on an error a prefix of it has been received.
\<close>

theorem splice_pair_copies:
  assumes "splice_kernel os fd rp wp rest pipe out good pipe_size start psize" "start w" "unat sz = length (rest w)"
  shows "\<exists>r w' k. splice_source_node os (splice_sink_node os) fd sz w = Some (r, w') \<and>
      k \<le> length (rest w) \<and> out w' = out w @ take k (rest w) \<and>
      (case r of Inr n \<Rightarrow> n = sz \<and> out w' = out w @ rest w | Inl e \<Rightarrow> True)"
  using assms by (rule splice_kernel.splice_node_total)

theorem splice_pair_copies_witness:
  "splice_kernel sim_os 3 10 11 (sim_rest 3) sim_pipe sim_out (\<lambda>w. sim_piped w \<and> sim_script w = []) 1048576
     (\<lambda>w. sim_cap w = 1048576 \<and> sim_script w = []) 1048576 \<and>
   (\<exists>r w' k. splice_source_node sim_os (splice_sink_node sim_os) 3 5 (sim_hello []) = Some (r, w') \<and>
      k \<le> length ''hello'' \<and> sim_out w' = take k ''hello'' \<and>
      (case r of Inr n \<Rightarrow> n = 5 \<and> sim_out w' = ''hello'' | Inl e \<Rightarrow> True))"
  using splice_pair_copies [OF sim_splice.splice_kernel_axioms, where w = "sim_hello []" and sz = 5]
    sim_splice.splice_kernel_axioms
  by (auto simp: sim_hello_def sim0_def sim_rest_def cong: sum.case_cong)

text \<open>
  C32. After a short splice into the pipe the sink is told to drain more than there is: the
  pair never succeeds, it waits for ever on the empty pipe or fails.
\<close>

theorem splice_pair_short_splice:
  assumes "pipe_kernel os fd rp wp rest pipe out good" "good w" "pipe w = []" "offset \<noteq> sz"
    and "sys_splice os fd wp (min pipe_size (sz - offset)) w = Some (r, w1)"
    and "0 < r" "nat r < unat (min pipe_size (sz - offset))"
  shows "splice_source_loop os (splice_sink_node os) fd wp rp pipe_size sz acc offset w = None \<or>
    (\<exists>w'. splice_source_loop os (splice_sink_node os) fd wp rp pipe_size sz acc offset w =
        Some (Inl ''failed to splice'', w'))"
  using assms by (rule pipe_kernel.short_splice_never_succeeds)

theorem splice_pair_short_splice_witness:
  "pipe_kernel sim_os 3 10 11 (sim_rest 3) sim_pipe sim_out sim_piped \<and>
   (splice_source_loop sim_os (splice_sink_node sim_os) 3 11 10 1048576 5 0 0
        ((sim_hello [2])\<lparr>sim_pipe_open := True\<rparr>) = None \<or>
    (\<exists>w'. splice_source_loop sim_os (splice_sink_node sim_os) 3 11 10 1048576 5 0 0
        ((sim_hello [2])\<lparr>sim_pipe_open := True\<rparr>) = Some (Inl ''failed to splice'', w')))"
proof
  show "pipe_kernel sim_os 3 10 11 (sim_rest 3) sim_pipe sim_out sim_piped"
    by (rule sim_pipes.pipe_kernel_axioms)
  let ?w = "(sim_hello [2])\<lparr>sim_pipe_open := True\<rparr>"
  show "splice_source_loop sim_os (splice_sink_node sim_os) 3 11 10 1048576 5 0 0 ?w = None \<or>
    (\<exists>w'. splice_source_loop sim_os (splice_sink_node sim_os) 3 11 10 1048576 5 0 0 ?w =
        Some (Inl ''failed to splice'', w'))"
    by (rule splice_pair_short_splice [OF sim_pipes.pipe_kernel_axioms, where r = 2
          and ?w1.0 = "?w\<lparr>sim_script := [], sim_pipe := ''he'', sim_pos := (\<lambda>_. 0)(3 := Suc (Suc 0))\<rparr>"])
      (simp_all add: sim_do_splice_def sim_grant_def sim_hello_def sim0_def sim_rest_def)
qed

end
