(* ===== verification/Tree_Sitter.thy ===== *)
theory Tree_Sitter
  imports Pipeline
begin

section \<open>The syntax highlighting transform\<close>

text \<open>
  \<^verbatim>\<open>transform/tree_sitter.h\<close>. The tree-sitter library is a parameter \<open>ts\<close>: which of its objects
  could be created, the capture names of the query, and for a text the captures the query
  cursor yields, in order. Everything after that is modelled: the colour of a capture name,
  the colour mask painted capture by capture, the cut of the mask into runs of one colour and
  the escape sequences put before each run. A \<^verbatim>\<open>memset\<close> outside the mask has no defined
  result (\<open>None\<close>). The terminal at the end is a specification, not code of the repository.
\<close>

record capture =
  cap_index :: nat
  start_byte :: nat
  end_byte :: nat

record tree_sitter =
  parser_new :: bool
  set_language :: bool
  query_new :: bool
  query_error :: nat
  cursor_new :: bool
  capture_names :: "string list"
  parse_string :: "bytes \<Rightarrow> capture list option"

definition reset_code :: bytes where
  "reset_code = CHR 0x1B # ''[0m''"

definition colours :: "bytes list" where
  "colours = [[], CHR 0x1B # ''[35m'', CHR 0x1B # ''[34m'', CHR 0x1B # ''[33m'', CHR 0x1B # ''[36m'']"

definition capture_colour :: "string \<Rightarrow> nat" where
  "capture_colour name =
     (if name = ''keyword'' then 1
      else if name = ''function'' then 2
      else if name = ''string'' then 3
      else if name = ''variable'' then 4
      else 0)"

fun paint :: "nat list \<Rightarrow> capture list \<Rightarrow> nat list \<Rightarrow> nat list option" where
  "paint cc [] cmask = Some cmask"
| "paint cc (c # cs) cmask =
     (let colour_id = (if cap_index c < length cc then cc ! cap_index c else 0) in
      if colour_id = 0 then paint cc cs cmask
      else if start_byte c \<le> end_byte c \<and> end_byte c \<le> length cmask then
        paint cc cs (take (start_byte c) cmask @ replicate (end_byte c - start_byte c) colour_id @
                     drop (end_byte c) cmask)
      else None)"

text \<open>\<^verbatim>\<open>views::chunk_by(std::equal_to{})\<close>: runs of equal elements.\<close>

function chunk_by_equal :: "'a list \<Rightarrow> 'a list list" where
  "chunk_by_equal [] = []"
| "chunk_by_equal (x # xs) =
     takeWhile (\<lambda>y. y = x) (x # xs) # chunk_by_equal (dropWhile (\<lambda>y. y = x) (x # xs))"
  by pat_completeness auto
termination
  by (relation "measure length") (auto simp: less_Suc_eq_le length_dropWhile_le)

fun format_chunks :: "bytes \<Rightarrow> nat list list \<Rightarrow> nat \<Rightarrow> bytes \<Rightarrow> bytes expected" where
  "format_chunks data [] index formatted = Inr formatted"
| "format_chunks data (chunk # chunks) index formatted =
     (let colour_id = hd chunk in
      if colour_id \<ge> length colours then Inl (''unknown colour id: '' @ show_nat colour_id)
      else format_chunks data chunks (index + length chunk)
             (formatted @ colours ! colour_id @ take (length chunk) (drop index data)))"

definition tree_sitter_node :: "tree_sitter \<Rightarrow> (bytes, 's) stage \<Rightarrow> (bytes, 's) stage" where
  "tree_sitter_node ts next data s =
     (if \<not> parser_new ts then Some (Inl ''failed to create parser'', s)
      else if \<not> set_language ts then Some (Inl ''failed to set language'', s)
      else if \<not> query_new ts \<or> query_error ts \<noteq> 0 then
        Some (Inl (''failed to create query: '' @ show_nat (query_error ts)), s)
      else if \<not> cursor_new ts then Some (Inl ''failed to create cursor'', s)
      else
        (let capture_colours = map capture_colour (capture_names ts) in
         case parse_string ts data of
           None \<Rightarrow> Some (Inl ''failed to parse string'', s)
         | Some captures \<Rightarrow>
             (case paint capture_colours captures (replicate (length data) 0) of
                None \<Rightarrow> None
              | Some colour_mask \<Rightarrow>
                  (case format_chunks data (chunk_by_equal colour_mask) 0 [] of
                     Inl e \<Rightarrow> Some (Inl e, s)
                   | Inr formatted \<Rightarrow> next (formatted @ reset_code) s))))"

text \<open>A parameter for examples: one keyword of three bytes.\<close>

definition ts_demo :: tree_sitter where
  "ts_demo = \<lparr>parser_new = True, set_language = True, query_new = True, query_error = 0, cursor_new = True,
     capture_names = [''keyword'', ''comment''],
     parse_string = (\<lambda>d. if length d < 5 then None
       else Some [\<lparr>cap_index = 0, start_byte = 0, end_byte = 3\<rparr>, \<lparr>cap_index = 1, start_byte = 4, end_byte = 5\<rparr>])\<rparr>"

section \<open>The mask\<close>

lemma paint_length: "paint cc cs cmask = Some m \<Longrightarrow> length m = length cmask"
  by (induction cc cs cmask rule: paint.induct) (auto simp: Let_def split: if_splits)

lemma capture_colour_bound: "capture_colour name < length colours"
  by (simp add: capture_colour_def colours_def)

lemma paint_bound:
  assumes "paint cc cs cmask = Some m" "\<forall>c \<in> set cc. c < b" "\<forall>x \<in> set cmask. x < b"
  shows "\<forall>x \<in> set m. x < b"
  using assms
proof (induction cc cs cmask rule: paint.induct)
  case (2 cc c cs cmask)
  let ?id = "if cap_index c < length cc then cc ! cap_index c else 0"
  show ?case
  proof (cases "?id = 0")
    case True
    then show ?thesis using "2.IH"(1) [OF refl True] "2.prems" by (simp add: Let_def)
  next
    case False
    then have "?id < b" using "2.prems"(2) by (auto split: if_splits)
    then have "\<forall>x \<in> set (take (start_byte c) cmask @ replicate (end_byte c - start_byte c) ?id @
                     drop (end_byte c) cmask). x < b"
      using "2.prems"(3) by (auto dest: in_set_takeD in_set_dropD)
    then show ?thesis
      using "2.IH"(2) [OF refl False] "2.prems"(1,2) False by (auto simp: Let_def split: if_splits)
  qed
qed auto

text \<open>Painting succeeds exactly when the coloured captures lie inside the text.\<close>

definition captures_inside :: "nat list \<Rightarrow> capture list \<Rightarrow> nat \<Rightarrow> bool" where
  "captures_inside cc cs n \<longleftrightarrow>
     (\<forall>c \<in> set cs. cap_index c < length cc \<and> cc ! cap_index c \<noteq> 0 \<longrightarrow>
        start_byte c \<le> end_byte c \<and> end_byte c \<le> n)"

lemma paint_defined: "captures_inside cc cs (length cmask) \<Longrightarrow> \<exists>m. paint cc cs cmask = Some m"
  by (induction cc cs cmask rule: paint.induct) (auto simp: captures_inside_def Let_def)

text \<open>The colour of a byte is that of the last coloured capture that covers it.\<close>

fun last_colour :: "nat list \<Rightarrow> capture list \<Rightarrow> nat \<Rightarrow> nat \<Rightarrow> nat" where
  "last_colour cc [] i d = d"
| "last_colour cc (c # cs) i d =
     last_colour cc cs i
       (if cap_index c < length cc \<and> cc ! cap_index c \<noteq> 0 \<and> start_byte c \<le> i \<and> i < end_byte c
        then cc ! cap_index c else d)"

lemma paint_pointwise:
  assumes "paint cc cs cmask = Some m" "i < length cmask"
  shows "m ! i = last_colour cc cs i (cmask ! i)"
  using assms
proof (induction cc cs cmask rule: paint.induct)
  case (2 cc c cs cmask)
  let ?id = "if cap_index c < length cc then cc ! cap_index c else 0"
  show ?case
  proof (cases "?id = 0")
    case True
    then show ?thesis
      using "2.IH"(1) [OF refl True] "2.prems" by (auto simp: Let_def split: if_splits)
  next
    case False
    then have in_range: "start_byte c \<le> end_byte c" "end_byte c \<le> length cmask"
      using "2.prems"(1) by (auto simp: Let_def split: if_splits)
    let ?mask = "take (start_byte c) cmask @ replicate (end_byte c - start_byte c) ?id @ drop (end_byte c) cmask"
    have "?mask ! i = (if start_byte c \<le> i \<and> i < end_byte c then ?id else cmask ! i)"
      using in_range "2.prems"(2) by (auto simp: nth_append min_def)
    moreover have "paint cc cs ?mask = Some m" "length ?mask = length cmask"
      using "2.prems"(1) False in_range by (simp_all add: Let_def)
    then have "m ! i = last_colour cc cs i (?mask ! i)"
      using "2.IH"(2) [OF refl False] "2.prems"(2) in_range by simp
    ultimately show ?thesis using False by (simp split: if_splits)
  qed
qed simp

section \<open>The formatted text\<close>

lemma chunk_by_equal_concat: "concat (chunk_by_equal xs) = xs"
  by (induction xs rule: chunk_by_equal.induct) (auto simp: takeWhile_dropWhile_id)

lemma chunk_by_equal_run:
  "c \<in> set (chunk_by_equal xs) \<Longrightarrow> \<exists>n x. c = replicate (Suc n) x \<and> x \<in> set xs"
proof (induction xs rule: chunk_by_equal.induct)
  case (2 x xs)
  let ?run = "takeWhile (\<lambda>y. y = x) (x # xs)"
  have "?run = replicate (length ?run) x"
    by (metis (mono_tags, lifting) replicate_length_same set_takeWhileD)
  then have run: "?run = replicate (Suc (length (takeWhile (\<lambda>y. y = x) xs))) x" by simp
  show ?case
  proof (cases "c = ?run")
    case True
    then show ?thesis using run by (metis list.set_intros(1))
  next
    case False
    then have "c \<in> set (chunk_by_equal (dropWhile (\<lambda>y. y = x) (x # xs)))" using "2.prems" by simp
    then show ?thesis using "2.IH" by (meson set_dropWhileD)
  qed
qed simp

text \<open>The runs of the mask with the bytes they cover.\<close>

fun segments :: "bytes \<Rightarrow> nat list list \<Rightarrow> (nat \<times> bytes) list" where
  "segments data [] = []"
| "segments data (ch # chs) = (hd ch, take (length ch) data) # segments (drop (length ch) data) chs"

definition render :: "(nat \<times> bytes) list \<Rightarrow> bytes" where
  "render segs = concat (map (\<lambda>(c, bs). colours ! c @ bs) segs)"

lemma format_chunks_eq:
  assumes "\<forall>c \<in> set chs. hd c < length colours"
  shows "format_chunks data chs index formatted = Inr (formatted @ render (segments (drop index data) chs))"
  using assms
  by (induction chs arbitrary: index formatted)
    (auto simp: render_def Let_def not_le add.commute)

lemma segments_text: "concat chs = cmask \<Longrightarrow> length cmask = length data \<Longrightarrow> concat (map snd (segments data chs)) = data"
  by (induction chs arbitrary: data cmask) auto

text \<open>
  A terminal: an escape sequence of the table sets the colour, the reset sequence clears it,
  any other byte is shown in the current colour.
\<close>

definition code_of :: "bytes \<Rightarrow> (nat \<times> nat) option" where
  "code_of bs =
     (if take 4 bs = reset_code then Some (0, 4)
      else if take 5 bs = colours ! 1 then Some (1, 5)
      else if take 5 bs = colours ! 2 then Some (2, 5)
      else if take 5 bs = colours ! 3 then Some (3, 5)
      else if take 5 bs = colours ! 4 then Some (4, 5)
      else None)"

function terminal :: "nat \<Rightarrow> bytes \<Rightarrow> (char \<times> nat) list" where
  "terminal cur [] = []"
| "terminal cur (b # bs) =
     (case code_of (b # bs) of
        Some (c, n) \<Rightarrow> terminal c (drop n (b # bs))
      | None \<Rightarrow> (b, cur) # terminal cur bs)"
  by pat_completeness auto
termination
  by (relation "measure (\<lambda>(c, bs). length bs)") (auto simp: code_of_def split: if_splits)

text \<open>What the mask amounts to on a terminal: colour 0 writes no escape sequence.\<close>

fun carried :: "nat \<Rightarrow> nat list \<Rightarrow> nat list" where
  "carried cur [] = []"
| "carried cur (m # ms) = (let c = (if m = 0 then cur else m) in c # carried c ms)"

lemma terminal_plain:
  "CHR 0x1B \<notin> set bs \<Longrightarrow> terminal cur (bs @ rest) = map (\<lambda>b. (b, cur)) bs @ terminal cur rest"
  by (induction bs) (auto simp: code_of_def reset_code_def colours_def)

lemma terminal_colour:
  assumes "c < length colours"
  shows "terminal cur (colours ! c @ rest) = terminal (if c = 0 then cur else c) rest"
proof -
  consider "c = 0" | "c = 1" | "c = 2" | "c = 3" | "c = 4"
    using assms by (auto simp: colours_def less_Suc_eq)
  then show ?thesis
    by cases (simp_all add: colours_def code_of_def reset_code_def)
qed

lemma terminal_reset: "terminal cur reset_code = []"
  by (simp add: reset_code_def code_of_def)

lemma carried_run:
  "carried cur (replicate (Suc n) x @ ms) =
     replicate (Suc n) (if x = 0 then cur else x) @ carried (if x = 0 then cur else x) ms"
  by (induction n arbitrary: cur) (auto simp: Let_def)

lemma terminal_segments:
  assumes "\<forall>ch \<in> set chs. \<exists>n x. ch = replicate (Suc n) x \<and> x < length colours"
    and "length (concat chs) = length data" "CHR 0x1B \<notin> set data"
  shows "terminal cur (render (segments data chs) @ reset_code) = zip data (carried cur (concat chs))"
  using assms
proof (induction chs arbitrary: data cur)
  case Nil
  then show ?case by (simp add: render_def terminal_reset)
next
  case (Cons ch chs)
  obtain n x where ch: "ch = replicate (Suc n) x" and x: "x < length colours"
    using Cons.prems(1) by (metis list.set_intros(1))
  let ?c = "if x = 0 then cur else x"
  let ?d1 = "take (Suc n) data" and ?d2 = "drop (Suc n) data"
  have len: "length ?d1 = Suc n" "length (concat chs) = length ?d2"
    using Cons.prems(2) ch by auto
  have esc: "CHR 0x1B \<notin> set ?d1" "CHR 0x1B \<notin> set ?d2"
    using Cons.prems(3) by (auto dest: in_set_takeD in_set_dropD)
  have "render (segments data (ch # chs)) @ reset_code =
      colours ! x @ ?d1 @ render (segments ?d2 chs) @ reset_code"
    using ch by (simp add: render_def)
  then have "terminal cur (render (segments data (ch # chs)) @ reset_code) =
      map (\<lambda>b. (b, ?c)) ?d1 @ terminal ?c (render (segments ?d2 chs) @ reset_code)"
    by (simp only: terminal_colour [OF x] terminal_plain [OF esc(1)])
  also have "terminal ?c (render (segments ?d2 chs) @ reset_code) = zip ?d2 (carried ?c (concat chs))"
    using Cons.IH len(2) esc(2) Cons.prems(1) by simp
  also have "map (\<lambda>b. (b, ?c)) ?d1 = zip ?d1 (replicate (Suc n) ?c)"
    by (simp only: zip_replicate2 take_take min.idem)
  finally have "terminal cur (render (segments data (ch # chs)) @ reset_code) =
      zip ?d1 (replicate (Suc n) ?c) @ zip ?d2 (carried ?c (concat chs))" .
  also have "\<dots> = zip (?d1 @ ?d2) (replicate (Suc n) ?c @ carried ?c (concat chs))"
    using len(1) by (subst zip_append) simp_all
  also have "replicate (Suc n) ?c @ carried ?c (concat chs) = carried cur (concat (ch # chs))"
    using ch carried_run [of cur n x "concat chs"] by simp
  finally show ?case by (simp only: append_take_drop_id)
qed

text \<open>The formatted text of a painted mask, and what the node does with it.\<close>

lemma mask_chunks:
  assumes "\<forall>x \<in> set cmask. x < length colours" "ch \<in> set (chunk_by_equal cmask)"
  shows "\<exists>n x. ch = replicate (Suc n) x \<and> x < length colours"
  using chunk_by_equal_run [OF assms(2)] assms(1) by blast

lemma tree_sitter_node_formats:
  assumes "parser_new ts" "set_language ts" "query_new ts" "query_error ts = 0" "cursor_new ts"
    and "parse_string ts data = Some cs"
    and "captures_inside (map capture_colour (capture_names ts)) cs (length data)"
  shows "\<exists>cmask. length cmask = length data \<and> (\<forall>x \<in> set cmask. x < length colours) \<and>
     (\<forall>i < length data. cmask ! i = last_colour (map capture_colour (capture_names ts)) cs i 0) \<and>
     tree_sitter_node ts next data s = next (render (segments data (chunk_by_equal cmask)) @ reset_code) s"
proof -
  let ?cc = "map capture_colour (capture_names ts)"
  obtain cmask where paint: "paint ?cc cs (replicate (length data) 0) = Some cmask"
    using paint_defined [of ?cc cs "replicate (length data) 0"] assms(7) by auto
  have bound: "\<forall>x \<in> set cmask. x < length colours"
    using paint_bound [OF paint] capture_colour_bound by (auto simp: colours_def)
  have "\<forall>c \<in> set (chunk_by_equal cmask). hd c < length colours"
    using mask_chunks [OF bound] by fastforce
  then have "format_chunks data (chunk_by_equal cmask) 0 [] = Inr (render (segments data (chunk_by_equal cmask)))"
    by (simp add: format_chunks_eq)
  then have "tree_sitter_node ts next data s = next (render (segments data (chunk_by_equal cmask)) @ reset_code) s"
    using assms paint by (simp add: tree_sitter_node_def)
  moreover have "length cmask = length data" using paint_length [OF paint] by simp
  moreover have "\<forall>i < length data. cmask ! i = last_colour ?cc cs i 0"
    using paint_pointwise [OF paint] by simp
  ultimately show ?thesis using bound by blast
qed

section \<open>The transform as a stage\<close>

text \<open>The text the transform makes of a chunk.\<close>

definition highlight :: "tree_sitter \<Rightarrow> bytes \<Rightarrow> bytes" where
  "highlight ts data =
     (case parse_string ts data of
        None \<Rightarrow> []
      | Some cs \<Rightarrow>
          render (segments data (chunk_by_equal
            (map (\<lambda>i. last_colour (map capture_colour (capture_names ts)) cs i 0) [0..<length data]))) @ reset_code)"

lemma tree_sitter_node_fails:
  assumes "\<not> parser_new ts \<or> \<not> set_language ts \<or> \<not> query_new ts \<or> query_error ts \<noteq> 0 \<or> \<not> cursor_new ts \<or>
    parse_string ts data = None"
  shows "\<exists>e. tree_sitter_node ts nxt data s = Some (Inl e, s) \<and>
    e \<in> {''failed to create parser'', ''failed to set language'',
         ''failed to create query: '' @ show_nat (query_error ts), ''failed to create cursor'', ''failed to parse string''}"
  using assms by (auto simp: tree_sitter_node_def Let_def)

lemma tree_sitter_node_cases:
  assumes "\<And>cs. parse_string ts data = Some cs \<Longrightarrow>
      captures_inside (map capture_colour (capture_names ts)) cs (length data)"
  obtains (fail) e where "tree_sitter_node ts nxt data s = Some (Inl e, s)"
    | (okay) "tree_sitter_node ts nxt data s = nxt (highlight ts data) s"
proof (cases "\<not> parser_new ts \<or> \<not> set_language ts \<or> \<not> query_new ts \<or> query_error ts \<noteq> 0 \<or> \<not> cursor_new ts \<or>
    parse_string ts data = None")
  case True
  then show thesis using tree_sitter_node_fails [OF True, of nxt s] fail by blast
next
  case False
  then obtain cs where Some: "parse_string ts data = Some cs" by auto
  let ?colour = "\<lambda>i. last_colour (map capture_colour (capture_names ts)) cs i 0"
  have "\<exists>cmask. length cmask = length data \<and> (\<forall>x \<in> set cmask. x < length colours) \<and>
     (\<forall>i < length data. cmask ! i = ?colour i) \<and>
     tree_sitter_node ts nxt data s = nxt (render (segments data (chunk_by_equal cmask)) @ reset_code) s"
    using False Some by (intro tree_sitter_node_formats assms) simp_all
  then obtain cmask where m: "length cmask = length data" "\<forall>i < length data. cmask ! i = ?colour i"
    "tree_sitter_node ts nxt data s = nxt (render (segments data (chunk_by_equal cmask)) @ reset_code) s"
    by (elim exE conjE)
  have "cmask = map ?colour [0..<length data]"
    using m(1,2) by (intro nth_equalityI) simp_all
  with m(3) Some show thesis using okay by (simp add: highlight_def)
qed

lemma render_length:
  assumes "\<forall>ch \<in> set chs. ch \<noteq> [] \<and> hd ch < length colours"
  shows "length (render (segments data chs)) \<le> 5 * length (concat chs) + length data"
  using assms
proof (induction chs arbitrary: data)
  case (Cons ch chs)
  have "length (colours ! hd ch) \<le> 5" "0 < length ch"
    using Cons.prems by (auto simp: colours_def less_Suc_eq numeral_eq_Suc)
  moreover have "length (render (segments data (ch # chs))) = length (colours ! hd ch) + min (length data) (length ch) +
      length (render (segments (drop (length ch) data) chs))"
    by (simp add: render_def)
  moreover have "length (render (segments (drop (length ch) data) chs)) \<le> 5 * length (concat chs) + (length data - length ch)"
    using Cons.IH [of "drop (length ch) data"] Cons.prems by simp
  ultimately show ?case unfolding concat.simps length_append by arith
qed (simp add: render_def)

lemma last_colour_bound: "\<forall>c \<in> set cc. c < b \<Longrightarrow> d < b \<Longrightarrow> last_colour cc cs i d < b"
  by (induction cc cs i d rule: last_colour.induct) auto

lemma highlight_length: "length (highlight ts data) \<le> 6 * length data + 4"
proof (cases "parse_string ts data")
  case (Some cs)
  let ?mask = "map (\<lambda>i. last_colour (map capture_colour (capture_names ts)) cs i 0) [0..<length data]"
  have "\<forall>x \<in> set ?mask. x < length colours"
    using capture_colour_bound by (auto intro!: last_colour_bound simp: colours_def)
  then have "\<forall>ch \<in> set (chunk_by_equal ?mask). ch \<noteq> [] \<and> hd ch < length colours"
    using mask_chunks by fastforce
  from render_length [OF this, of data] show ?thesis
    using Some by (simp add: highlight_def chunk_by_equal_concat reset_code_def)
qed (simp add: highlight_def)

text \<open>In front of a stage that passes text on, with captures that lie inside the text they were found in.\<close>

locale highlighter = emitter nxt good view out "\<lambda>d. d" lim
  for nxt :: "(bytes, 's) stage" and good :: "'s \<Rightarrow> bool"
    and view :: "'s \<Rightarrow> bytes" and out :: "'s \<Rightarrow> bytes" and lim :: nat +
  fixes ts :: tree_sitter
  assumes captures: "parse_string ts data = Some cs \<Longrightarrow>
      captures_inside (map capture_colour (capture_names ts)) cs (length data)"
    and lim_reset: "4 \<le> lim"

sublocale highlighter \<subseteq> hl: emitter "tree_sitter_node ts nxt" good view out "highlight ts" "(lim - 4) div 6"
proof
  fix s :: 's and d :: bytes
  assume good: "good s"
  then show "prefix (out s) (view s)" by (rule out_view)
  assume "length d \<le> (lim - 4) div 6"
  then have len: "length (highlight ts d) \<le> lim" using highlight_length [of ts d] lim_reset by linarith
  show "\<exists>r s'. tree_sitter_node ts nxt d s = Some (r, s') \<and> prefix (out s') (view s @ highlight ts d) \<and>
      (case r of Inr k \<Rightarrow> good s' \<and> view s' = view s @ highlight ts d | Inl e \<Rightarrow> True)"
  proof -
    consider (fail) e where "tree_sitter_node ts nxt d s = Some (Inl e, s)"
      | (okay) "tree_sitter_node ts nxt d s = nxt (highlight ts d) s"
      by (rule tree_sitter_node_cases [of ts d nxt s, OF captures])
    then show ?thesis
    proof cases
      case (fail e)
      then show ?thesis using out_view [OF good] by (simp add: prefix_prefix)
    next
      case okay
      then show ?thesis using emit_law [OF good len] by simp
    qed
  qed
qed

section \<open>Properties\<close>

text \<open>
  C21. The highlighting transform, with a working tree-sitter whose captures lie inside the text:
  the next stage gets one formatted buffer. On a terminal that buffer shows exactly the bytes of
  the text (when the text has no escape bytes of its own), each in the colour of the last
  coloured capture that covers it; a byte no coloured capture covers has the colour of the
  byte before it, because the table has no escape sequence for going back to plain.
\<close>

theorem highlighting_shows_the_text:
  assumes "parser_new ts" "set_language ts" "query_new ts" "query_error ts = 0" "cursor_new ts"
    and "parse_string ts data = Some cs"
    and "captures_inside (map capture_colour (capture_names ts)) cs (length data)"
    and "CHR 0x1B \<notin> set data"
  shows "\<exists>formatted. tree_sitter_node ts nxt data s = nxt formatted s \<and>
     terminal 0 formatted =
       zip data (carried 0 (map (\<lambda>i. last_colour (map capture_colour (capture_names ts)) cs i 0) [0..<length data]))"
proof -
  let ?colour = "\<lambda>i. last_colour (map capture_colour (capture_names ts)) cs i 0"
  obtain cmask where m: "length cmask = length data" "\<forall>x \<in> set cmask. x < length colours"
     "\<forall>i < length data. cmask ! i = ?colour i"
     "tree_sitter_node ts nxt data s = nxt (render (segments data (chunk_by_equal cmask)) @ reset_code) s"
    using tree_sitter_node_formats [OF assms(1-7), of nxt s] by (elim exE conjE)
  have cmask: "cmask = map ?colour [0..<length data]"
    using m(1,3) by (intro nth_equalityI) simp_all
  have runs: "\<forall>ch \<in> set (chunk_by_equal cmask). \<exists>n x. ch = replicate (Suc n) x \<and> x < length colours"
    using mask_chunks [OF m(2)] by blast
  have "terminal 0 (render (segments data (chunk_by_equal cmask)) @ reset_code) = zip data (carried 0 cmask)"
    using terminal_segments [OF runs _ assms(8), of 0] m(1) by (simp only: chunk_by_equal_concat)
  with m(4) show ?thesis unfolding cmask [symmetric] by (intro exI conjI)
qed

theorem highlighting_shows_the_text_witness:
  "\<exists>formatted. tree_sitter_node ts_demo (\<lambda>d s. Some (Inr (size_of d), s @ d)) ''int x'' [] =
       (\<lambda>d s. Some (Inr (size_of d), s @ d)) formatted [] \<and>
     terminal 0 formatted = zip ''int x'' [1, 1, 1, 1, 1]"
  using highlighting_shows_the_text [where ts = ts_demo and data = "''int x''"
      and cs = "[\<lparr>cap_index = 0, start_byte = 0, end_byte = 3\<rparr>, \<lparr>cap_index = 1, start_byte = 4, end_byte = 5\<rparr>]"
      and nxt = "\<lambda>d s. Some (Inr (size_of d), s @ d)" and s = "[]"]
  by (simp add: ts_demo_def captures_inside_def capture_colour_def upt_rec numeral_eq_Suc)

text \<open>
  A tree-sitter object that cannot be created, a query with an error and a failed parse are
  reported, each with its own message, and nothing is passed on.
\<close>

theorem highlighting_errors:
  assumes "\<not> parser_new ts \<or> \<not> set_language ts \<or> \<not> query_new ts \<or> query_error ts \<noteq> 0 \<or> \<not> cursor_new ts \<or>
    parse_string ts data = None"
  shows "\<exists>e. tree_sitter_node ts nxt data s = Some (Inl e, s) \<and>
    e \<in> {''failed to create parser'', ''failed to set language'',
         ''failed to create query: '' @ show_nat (query_error ts), ''failed to create cursor'', ''failed to parse string''}"
  using assms by (rule tree_sitter_node_fails)

theorem highlighting_errors_witness:
  "\<exists>e. tree_sitter_node (ts_demo\<lparr>query_error := 3\<rparr>) (\<lambda>d s. None) ''int x'' () = Some (Inl e, ()) \<and>
    e \<in> {''failed to create parser'', ''failed to set language'',
         ''failed to create query: '' @ show_nat 3, ''failed to create cursor'', ''failed to parse string''}"
  using highlighting_errors [where ts = "ts_demo\<lparr>query_error := 3\<rparr>" and data = "''int x''" and nxt = "\<lambda>d s. None" and s = "()"]
  by (simp add: ts_demo_def)

end
