(* ===== verification/Cat.thy ===== *)
theory Cat
  imports Splice_Pipe Tree_Sitter
begin

section \<open>The cat command\<close>

text \<open>
  \<^verbatim>\<open>config/config.h\<close> and \<^verbatim>\<open>commands/cat.h\<close>: opening the file, choosing a pipeline from the modes of
  the input and of standard output, running it, and closing the file on every way out.
  An exception is an \<open>outcome\<close>; unwinding runs the destructor of the file handle.
  Both branches of the last \<^verbatim>\<open>else\<close> return, so the two statements at the end of \<^verbatim>\<open>cat\<close> are never
  reached and have no counterpart here.
\<close>

record config =
  colour_output :: bool

definition load_config :: "'w os \<Rightarrow> 'w \<Rightarrow> config" where
  "load_config os w =
     \<lparr>colour_output = (\<not> (os_getenv os w ''NO_COLOUR'' \<noteq> None \<or> os_getenv os w ''NO_COLOR'' \<noteq> None))\<rparr>"

record File =
  file_fd :: "int auto_release"
  file_size :: size_t
  file_mode :: mode

definition open_file :: "'w os \<Rightarrow> string \<Rightarrow> 'w \<Rightarrow> File outcome \<times> 'w" where
  "open_file os path w =
     (case sys_openat os AT_FDCWD path (O_RDONLY OR O_NOATIME) w of
        (r, w1) \<Rightarrow>
          (let fd = ar_make r in
           if \<not> ar_bool (-1) fd then (Threw (Runtime_Error (''failed to open: '' @ path)), fd_destroy os fd w1)
           else
             (case sys_statx os (ar_get fd) w1 of
                ((rc, stx), w2) \<Rightarrow>
                  (if rc \<noteq> 0 then
                     (Threw (Runtime_Error (''failed to statx file: '' @ os_strerror os (os_errno os w2))),
                      fd_destroy os fd w2)
                   else
                     (case sys_fadvise os (ar_get fd) (stx_size stx) w2 of
                        (rc2, w3) \<Rightarrow>
                          (if rc2 \<noteq> 0 then
                             (Threw (Runtime_Error (''failed to advise: '' @ os_strerror os (os_errno os w3))),
                              fd_destroy os fd w3)
                           else
                             (Returned \<lparr>file_fd = fd, file_size = stx_size stx, file_mode = stx_mode stx\<rparr>, w3)))))))"

definition can_copy_file_range :: "mode \<Rightarrow> mode \<Rightarrow> bool" where
  "can_copy_file_range in_mode out_mode \<longleftrightarrow> S_ISREG in_mode \<and> S_ISREG out_mode"

definition can_middleman_splice :: "mode \<Rightarrow> bool" where
  "can_middleman_splice out_mode \<longleftrightarrow> S_ISCHR out_mode \<or> S_ISREG out_mode"

definition can_direct_pipe :: "mode \<Rightarrow> bool" where
  "can_direct_pipe out_mode \<longleftrightarrow> S_ISFIFO out_mode"

definition is_terminal_output :: "'w os \<Rightarrow> 'w \<Rightarrow> bool" where
  "is_terminal_output os w \<longleftrightarrow> sys_isatty os STDOUT_FILENO w = 1"

text \<open>A stage with no state of its own behind \<^verbatim>\<open>ReadFile\<close>, whose pipeline state is the unit.\<close>

definition stateless :: "('d, 'w) stage \<Rightarrow> ('d, unit \<times> 'w) stage" where
  "stateless nxt d s =
     (case nxt d (snd s) of None \<Rightarrow> None | Some (r, w') \<Rightarrow> Some (r, (), w'))"

definition forget :: "('r \<times> unit \<times> 'w) option \<Rightarrow> ('r \<times> 'w) option" where
  "forget r = (case r of None \<Rightarrow> None | Some (x, _, w) \<Rightarrow> Some (x, w))"

text \<open>The five pipelines of the command.\<close>

definition read_highlight_write :: "'w os \<Rightarrow> tree_sitter \<Rightarrow> int \<Rightarrow> size_t \<Rightarrow> 'w \<Rightarrow> (size_t expected \<times> 'w) option" where
  "read_highlight_write os ts fd sz w =
     forget (read_file_node os (tree_sitter_node ts (stateless (write_node_bytes os))) fd sz ((), w))"

definition read_write :: "'w os \<Rightarrow> int \<Rightarrow> size_t \<Rightarrow> 'w \<Rightarrow> (size_t expected \<times> 'w) option" where
  "read_write os fd sz w = forget (read_file_node os (stateless (write_node_bytes os)) fd sz ((), w))"

definition cat_pipeline ::
  "'w os \<Rightarrow> tree_sitter \<Rightarrow> config \<Rightarrow> File \<Rightarrow> mode \<Rightarrow> 'w \<Rightarrow> (size_t expected \<times> 'w) option" where
  "cat_pipeline os ts config file out_mode w =
     (let fd = ar_get (file_fd file); sz = file_size file in
      if can_copy_file_range (file_mode file) out_mode then copy_file_range_node os fd sz w
      else if can_direct_pipe out_mode then direct_splice_node os fd sz w
      else if can_middleman_splice out_mode then splice_source_node os (splice_sink_node os) fd sz w
      else if colour_output config \<or> is_terminal_output os w then read_highlight_write os ts fd sz w
      else read_write os fd sz w)"

definition cat :: "'w os \<Rightarrow> tree_sitter \<Rightarrow> config \<Rightarrow> string list \<Rightarrow> 'w \<Rightarrow> (unit outcome \<times> 'w) option" where
  "cat os ts config args w =
     (case args of
        [] \<Rightarrow> Some (Contract_Violation, w)
      | path # _ \<Rightarrow>
          (case open_file os path w of
             (Returned file, w1) \<Rightarrow>
               (case sys_statx os STDOUT_FILENO w1 of
                  ((rc, out_stx), w2) \<Rightarrow>
                    (if rc \<noteq> 0 then
                       Some (Threw (Runtime_Error ''failed to statx stdout''), fd_destroy os (file_fd file) w2)
                     else
                       (case execute (cat_pipeline os ts config file (stx_mode out_stx)) w2 of
                          None \<Rightarrow> None
                        | Some (r, w3) \<Rightarrow> Some (r, fd_destroy os (file_fd file) w3))))
           | (Threw e, w1) \<Rightarrow> Some (Threw e, w1)
           | (Terminated, w1) \<Rightarrow> Some (Terminated, w1)
           | (Contract_Violation, w1) \<Rightarrow> Some (Contract_Violation, w1)
           | (Undefined, w1) \<Rightarrow> Some (Undefined, w1)))"

section \<open>What a command delivers\<close>

text \<open>
  The contract of a run of the command: it ends normally with the whole text behind what was
  on standard output, or by an exception with a prefix of it there.
\<close>

definition delivers :: "('w \<Rightarrow> bytes) \<Rightarrow> 'w \<Rightarrow> bytes \<Rightarrow> unit outcome \<Rightarrow> 'w \<Rightarrow> bool" where
  "delivers out w0 body res w' \<longleftrightarrow>
     (res = Returned () \<and> out w' = out w0 @ body) \<or>
     (\<exists>e. res = Threw (Runtime_Error e) \<and> prefix (out w') (out w0 @ body))"

lemma execute_delivers:
  assumes "pipeline w = Some (r, w')"
    and "prefix (out w') (out w @ body)" "case r of Inr n \<Rightarrow> out w' = out w @ body | Inl e \<Rightarrow> True"
  shows "\<exists>res. execute pipeline w = Some (res, w') \<and> delivers out w body res w'"
  using assms by (cases r) (auto simp: execute_def delivers_def)

lemma cat_opened:
  assumes "open_file os path w = (Returned f, w1)" "sys_statx os STDOUT_FILENO w1 = ((0, st), w2)"
  shows "cat os ts config (path # ps) w =
    (case execute (cat_pipeline os ts config f (stx_mode st)) w2 of
       None \<Rightarrow> None
     | Some (r, w3) \<Rightarrow> Some (r, fd_destroy os (file_fd f) w3))"
  using assms by (simp add: cat_def)

lemma cat_delivers:
  assumes "open_file os path w = (Returned f, w1)" "sys_statx os STDOUT_FILENO w1 = ((0, st), w2)"
    and "\<And>fd v. out (sys_close os fd v) = out v"
    and "cat_pipeline os ts config f (stx_mode st) w2 = Some (r, w')"
    and "prefix (out w') (out w2 @ body)" "case r of Inr n \<Rightarrow> out w' = out w2 @ body | Inl e \<Rightarrow> True"
  shows "\<exists>res w'. cat os ts config (path # ps) w = Some (res, w') \<and> delivers out w2 body res w'"
proof -
  obtain res where "execute (cat_pipeline os ts config f (stx_mode st)) w2 = Some (res, w')"
    "delivers out w2 body res w'"
    using execute_delivers [of "cat_pipeline os ts config f (stx_mode st)" w2 r w' out body, OF assms(4-6)] by blast
  moreover have "out (fd_destroy os (file_fd f) w') = out w'"
    by (simp add: fd_destroy_def ar_destroy_def fd_closer_def assms(3))
  ultimately show ?thesis by (simp add: cat_opened [OF assms(1,2)] delivers_def)
qed

lemma pipeline_choice:
  "S_ISREG (file_mode f) \<Longrightarrow> S_ISREG m \<Longrightarrow>
     cat_pipeline os ts config f m = copy_file_range_node os (obj (file_fd f)) (file_size f)"
  "S_ISFIFO m \<Longrightarrow> cat_pipeline os ts config f m = direct_splice_node os (obj (file_fd f)) (file_size f)"
  "S_ISCHR m \<or> S_ISREG m \<and> \<not> S_ISREG (file_mode f) \<Longrightarrow>
     cat_pipeline os ts config f m = splice_source_node os (splice_sink_node os) (obj (file_fd f)) (file_size f)"
  "\<not> S_ISREG m \<Longrightarrow> \<not> S_ISFIFO m \<Longrightarrow> \<not> S_ISCHR m \<Longrightarrow>
     cat_pipeline os ts config f m w =
       (if colour_output config \<or> is_terminal_output os w
        then read_highlight_write os ts (obj (file_fd f)) (file_size f) w
        else read_write os (obj (file_fd f)) (file_size f) w)"
  using file_types_disjoint [of m]
  by (auto simp: fun_eq_iff cat_pipeline_def Let_def ar_get_def can_copy_file_range_def can_direct_pipe_def
      can_middleman_splice_def)

text \<open>Reading a file and writing it, with or without the highlighting in between.\<close>

context file_kernel
begin

lemma stateless_write_emits:
  assumes "good (snd s)" "length d \<le> 2 ^ 63 - 1"
  shows "\<exists>r s'. stateless (write_node_bytes os) d s = Some (r, s') \<and> prefix (out (snd s')) (out (snd s) @ d) \<and>
      (case r of Inr k \<Rightarrow> good (snd s') \<and> out (snd s') = out (snd s) @ d | Inl e \<Rightarrow> True)"
proof -
  have "length d < 2 ^ 63" using assms(2) by simp
  with assms(1) show ?thesis
    by (cases rule: wr.put_False_cases)
      (auto simp: stateless_def write_node_bytes_def take_is_prefix)
qed

end

sublocale file_kernel \<subseteq> rw: read_pipeline "stateless (write_node_bytes os)" "\<lambda>s. good (snd s)"
  "\<lambda>s. out (snd s)" "\<lambda>s. out (snd s)" "\<lambda>d. d" "2 ^ 63 - 1" os fd data
proof (intro read_pipeline.intro emitter.intro read_pipeline_axioms.intro)
  show "prefix (out (snd s)) (out (snd s))" for s :: "unit \<times> 'w" by simp
  show "\<exists>r s'. stateless (write_node_bytes os) d s = Some (r, s') \<and> prefix (out (snd s')) (out (snd s) @ d) \<and>
      (case r of Inr k \<Rightarrow> good (snd s') \<and> out (snd s') = out (snd s) @ d | Inl e \<Rightarrow> True)"
    if "good (snd s)" "length d \<le> 2 ^ 63 - 1" for s d
    using that by (rule stateless_write_emits)
  show "out (snd (n, w')) = out (snd (n, w)) \<and> out (snd (n, w')) = out (snd (n, w))"
    if "good (snd (n, w))" "sys_pread os fd cnt off w = (x, w')" for n :: unit and w cnt off x w'
    using pread_out that by auto
  show "pread_source os fd data (\<lambda>w. good (snd (n, w)))" for n :: unit
    using pread_source_axioms by simp
qed simp

locale highlight_kernel = file_kernel os out good fd data
  for os :: "'w os" and out :: "'w \<Rightarrow> bytes" and good :: "'w \<Rightarrow> bool" and fd :: int and data :: bytes +
  fixes ts :: tree_sitter
  assumes captures_law: "parse_string ts body = Some cs \<Longrightarrow>
      captures_inside (map capture_colour (capture_names ts)) cs (length body)"

sublocale highlight_kernel \<subseteq> hw: highlighter "stateless (write_node_bytes os)" "\<lambda>s. good (snd s)"
  "\<lambda>s. out (snd s)" "\<lambda>s. out (snd s)" "2 ^ 63 - 1" ts
  by unfold_locales (simp_all add: captures_law)

sublocale highlight_kernel \<subseteq> rhw: read_pipeline "tree_sitter_node ts (stateless (write_node_bytes os))"
  "\<lambda>s. good (snd s)" "\<lambda>s. out (snd s)" "\<lambda>s. out (snd s)" "highlight ts" "(2 ^ 63 - 1 - 4) div 6" os fd data
  by unfold_locales (use pread_out pread_law data_bound in auto)

context file_kernel
begin

lemma read_write_total:
  assumes "good w"
  shows "\<exists>r w'. read_write os fd sz w = Some (r, w') \<and> prefix (out w') (out w @ data) \<and>
      (case r of Inr n \<Rightarrow> out w' = out w @ data | Inl e \<Rightarrow> True)"
proof -
  obtain r n' w' cs where run: "read_file_node os (stateless (write_node_bytes os)) fd sz ((), w) = Some (r, n', w')"
      "prefix (concat cs) data" "prefix (out w') (out w @ concat cs)"
      "case r of Inr m \<Rightarrow> concat cs = data \<and> good w' \<and> out w' = out w @ concat cs | Inl e \<Rightarrow> True"
    using rw.read_file_emits [of "()" w sz] assms by auto
  have "prefix (out w @ concat cs) (out w @ data)" using run(2) by simp
  then have "prefix (out w') (out w @ data)" using run(3) by (rule prefix_order.trans [rotated])
  then show ?thesis using run by (cases r) (auto simp: read_write_def forget_def)
qed

end

context highlight_kernel
begin

lemma read_highlight_write_total:
  assumes "good w"
  shows "\<exists>r w' cs. read_highlight_write os ts fd sz w = Some (r, w') \<and> prefix (concat cs) data \<and>
      (\<forall>c \<in> set cs. c \<noteq> [] \<and> length c \<le> unat read_file_max_size) \<and>
      prefix (out w') (out w @ concat (map (highlight ts) cs)) \<and>
      (case r of Inr n \<Rightarrow> concat cs = data \<and> out w' = out w @ concat (map (highlight ts) cs) | Inl e \<Rightarrow> True)"
proof -
  obtain r n' w' cs where run:
      "read_file_node os (tree_sitter_node ts (stateless (write_node_bytes os))) fd sz ((), w) = Some (r, n', w')"
      "\<forall>c \<in> set cs. c \<noteq> [] \<and> length c \<le> unat read_file_max_size"
      "prefix (concat cs) data" "prefix (out w') (out w @ concat (map (highlight ts) cs))"
      "case r of Inr m \<Rightarrow> concat cs = data \<and> good w' \<and> out w' = out w @ concat (map (highlight ts) cs) | Inl e \<Rightarrow> True"
    using rhw.read_file_emits [of "()" w sz] assms by auto
  then show ?thesis
    by (intro exI [of _ r] exI [of _ w'] exI [of _ cs])
      (auto simp: read_highlight_write_def forget_def split: sum.splits)
qed

end

section \<open>The command as a whole\<close>

text \<open>
  What the command relies on for one open file, whatever standard output is: the contracts of the
  calls that the pipelines make, each in the worlds in which its pipeline runs, all of which include
  the worlds in which the file has just been opened (\<open>opened\<close>).
\<close>

locale cat_kernel =
  copy: copy_range_kernel os fd rest out copying +
  direct: direct_splice_kernel os fd rest out piping stdout_size +
  spliced: splice_kernel os fd rp wp rest pipe out splicing pipe_size start psize +
  chunked: highlight_kernel os out reading fd data ts
  for os :: "'w os" and fd :: int and rest :: "'w \<Rightarrow> bytes" and out :: "'w \<Rightarrow> bytes"
    and copying :: "'w \<Rightarrow> bool" and piping :: "'w \<Rightarrow> bool" and stdout_size :: int
    and rp :: int and wp :: int and pipe :: "'w \<Rightarrow> bytes" and splicing :: "'w \<Rightarrow> bool"
    and pipe_size :: size_t and start :: "'w \<Rightarrow> bool" and psize :: int
    and reading :: "'w \<Rightarrow> bool" and data :: bytes and ts :: tree_sitter +
  fixes opened :: "'w \<Rightarrow> bool"
  assumes opened: "opened w \<Longrightarrow> copying w" "opened w \<Longrightarrow> piping w" "opened w \<Longrightarrow> start w"
      "opened w \<Longrightarrow> reading w" "opened w \<Longrightarrow> rest w = data"

text \<open>The text that belongs to the chunks of a file: highlighted on the outputs that have colours.\<close>

definition shown_as :: "tree_sitter \<Rightarrow> bool \<Rightarrow> mode \<Rightarrow> bytes list \<Rightarrow> bytes" where
  "shown_as ts coloured m cs =
     (if coloured \<and> \<not> S_ISREG m \<and> \<not> S_ISFIFO m \<and> \<not> S_ISCHR m then concat (map (highlight ts) cs) else concat cs)"

lemma shown_plain: "S_ISREG m \<or> S_ISFIFO m \<or> S_ISCHR m \<or> \<not> coloured \<Longrightarrow> shown_as ts coloured m cs = concat cs"
  by (auto simp: shown_as_def)

text \<open>A pipeline that moves a prefix of the file, and all of it when it succeeds.\<close>

definition moves_file :: "('w \<Rightarrow> bytes) \<Rightarrow> bytes \<Rightarrow> 'w \<Rightarrow> (size_t expected \<times> 'w) option \<Rightarrow> bool" where
  "moves_file out data w x \<longleftrightarrow> (\<exists>r w'. x = Some (r, w') \<and> prefix (out w') (out w @ data) \<and>
     (case r of Inr n \<Rightarrow> out w' = out w @ data | Inl e \<Rightarrow> True))"

lemma moves_fileI:
  assumes "x = Some (r, w')" "out w' = out w @ take k data" "\<And>n. r = Inr n \<Longrightarrow> take k data = data"
  shows "moves_file out data w x"
  using assms by (cases r) (simp_all add: moves_file_def take_is_prefix)

context cat_kernel
begin

lemma plain_pipelines:
  assumes "opened w" "unat sz = length data"
  shows "moves_file out data w (copy_file_range_node os fd sz w)" "moves_file out data w (direct_splice_node os fd sz w)"
    "moves_file out data w (splice_source_node os (splice_sink_node os) fd sz w)" "moves_file out data w (read_write os fd sz w)"
proof -
  note data = opened(5) [OF assms(1)]
  show "moves_file out data w (copy_file_range_node os fd sz w)"
    using copy.copy_node_total [OF opened(1) [OF assms(1)], of sz] unfolding data
    by (elim exE conjE) (rule moves_fileI, assumption, assumption, simp add: assms(2))
  show "moves_file out data w (direct_splice_node os fd sz w)"
    using direct.direct_node_total [OF opened(2) [OF assms(1)], of sz] unfolding data
    by (elim exE conjE) (rule moves_fileI, assumption, assumption, simp add: assms(2))
  show "moves_file out data w (splice_source_node os (splice_sink_node os) fd sz w)"
    using spliced.splice_node_total [OF opened(3) [OF assms(1)], of sz] assms(2) unfolding data
    by (elim meta_impE exE conjE) (simp, rule moves_fileI, assumption, assumption, simp)
  show "moves_file out data w (read_write os fd sz w)"
    using chunked.read_write_total [OF opened(4) [OF assms(1)], of sz] by (simp add: moves_file_def)
qed

lemma cat_pipeline_total:
  assumes "opened w" "unat (file_size f) = length data" "obj (file_fd f) = fd"
  shows "\<exists>r w' cs. cat_pipeline os ts config f m w = Some (r, w') \<and> prefix (concat cs) data \<and>
    prefix (out w') (out w @ shown_as ts (colour_output config \<or> is_terminal_output os w) m cs) \<and>
    (case r of
       Inr n \<Rightarrow> concat cs = data \<and> out w' = out w @ shown_as ts (colour_output config \<or> is_terminal_output os w) m cs
     | Inl e \<Rightarrow> True)" (is "?claim")
proof -
  let ?coloured = "colour_output config \<or> is_terminal_output os w"
  have plain: ?claim if "moves_file out data w (cat_pipeline os ts config f m w)" "S_ISREG m \<or> S_ISFIFO m \<or> S_ISCHR m \<or> \<not> ?coloured"
    using that(1) unfolding moves_file_def shown_plain [OF that(2)]
    by (elim exE conjE) (auto intro!: exI [of _ "[data]"])
  note nodes = plain_pipelines [OF assms(1,2)]
  consider "S_ISREG m" "S_ISREG (file_mode f)" | "S_ISFIFO m" | "S_ISCHR m \<or> S_ISREG m \<and> \<not> S_ISREG (file_mode f)"
    | "\<not> S_ISREG m" "\<not> S_ISFIFO m" "\<not> S_ISCHR m" by blast
  then show ?claim
  proof cases
    case 1
    then show ?thesis by (intro plain) (use nodes(1) assms(3) in \<open>simp_all add: pipeline_choice(1)\<close>)
  next
    case 2
    then show ?thesis by (intro plain) (use nodes(2) assms(3) in \<open>simp_all add: pipeline_choice(2)\<close>)
  next
    case 3
    then show ?thesis by (intro plain) (use nodes(3) assms(3) in \<open>auto simp: pipeline_choice(3)\<close>)
  next
    case 4
    note choice = pipeline_choice(4) [OF 4, of os ts config f w, unfolded assms(3)]
    show ?thesis
    proof (cases ?coloured)
      case False
      then show ?thesis by (intro plain) (use nodes(4) choice in simp_all)
    next
      case True
      have "shown_as ts ?coloured m cs = concat (map (highlight ts) cs)" for cs using True 4 by (simp add: shown_as_def)
      then show ?thesis
        using chunked.read_highlight_write_total [OF opened(4) [OF assms(1)], of "file_size f"] choice True by auto
    qed
  qed
qed

text \<open>The command over it: what is delivered, and the file closed as the last act.\<close>

lemma cat_total:
  assumes "open_file os path w = (Returned f, w1)" "sys_statx os STDOUT_FILENO w1 = ((0, st), w2)"
    "opened w2" "unat (file_size f) = length data" "obj (file_fd f) = fd"
  shows "\<exists>res w' cs. cat os ts config (path # ps) w = Some (res, fd_destroy os (file_fd f) w') \<and> prefix (concat cs) data \<and>
    delivers out w2 (shown_as ts (colour_output config \<or> is_terminal_output os w2) (stx_mode st) cs) res
      (fd_destroy os (file_fd f) w') \<and> (res = Returned () \<longrightarrow> concat cs = data)"
proof -
  let ?shown = "shown_as ts (colour_output config \<or> is_terminal_output os w2) (stx_mode st)"
  obtain r w' cs where run: "cat_pipeline os ts config f (stx_mode st) w2 = Some (r, w')" "prefix (concat cs) data"
      "prefix (out w') (out w2 @ ?shown cs)"
      "case r of Inr n \<Rightarrow> concat cs = data \<and> out w' = out w2 @ ?shown cs | Inl e \<Rightarrow> True"
    using cat_pipeline_total [OF assms(3-5), of config "stx_mode st"] by (elim exE conjE)
  let ?res = "case r of Inl e \<Rightarrow> Threw (Runtime_Error e) | Inr n \<Rightarrow> Returned ()"
  have closed: "out (fd_destroy os (file_fd f) w') = out w'"
    by (simp add: fd_destroy_def ar_destroy_def fd_closer_def spliced.close_law)
  show ?thesis
  proof (intro exI conjI)
    show "cat os ts config (path # ps) w = Some (?res, fd_destroy os (file_fd f) w')"
      using run(1) by (cases r) (simp_all add: cat_opened [OF assms(1,2)] execute_def)
    show "prefix (concat cs) data" by (rule run(2))
    show "delivers out w2 (?shown cs) ?res (fd_destroy os (file_fd f) w')"
      unfolding delivers_def closed using run(3,4) by (cases r) simp_all
    show "?res = Returned () \<longrightarrow> concat cs = data" using run(4) by (cases r) simp_all
  qed
qed

end

section \<open>The simulated runs\<close>

definition sim_opened :: File where
  "sim_opened = \<lparr>file_fd = ar_make 3, file_size = 5, file_mode = 0x8000\<rparr>"

lemma sim_opened_simps [simp]:
  "obj (file_fd sim_opened) = 3" "file_size sim_opened = 5" "file_mode sim_opened = 0x8000"
  by (simp_all add: sim_opened_def ar_make_def)

lemma sim_cat_opens [simp]:
  "open_file sim_os path (sim_cat m script) = (Returned sim_opened, sim_cat m script)"
  "sim_stat (sim_cat m script) 1 = \<lparr>stx_size = 0, stx_mode = m\<rparr>"
  "sim_rest fd (sim_cat m script) = ''hello''" "sim_files (sim_cat m script) fd = ''hello''"
  "sim_cap (sim_cat m script) = 1048576" "sim_script (sim_cat m script) = script" "sim_out (sim_cat m script) = []"
  by (simp_all add: open_file_def sim_cat_def sim_hello_def sim0_def sim_rest_def sim_opened_def
      ar_make_def ar_bool_def ar_get_def)

lemma sim_modes [simp]: "S_ISREG 0x8000" "S_ISFIFO 0x1000" "S_ISCHR 0x2000" "\<not> S_ISREG 0xC000"
  "\<not> S_ISFIFO 0xC000" "\<not> S_ISCHR 0xC000"
  by (simp_all add: S_ISREG_def S_ISFIFO_def S_ISCHR_def)

lemmas sim_kernels = sim_copy.copy_range_kernel_axioms sim_direct.direct_splice_kernel_axioms
  sim_splice.splice_kernel_axioms

lemma sim_file_hello: "file_kernel sim_os sim_out (\<lambda>w. sim_files w fd = ''hello'') fd ''hello''"
  using sim_file.file_kernel_axioms [of fd "''hello''"] by simp

interpretation sim_highlight: highlight_kernel sim_os sim_out "\<lambda>w. sim_files w fd = ''hello''" fd "''hello''" ts_demo
  for fd
  by (intro highlight_kernel.intro sim_file_hello highlight_kernel_axioms.intro)
    (auto simp: ts_demo_def captures_inside_def capture_colour_def split: if_splits)

definition sim_fresh :: "sim \<Rightarrow> bool" where
  "sim_fresh w \<longleftrightarrow> sim_cap w = 1048576 \<and> sim_script w = [] \<and> sim_files w 3 = ''hello'' \<and> sim_pos w 3 = 0"

interpretation sim_cats: cat_kernel sim_os 3 "sim_rest 3" sim_out "\<lambda>w. True" "\<lambda>w. sim_cap w = 1048576" 1048576
  10 11 sim_pipe "\<lambda>w. sim_piped w \<and> sim_script w = []" 1048576 "\<lambda>w. sim_cap w = 1048576 \<and> sim_script w = []" 1048576
  "\<lambda>w. sim_files w 3 = ''hello''" "''hello''" ts_demo sim_fresh
  by (intro cat_kernel.intro cat_kernel_axioms.intro sim_kernels sim_highlight.highlight_kernel_axioms)
    (simp_all add: sim_fresh_def sim_rest_def sim_splice.splice_kernel_axioms [simplified])

section \<open>Properties\<close>

text \<open>
  \<^verbatim>\<open>cat\<close> of a regular file onto a regular file: the command returns and standard output
  has received the whole file, or it throws with a prefix of the file there.
\<close>

theorem cat_regular_to_regular:
  assumes "open_file os path w = (Returned f, w1)" "sys_statx os STDOUT_FILENO w1 = ((0, st), w2)"
    and "\<And>fd v. out (sys_close os fd v) = out v"
    and "S_ISREG (file_mode f)" "S_ISREG (stx_mode st)"
    and "copy_range_kernel os (obj (file_fd f)) rest out good" "good w2" "unat (file_size f) = length (rest w2)"
  shows "\<exists>res w'. cat os ts config (path # ps) w = Some (res, w') \<and> delivers out w2 (rest w2) res w'"
proof -
  obtain r w' k where "copy_file_range_node os (obj (file_fd f)) (file_size f) w2 = Some (r, w')"
    "out w' = out w2 @ take k (rest w2)"
    "case r of Inr n \<Rightarrow> n = word_of_nat k \<and> k = min (unat (file_size f)) (length (rest w2)) | Inl e \<Rightarrow> e = ''failed to copy_file_range''"
    using copy_range_kernel.copy_node_total [OF assms(6,7)] by blast
  then show ?thesis
    using assms(8) pipeline_choice(1) [OF assms(4,5), of os ts config]
    by (intro cat_delivers [OF assms(1-3)]) (auto simp: take_is_prefix split: sum.splits)
qed

theorem cat_regular_to_regular_witness:
  "\<exists>res w'. cat sim_os ts_demo \<lparr>colour_output = True\<rparr> [''a.txt''] (sim_cat 0x8000 [2, 2]) = Some (res, w') \<and>
     delivers sim_out (sim_cat 0x8000 [2, 2]) (sim_rest 3 (sim_cat 0x8000 [2, 2])) res w'"
  by (rule cat_regular_to_regular [where f = sim_opened and ?w1.0 = "sim_cat 0x8000 [2, 2]" and rest = "sim_rest 3"
        and good = "\<lambda>w. True" and st = "\<lparr>stx_size = 0, stx_mode = 0x8000\<rparr>"])
    (simp_all add: sim_kernels)

text \<open>
  \<^verbatim>\<open>cat\<close> into a pipe: the same promise, for every mode of the input and every configuration.
\<close>

theorem cat_to_pipe:
  assumes "open_file os path w = (Returned f, w1)" "sys_statx os STDOUT_FILENO w1 = ((0, st), w2)"
    and "\<And>fd v. out (sys_close os fd v) = out v"
    and "S_ISFIFO (stx_mode st)"
    and "direct_splice_kernel os (obj (file_fd f)) rest out good pipe_size" "good w2"
    and "unat (file_size f) = length (rest w2)"
  shows "\<exists>res w'. cat os ts config (path # ps) w = Some (res, w') \<and> delivers out w2 (rest w2) res w'"
proof -
  obtain r w' k where "direct_splice_node os (obj (file_fd f)) (file_size f) w2 = Some (r, w')"
    "out w' = out w2 @ take k (rest w2)"
    "case r of Inr n \<Rightarrow> n = word_of_nat k \<and> k = min (unat (file_size f)) (length (rest w2)) | Inl e \<Rightarrow> True"
    using direct_splice_kernel.direct_node_total [OF assms(5,6)] by blast
  then show ?thesis
    using assms(7) pipeline_choice(2) [OF assms(4), of os ts config f]
    by (intro cat_delivers [OF assms(1-3)]) (auto simp: take_is_prefix split: sum.splits)
qed

theorem cat_to_pipe_witness:
  "\<exists>res w'. cat sim_os ts_demo \<lparr>colour_output = True\<rparr> [''a.txt''] (sim_cat 0x1000 [2]) = Some (res, w') \<and>
     delivers sim_out (sim_cat 0x1000 [2]) (sim_rest 3 (sim_cat 0x1000 [2])) res w'"
  by (rule cat_to_pipe [where f = sim_opened and ?w1.0 = "sim_cat 0x1000 [2]" and rest = "sim_rest 3"
        and good = "\<lambda>w. sim_cap w = 1048576" and st = "\<lparr>stx_size = 0, stx_mode = 0x1000\<rparr>" and pipe_size = 1048576])
    (simp_all add: sim_kernels)



text \<open>
  On any other output (a socket, a block device), with colours turned off by the environment
  and no terminal: the file is read in chunks and written; the whole file is delivered or the
  command throws with a prefix written. The size \<^verbatim>\<open>statx\<close> reported plays no part here.
\<close>

theorem cat_reads_and_writes:
  assumes "open_file os path w = (Returned f, w1)" "sys_statx os STDOUT_FILENO w1 = ((0, st), w2)"
    and "\<And>fd v. out (sys_close os fd v) = out v"
    and "\<not> S_ISREG (stx_mode st)" "\<not> S_ISFIFO (stx_mode st)" "\<not> S_ISCHR (stx_mode st)"
    and "\<not> colour_output config" "\<not> is_terminal_output os w2"
    and "file_kernel os out good (obj (file_fd f)) data" "good w2"
  shows "\<exists>res w'. cat os ts config (path # ps) w = Some (res, w') \<and> delivers out w2 data res w'"
proof -
  have "cat_pipeline os ts config f (stx_mode st) w2 = read_write os (obj (file_fd f)) (file_size f) w2"
    using pipeline_choice(4) [OF assms(4-6), of os ts config f w2] assms(7,8) by simp
  moreover obtain r w' where "read_write os (obj (file_fd f)) (file_size f) w2 = Some (r, w')"
    "prefix (out w') (out w2 @ data)" "case r of Inr n \<Rightarrow> out w' = out w2 @ data | Inl e \<Rightarrow> True"
    using file_kernel.read_write_total [OF assms(9,10)] by blast
  ultimately show ?thesis by (intro cat_delivers [OF assms(1-3)]) simp_all
qed

theorem cat_reads_and_writes_witness:
  "\<exists>res w'. cat sim_os ts_demo \<lparr>colour_output = False\<rparr> [''a.txt''] (sim_cat 0xC000 [2, 1]) = Some (res, w') \<and>
     delivers sim_out (sim_cat 0xC000 [2, 1]) ''hello'' res w'"
  by (rule cat_reads_and_writes [where f = sim_opened and ?w1.0 = "sim_cat 0xC000 [2, 1]"
        and good = "\<lambda>w. sim_files w 3 = ''hello''" and st = "\<lparr>stx_size = 0, stx_mode = 0xC000\<rparr>"])
    (simp_all add: sim_file_hello is_terminal_output_def)

text \<open>
  C20. On such an output with colours on, what is delivered is the highlighted text, made chunk
  by chunk: the chunks are the file in order, each of at most 10 MiB and highlighted by itself.
\<close>

theorem cat_highlights:
  assumes "open_file os path w = (Returned f, w1)" "sys_statx os STDOUT_FILENO w1 = ((0, st), w2)"
    and "\<And>fd v. out (sys_close os fd v) = out v"
    and "\<not> S_ISREG (stx_mode st)" "\<not> S_ISFIFO (stx_mode st)" "\<not> S_ISCHR (stx_mode st)"
    and "colour_output config"
    and "highlight_kernel os out good (obj (file_fd f)) data ts" "good w2"
  shows "\<exists>res w' cs. cat os ts config (path # ps) w = Some (res, w') \<and>
    (\<forall>c \<in> set cs. c \<noteq> [] \<and> length c \<le> unat read_file_max_size) \<and> prefix (concat cs) data \<and>
    delivers out w2 (concat (map (highlight ts) cs)) res w' \<and> (res = Returned () \<longrightarrow> concat cs = data)"
proof -
  let ?node = "read_highlight_write os ts (obj (file_fd f)) (file_size f) w2"
  have choice: "cat_pipeline os ts config f (stx_mode st) w2 = ?node"
    using pipeline_choice(4) [OF assms(4-6), of os ts config f w2] assms(7) by simp
  obtain r w' cs where run: "?node = Some (r, w')" "prefix (concat cs) data"
    "\<forall>c \<in> set cs. c \<noteq> [] \<and> length c \<le> unat read_file_max_size"
    "prefix (out w') (out w2 @ concat (map (highlight ts) cs))"
    "case r of Inr n \<Rightarrow> concat cs = data \<and> out w' = out w2 @ concat (map (highlight ts) cs) | Inl e \<Rightarrow> True"
    using highlight_kernel.read_highlight_write_total [OF assms(8,9), of "file_size f"] by (elim exE conjE)
  let ?res = "case r of Inl e \<Rightarrow> Threw (Runtime_Error e) | Inr n \<Rightarrow> Returned ()"
  have closed: "out (fd_destroy os (file_fd f) w') = out w'"
    by (simp add: fd_destroy_def ar_destroy_def fd_closer_def assms(3))
  show ?thesis
  proof (intro exI conjI)
    show "cat os ts config (path # ps) w = Some (?res, fd_destroy os (file_fd f) w')"
      using choice run(1) by (cases r) (simp_all add: cat_opened [OF assms(1,2)] execute_def)
    show "\<forall>c \<in> set cs. c \<noteq> [] \<and> length c \<le> unat read_file_max_size" "prefix (concat cs) data"
      by (rule run(3), rule run(2))
    show "delivers out w2 (concat (map (highlight ts) cs)) ?res (fd_destroy os (file_fd f) w')"
      unfolding delivers_def closed using run(4,5) by (cases r) simp_all
    show "?res = Returned () \<longrightarrow> concat cs = data" using run(5) by (cases r) simp_all
  qed
qed

theorem cat_highlights_witness:
  "\<exists>res w' cs. cat sim_os ts_demo \<lparr>colour_output = True\<rparr> [''a.txt''] (sim_cat 0xC000 [5]) = Some (res, w') \<and>
    (\<forall>c \<in> set cs. c \<noteq> [] \<and> length c \<le> unat read_file_max_size) \<and> prefix (concat cs) ''hello'' \<and>
    delivers sim_out (sim_cat 0xC000 [5]) (concat (map (highlight ts_demo) cs)) res w' \<and>
    (res = Returned () \<longrightarrow> concat cs = ''hello'')"
  by (rule cat_highlights [where f = sim_opened and ?w1.0 = "sim_cat 0xC000 [5]"
        and good = "\<lambda>w. sim_files w 3 = ''hello''" and st = "\<lparr>stx_size = 0, stx_mode = 0xC000\<rparr>"])
    (simp_all add: sim_highlight.highlight_kernel_axioms)

text \<open>
  C13. Whatever the kernel does, a run of \<^verbatim>\<open>cat\<close> that opened its file and ends, normally or by
  an exception, has closed the descriptor as its last act; a file that cannot be opened throws
  an error with its path and closes nothing.
\<close>

theorem cat_closes_its_file:
  assumes "sys_openat os AT_FDCWD path (O_RDONLY OR O_NOATIME) w = (fd, w0)"
    and "cat os ts config (path # ps) w = Some (res, w')"
  shows "if fd = -1 then res = Threw (Runtime_Error (''failed to open: '' @ path)) \<and> w' = w0
    else \<exists>v. w' = sys_close os fd v"
proof (cases "fd = -1")
  case True
  then show ?thesis
    using assms by (simp add: cat_def open_file_def ar_bool_def ar_make_def fd_destroy_def ar_destroy_def)
next
  case False
  then have close: "fd_destroy os (ar_make fd) v = sys_close os fd v" for v
    by (simp add: fd_destroy_def ar_destroy_def fd_closer_def ar_make_def)
  show ?thesis
    using assms False
    by (auto simp: cat_def open_file_def ar_bool_def ar_make_def [of fd] Let_def close [unfolded ar_make_def]
        split: prod.splits if_splits option.splits)
qed

theorem cat_closes_its_file_witness:
  "\<exists>res w'. cat sim_os ts_demo \<lparr>colour_output = True\<rparr> [''x''] sim0 = Some (res, w') \<and>
     res = Threw (Runtime_Error ''failed to open: x'') \<and> w' = sim0"
proof -
  have run: "cat sim_os ts_demo \<lparr>colour_output = True\<rparr> [''x''] sim0 = Some (Threw (Runtime_Error ''failed to open: x''), sim0)"
    by (simp add: cat_def open_file_def sim0_def ar_bool_def ar_make_def fd_destroy_def ar_destroy_def)
  have "sys_openat sim_os AT_FDCWD ''x'' (O_RDONLY OR O_NOATIME) sim0 = (-1, sim0)"
    by (simp add: sim0_def)
  from cat_closes_its_file [OF this run] show ?thesis using run by simp
qed

end
