(* ===== verification/Grep.thy ===== *)
theory Grep
  imports Grep_File Dirents Cat
begin

section \<open>The grep command\<close>

text \<open>
  The sequential parts of \<^verbatim>\<open>commands/grep.h\<close>: what a worker does with one directory entry and with
  one directory, how \<^verbatim>\<open>run\<close> starts, and the checks of \<^verbatim>\<open>grep\<close> itself. A worker's state here is
  \<^verbatim>\<open>local_dir_queue\<close>, the buffer of its batch and the world. The queue, the counter and the
  threads that share them are the subject of the theory \<open>Processor\<close>; what the threads of a run do together is the
  parameter \<open>threads\<close> of \<open>processor_run\<close>. With one processor \<^verbatim>\<open>run\<close> starts no threads and that is
  \<open>grep_worker\<close>.
\<close>

abbreviation dir_flags :: flags where
  "dir_flags \<equiv> O_RDONLY OR O_DIRECTORY OR O_NOFOLLOW OR O_NOATIME"

abbreviation file_flags :: flags where
  "file_flags \<equiv> O_RDONLY OR O_NOFOLLOW OR O_NOATIME"

definition grep_entry ::
  "'w os \<Rightarrow> (int \<Rightarrow> string \<times> 'w \<Rightarrow> (size_t expected \<times> string \<times> 'w) option) \<Rightarrow> int \<Rightarrow> linux_dirent64 \<Rightarrow>
   int list \<times> string \<times> 'w \<Rightarrow> (unit outcome \<times> int list \<times> string \<times> 'w) option" where
  "grep_entry os pipeline dir_fd d s =
     (case s of (local_dir_queue, n, w) \<Rightarrow>
        (let name = d_name d; is_file = (d_type d = DT_REG); is_dir = (d_type d = DT_DIR) in
         if is_dir then
           (if name = ''.'' \<or> name = ''..'' then Some (Returned (), s)
            else
              (case sys_openat os dir_fd name dir_flags w of
                 (next_dir, w') \<Rightarrow>
                   (if next_dir < 0 then Some (Returned (), local_dir_queue, n, w')
                    else Some (Returned (), local_dir_queue @ [next_dir], n, w'))))
         else if is_file then
           (case sys_openat os dir_fd name file_flags w of
              (next_file, w') \<Rightarrow>
                (if next_file < 0 then Some (Returned (), local_dir_queue, n, w')
                 else
                   (case execute (pipeline next_file) (n, w') of
                      None \<Rightarrow> None
                    | Some (r, n', w'') \<Rightarrow>
                        (if r = Returned () then Some (r, local_dir_queue, n', sys_close os next_file w'')
                         else Some (r, local_dir_queue, n', w'')))))
         else Some (Returned (), s)))"

text \<open>
  One directory: buffers of 32 KiB until \<^verbatim>\<open>getdents64\<close> fails or answers 0. After every buffer
  the local queue is published (handed to the shared queue) and cleared: \<open>published\<close> lists the
  queues in that order.
\<close>

partial_function (option) scan_dir ::
  "'w os \<Rightarrow> (int \<Rightarrow> string \<times> 'w \<Rightarrow> (size_t expected \<times> string \<times> 'w) option) \<Rightarrow> int \<Rightarrow> int list list \<Rightarrow>
   string \<Rightarrow> 'w \<Rightarrow> (unit outcome \<times> int list list \<times> string \<times> 'w) option" where
  "scan_dir os pipeline dir_fd published n w =
     (case sys_getdents64 os dir_fd (32 * 1024) w of
        ((read, buffer), w') \<Rightarrow>
          (if read < 0 then Some (Returned (), published, n, w')
           else if read = 0 then Some (Returned (), published, n, w')
           else
             (case walk_dirents (grep_entry os pipeline dir_fd) (take (nat read) buffer) ([], n, w') of
                None \<Rightarrow> None
              | Some (r, local_dir_queue, n', w'') \<Rightarrow>
                  (if r = Returned () then
                     scan_dir os pipeline dir_fd (published @ [local_dir_queue]) n' w''
                   else Some (r, published, n', w'')))))"

text \<open>
  The loop of a worker that runs alone. It waits for ever on an empty queue, since nobody can
  notify it. What was published while a directory was scanned is behind the rest of the queue and
  counted; the last directory ends the loop.
\<close>

partial_function (option) worker_loop ::
  "'w os \<Rightarrow> (int \<Rightarrow> string \<times> 'w \<Rightarrow> (size_t expected \<times> string \<times> 'w) option) \<Rightarrow> int list \<Rightarrow> size_t \<Rightarrow>
   string \<Rightarrow> 'w \<Rightarrow> (unit outcome \<times> string \<times> 'w) option" where
  "worker_loop os pipeline queue pending n w =
     (case queue of
        [] \<Rightarrow> None
      | dir_fd # rest \<Rightarrow>
          (case scan_dir os pipeline dir_fd [] n w of
             None \<Rightarrow> None
           | Some (r, published, n', w') \<Rightarrow>
               (if r \<noteq> Returned () then Some (r, n', w')
                else
                  (let queue' = rest @ concat published;
                       pending' = pending + size_of (concat published);
                       w'' = sys_close os dir_fd w'
                   in if pending' = 1 then Some (Returned (), n', w'')
                      else worker_loop os pipeline queue' (pending' - 1) n' w''))))"

text \<open>A worker from its pipeline to its flush, whose result is not looked at.\<close>

definition grep_worker ::
  "'w os \<Rightarrow> (string \<Rightarrow> int \<times> string) \<Rightarrow> (string \<Rightarrow> int) \<Rightarrow> (bytes \<Rightarrow> int \<times> (nat \<times> nat) list) \<Rightarrow>
   int \<Rightarrow> string \<Rightarrow> 'w \<Rightarrow> (unit outcome \<times> 'w) option" where
  "grep_worker os hs_compile hs_alloc_scratch hs_scan start_dir regex w =
     (case vectorscan_state hs_compile hs_alloc_scratch regex of
        Returned _ \<Rightarrow>
          (case worker_loop os (grep_pipeline os hs_scan) [start_dir] 1 [] w of
             None \<Rightarrow> None
           | Some (r, n, w') \<Rightarrow>
               (if r \<noteq> Returned () then Some (r, w')
                else (case grep_flush os (n, w') of None \<Rightarrow> None | Some (_, _, w'') \<Rightarrow> Some (Returned (), w''))))
      | r \<Rightarrow> Some (r, w))"

text \<open>The number of extra threads: the subtraction is done in \<^verbatim>\<open>std::size_t\<close>.\<close>

definition thread_count :: "32 word \<Rightarrow> size_t" where
  "thread_count hardware_concurrency = ucast hardware_concurrency - 1"

definition processor_run ::
  "'w os \<Rightarrow> (int \<Rightarrow> string \<Rightarrow> 'w \<Rightarrow> (unit outcome \<times> 'w) option) \<Rightarrow> string \<Rightarrow> string \<Rightarrow> 'w \<Rightarrow>
   (unit outcome \<times> 'w) option" where
  "processor_run os threads location regex w =
     (case sys_openat os AT_FDCWD location dir_flags w of
        (start_dir, w') \<Rightarrow>
          (if start_dir < 0 then
             Some (Threw (Runtime_Error (''failed to open initial directory: '' @ location)), w')
           else threads start_dir regex w'))"

definition grep ::
  "'w os \<Rightarrow> (int \<Rightarrow> string \<Rightarrow> 'w \<Rightarrow> (unit outcome \<times> 'w) option) \<Rightarrow> config \<Rightarrow> string list \<Rightarrow> 'w \<Rightarrow>
   (unit outcome \<times> 'w) option" where
  "grep os threads config args w =
     (if length args \<noteq> 2 then Some (Threw (Runtime_Error ''expected args: [regex, location]''), w)
      else processor_run os threads (args ! 1) (args ! 0) w)"

text \<open>A listing for examples: one regular file per entry of the script.\<close>

definition sim_entry :: linux_dirent64 where
  "sim_entry = \<lparr>d_ino = 1, d_off = 1, d_reclen = 24, d_type = 8, d_name = ''a''\<rparr>"

definition sim_listing :: "sim os" where
  "sim_listing = sim_os\<lparr>sys_getdents64 := (\<lambda>fd sz w.
     case sim_script w of
       [] \<Rightarrow> ((0, []), w)
     | c # cs \<Rightarrow> ((int (length (encode_dirent sim_entry)), encode_dirent sim_entry), w\<lparr>sim_script := cs\<rparr>)),
     sys_openat := (\<lambda>dir path fl w. (3, w))\<rparr>"

section \<open>Reading directories is safe\<close>

lemma each_entry_outcome:
  assumes "each_entry f ds s = Some (r, s')" "\<And>d s r s'. f d s = Some (r, s') \<Longrightarrow> P r" "P (Returned ())"
  shows "P r"
  using assms(1) by (induction ds arbitrary: s) (auto split: option.splits if_splits dest: assms(2) intro: assms(3))

lemma execute_outcome: "execute p s = Some (r, s') \<Longrightarrow> r = Returned () \<or> (\<exists>e. r = Threw (Runtime_Error e))"
  by (auto simp: execute_def split: option.splits sum.splits)

lemma grep_entry_outcome:
  "grep_entry os pipeline dir_fd d s = Some (r, s') \<Longrightarrow> r = Returned () \<or> (\<exists>e. r = Threw (Runtime_Error e))"
  by (auto simp: grep_entry_def Let_def split: prod.splits if_splits option.splits dest: execute_outcome)

lemma block_outcome:
  assumes "getdents_ok os" "sys_getdents64 os dir_fd (32 * 1024) w = ((read, buffer), w')" "0 < read"
    "walk_dirents (grep_entry os pipeline dir_fd) (take (nat read) buffer) s = Some (r, s')"
  shows "r = Returned () \<or> (\<exists>e. r = Threw (Runtime_Error e))"
proof -
  obtain ds where ds: "\<forall>d \<in> set ds. wf_dirent d" "take (nat read) buffer = concat (map encode_dirent ds)"
    using assms(1-3) unfolding getdents_ok_def by blast
  have "each_entry (grep_entry os pipeline dir_fd) ds s = Some (r, s')"
    using assms(4) unfolding ds(2) walk_dirents_encoded [OF ds(1)] .
  then show ?thesis by (rule each_entry_outcome) (auto dest: grep_entry_outcome)
qed

lemma scan_dir_outcome:
  assumes "getdents_ok os" "scan_dir os pipeline dir_fd published n w = Some (r, rest)"
  shows "r = Returned () \<or> (\<exists>e. r = Threw (Runtime_Error e))"
proof -
  have "getdents_ok os \<longrightarrow> fst (r, rest) = Returned () \<or> (\<exists>e. fst (r, rest) = Threw (Runtime_Error e))"
  proof (rule scan_dir.raw_induct [OF _ assms(2), where P = "\<lambda>os pipeline dir_fd published n w x.
      getdents_ok os \<longrightarrow> fst x = Returned () \<or> (\<exists>e. fst x = Threw (Runtime_Error e))"], rule impI)
    fix f :: "'a os \<Rightarrow> (int \<Rightarrow> string \<times> 'a \<Rightarrow> (size_t expected \<times> string \<times> 'a) option) \<Rightarrow> int \<Rightarrow> int list list \<Rightarrow>
       string \<Rightarrow> 'a \<Rightarrow> (unit outcome \<times> int list list \<times> string \<times> 'a) option"
      and os pipeline dir_fd published n w x
    assume IH: "\<And>os pipeline dir_fd published n w x. f os pipeline dir_fd published n w = Some x \<Longrightarrow>
        getdents_ok os \<longrightarrow> fst x = Returned () \<or> (\<exists>e. fst x = Threw (Runtime_Error e))"
      and eq: "(case sys_getdents64 os dir_fd (32 * 1024) w of
        ((read, buffer), w') \<Rightarrow>
          (if read < 0 then Some (Returned (), published, n, w')
           else if read = 0 then Some (Returned (), published, n, w')
           else
             (case walk_dirents (grep_entry os pipeline dir_fd) (take (nat read) buffer) ([], n, w') of
                None \<Rightarrow> None
              | Some (r, local_dir_queue, n', w'') \<Rightarrow>
                  (if r = Returned () then f os pipeline dir_fd (published @ [local_dir_queue]) n' w''
                   else Some (r, published, n', w''))))) = Some x"
      and ok: "getdents_ok os"
    obtain read buffer w' where call: "sys_getdents64 os dir_fd (32 * 1024) w = ((read, buffer), w')"
      by (metis prod.exhaust)
    show "fst x = Returned () \<or> (\<exists>e. fst x = Threw (Runtime_Error e))"
    proof (cases "0 < read")
      case False
      then show ?thesis using eq call by (auto split: if_splits)
    next
      case True
      then obtain r q n' w'' where run:
          "walk_dirents (grep_entry os pipeline dir_fd) (take (nat read) buffer) ([], n, w') = Some (r, q, n', w'')"
        using eq call by (auto split: option.splits)
      then have "(if r = Returned () then f os pipeline dir_fd (published @ [q]) n' w'' else Some (r, published, n', w'')) = Some x"
        using eq call True by simp
      then show ?thesis using block_outcome [OF ok call True run] IH ok by (auto split: if_splits)
    qed
  qed
  then show ?thesis using assms(1) by simp
qed

section \<open>Properties\<close>

text \<open>
  Working through a directory never reads outside the buffer \<^verbatim>\<open>getdents64\<close> filled, when the
  kernel fills it with whole records: for any pipeline and any answers to the other calls, a
  scan that ends has worked through the directory or stopped at the exception of a file.
\<close>

theorem scan_dir_stays_in_bounds:
  assumes "getdents_ok os" "scan_dir os pipeline dir_fd published n w = Some (r, rest)"
  shows "r = Returned () \<or> (\<exists>e. r = Threw (Runtime_Error e))"
  using assms by (rule scan_dir_outcome)

theorem scan_dir_stays_in_bounds_witness:
  "\<exists>r rest. scan_dir sim_listing (\<lambda>fd s. Some (Inl ''bad'', s)) 7 [] [] (sim_hello [1]) = Some (r, rest) \<and>
     (r = Returned () \<or> (\<exists>e. r = Threw (Runtime_Error e)))"
proof -
  have ok: "getdents_ok sim_listing"
    unfolding getdents_ok_def sim_listing_def
    by (auto simp: wf_dirent_def intro!: exI [of _ "[sim_entry]"] simp: sim_entry_def split: list.splits)
  have wf: "wf_dirent sim_entry" by (simp add: sim_entry_def wf_dirent_def)
  have entry: "grep_entry sim_listing (\<lambda>fd s. Some (Inl ''bad'', s)) 7 sim_entry ([], [], w) =
      Some (Threw (Runtime_Error ''bad''), [], [], w)" for w
    by (simp add: grep_entry_def sim_entry_def sim_listing_def execute_def)
  have list: "sys_getdents64 sim_listing 7 (32 * 1024) (sim_hello [1]) =
      ((int (length (encode_dirent sim_entry)), encode_dirent sim_entry), sim_hello [])"
    by (simp add: sim_listing_def sim_hello_def)
  have "encode_dirent sim_entry \<noteq> []" using encode_dirent_length [OF wf] by (auto simp: sim_entry_def)
  then have "\<exists>x. scan_dir sim_listing (\<lambda>fd s. Some (Inl ''bad'', s)) 7 [] [] (sim_hello [1]) = Some x"
    by (subst scan_dir.simps) (simp add: list [simplified] entry walk_dirents_step [OF wf, where rest = "[]", simplified])
  then obtain r rest where run: "scan_dir sim_listing (\<lambda>fd s. Some (Inl ''bad'', s)) 7 [] [] (sim_hello [1]) = Some (r, rest)"
    by auto
  show ?thesis using run scan_dir_stays_in_bounds [OF ok run] by blast
qed

text \<open>
  The number of extra worker threads is one less than the number of processors the library
  reports; where it reports 0 (\<open>not known\<close>) the subtraction wraps and asks for \<open>2 ^ 64 - 1\<close> threads.
\<close>

theorem thread_count_wraps:
  "unat (thread_count hc) = (if hc = 0 then 2 ^ 64 - 1 else unat hc - 1)"
proof (cases "hc = 0")
  case False
  have "unat (ucast hc :: size_t) = unat hc"
  proof -
    have "unat hc < 2 ^ 32" using unsigned_less [of hc, where 'a = nat] by simp
    then have "unat hc < 2 ^ 64" by simp
    then show ?thesis by (simp add: unsigned_ucast_eq take_bit_nat_eq_self)
  qed
  moreover have "1 \<le> (ucast hc :: size_t)"
    using False calculation by (simp add: word_le_nat_alt unat_gt_0 Suc_le_eq)
  ultimately show ?thesis using False by (simp add: thread_count_def unat_sub)
qed (simp add: thread_count_def unsigned_minus_1_eq_mask mask_eq_exp_minus_1)

end
