(* ===== verification/Om_Main.thy ===== *)
theory Om_Main
  imports Grep
begin

section \<open>The program entry\<close>

text \<open>
  \<^verbatim>\<open>main.cpp\<close>: the name under which the program was started picks the command. \<^verbatim>\<open>argv\<close> is a list
  of strings, as long as \<^verbatim>\<open>argc\<close> says. What \<^verbatim>\<open>std::println\<close> puts on standard output is collected
  beside the world; the stack traces on standard error are not modelled. \<open>ts\<close> and \<open>threads\<close> are the
  parameters of \<^verbatim>\<open>cat\<close> and \<^verbatim>\<open>grep\<close>. A contract that fails ends the program, also inside the
  \<^verbatim>\<open>try\<close>: a violation is not an exception.
\<close>

definition exe_trunk :: "string \<Rightarrow> string" where
  "exe_trunk exe =
     (case sv_find_last_of (CHR ''/'') exe of None \<Rightarrow> exe | Some last_slash \<Rightarrow> drop (last_slash + 1) exe)"

definition convert_raw_args :: "string list \<Rightarrow> (string \<times> string list) outcome" where
  "convert_raw_args argv =
     (if length argv > 1 then
        (let r = (exe_trunk (argv ! 0), drop 1 argv) in
         if length (snd r) = length argv - 1 then Returned r else Contract_Violation)
      else Contract_Violation)"

definition set_rlimit :: "'w os \<Rightarrow> 'w \<Rightarrow> unit outcome \<times> 'w" where
  "set_rlimit os w =
     (case sys_getrlimit os w of
        ((rc, rl), w1) \<Rightarrow>
          (if rc = 0 then
             (let target = 524288 in
              if rlim_cur rl < target then
                (case sys_setrlimit os (rl\<lparr>rlim_cur := target\<rparr>) w1 of
                   (rc2, w2) \<Rightarrow>
                     (if rc2 \<noteq> 0 then (Threw (Runtime_Error ''failed to set rlimit''), w2)
                      else (Returned (), w2)))
              else (Returned (), w1))
           else (Returned (), w1)))"

definition is_cat :: "string \<Rightarrow> bool" where
  "is_cat name \<longleftrightarrow> name = ''cat'' \<or> starts_with name ''ocat''"

definition is_grep :: "string \<Rightarrow> bool" where
  "is_grep name \<longleftrightarrow> name = ''grep'' \<or> starts_with name ''ogrep''"

text \<open>The body of the \<^verbatim>\<open>try\<close> block: how it ends, what it printed, and the world after it.\<close>

definition main_body ::
  "'w os \<Rightarrow> tree_sitter \<Rightarrow> (int \<Rightarrow> string \<Rightarrow> 'w \<Rightarrow> (unit outcome \<times> 'w) option) \<Rightarrow> string list \<Rightarrow> 'w \<Rightarrow>
   (unit outcome \<times> string list \<times> 'w) option" where
  "main_body os ts threads argv w =
     (case set_rlimit os w of
        (r, w1) \<Rightarrow>
          (if r \<noteq> Returned () then Some (r, [], w1)
           else
             (case convert_raw_args argv of
                Returned (name, args) \<Rightarrow>
                  (let config = load_config os w1 in
                   if is_cat name then
                     (case cat os ts config args w1 of None \<Rightarrow> None | Some (r, w2) \<Rightarrow> Some (r, [], w2))
                   else if is_grep name then
                     (case grep os threads config args w1 of None \<Rightarrow> None | Some (r, w2) \<Rightarrow> Some (r, [], w2))
                   else Some (Returned (), [''omnipp''], w1))
              | _ \<Rightarrow> Some (Contract_Violation, [], w1))))"

text \<open>The exit status, the lines printed on standard output and the world.\<close>

definition om_main ::
  "'w os \<Rightarrow> tree_sitter \<Rightarrow> (int \<Rightarrow> string \<Rightarrow> 'w \<Rightarrow> (unit outcome \<times> 'w) option) \<Rightarrow> string list \<Rightarrow> 'w \<Rightarrow>
   (int outcome \<times> string list \<times> 'w) option" where
  "om_main os ts threads argv w =
     (case main_body os ts threads argv w of
        None \<Rightarrow> None
      | Some (r, printed, w') \<Rightarrow>
          Some (case r of
                  Returned _ \<Rightarrow> (Returned 0, printed, w')
                | Threw (Runtime_Error e) \<Rightarrow> (Returned 0, printed @ [e], w')
                | Threw Unknown_Exception \<Rightarrow> (Returned 0, printed @ [''unknown exception''], w')
                | Terminated \<Rightarrow> (Terminated, printed, w')
                | Contract_Violation \<Rightarrow> (Contract_Violation, printed, w')
                | Undefined \<Rightarrow> (Undefined, printed, w')))"

section \<open>Lemmas\<close>

lemma exe_trunk_parts:
  "\<exists>dir. exe = dir @ exe_trunk exe \<and> (dir = [] \<or> last dir = CHR ''/'') \<and> CHR ''/'' \<notin> set (exe_trunk exe)"
proof (cases "sv_find_last_of (CHR ''/'') exe")
  case None
  then show ?thesis
    using sv_find_last_of_None [of "CHR ''/''" exe] by (intro exI [of _ "[]"]) (simp add: exe_trunk_def)
next
  case (Some k)
  have k: "k < length exe" "exe ! k = CHR ''/''" "CHR ''/'' \<notin> set (drop (Suc k) exe)"
    using sv_find_last_of_Some [OF Some] by auto
  have "exe = take (Suc k) exe @ drop (Suc k) exe" by simp
  moreover have "last (take (Suc k) exe) = CHR ''/''"
    using k(1,2) by (simp add: take_Suc_conv_app_nth)
  ultimately show ?thesis using Some k(3) by (intro exI [of _ "take (Suc k) exe"]) (simp add: exe_trunk_def)
qed

lemma convert_raw_args_eq:
  "convert_raw_args argv = (if length argv > 1 then Returned (exe_trunk (argv ! 0), drop 1 argv) else Contract_Violation)"
  by (simp add: convert_raw_args_def Let_def)

section \<open>Properties\<close>

text \<open>
  The exit status says nothing: whenever \<^verbatim>\<open>main\<close> returns, it returns 0, and an exception of
  any kind (a file that cannot be opened, a wrong number of arguments, a failed write) is printed on
  standard output, behind whatever the command had already written there.
\<close>

theorem main_always_returns_zero:
  assumes "om_main os ts threads argv w = Some (Returned status, printed, w')"
  shows "status = 0 \<and>
    (\<exists>r pr. main_body os ts threads argv w = Some (r, pr, w') \<and>
       (r = Returned () \<and> printed = pr \<or>
        (\<exists>e. r = Threw (Runtime_Error e) \<and> printed = pr @ [e]) \<or>
        r = Threw Unknown_Exception \<and> printed = pr @ [''unknown exception'']))"
  using assms by (auto simp: om_main_def split: option.splits outcome.splits exn.splits prod.splits)

theorem main_always_returns_zero_witness:
  "\<exists>w'. om_main sim_os ts_demo (\<lambda>d re w. None) [''/usr/bin/ocat'', ''missing''] sim0 =
      Some (Returned 0, [''failed to open: missing''], w') \<and>
    (\<exists>r pr. main_body sim_os ts_demo (\<lambda>d re w. None) [''/usr/bin/ocat'', ''missing''] sim0 = Some (r, pr, w') \<and>
       r = Threw (Runtime_Error ''failed to open: missing''))"
proof -
  have trunk: "exe_trunk ''/usr/bin/ocat'' = ''ocat''"
    by (simp add: exe_trunk_def sv_find_last_of_def Let_def)
  obtain w' where run: "om_main sim_os ts_demo (\<lambda>d re w. None) [''/usr/bin/ocat'', ''missing''] sim0 =
      Some (Returned 0, [''failed to open: missing''], w')"
    by (simp add: om_main_def main_body_def convert_raw_args_eq trunk set_rlimit_def sim0_def is_cat_def starts_with_def
        cat_def open_file_def ar_bool_def ar_make_def fd_destroy_def ar_destroy_def)
  have "main_body sim_os ts_demo (\<lambda>d re w. None) [''/usr/bin/ocat'', ''missing''] sim0 =
      Some (Threw (Runtime_Error ''failed to open: missing''), [], w')"
    using main_always_returns_zero [OF run]
    by (auto simp: main_body_def convert_raw_args_eq trunk set_rlimit_def sim0_def is_cat_def starts_with_def
        cat_def open_file_def ar_bool_def ar_make_def fd_destroy_def ar_destroy_def)
  with run show ?thesis by blast
qed

text \<open>
  The command is picked by the name of the program without its directories: the name is what
  follows the last slash of \<open>argv[0]\<close>, the arguments are all the others, the postcondition of
  \<^verbatim>\<open>convert_raw_args\<close> holds, and without arguments its precondition ends the program.
\<close>

theorem raw_args_split:
  "(case argv of
      exe # arg # args \<Rightarrow>
        convert_raw_args argv = Returned (exe_trunk exe, arg # args) \<and>
        (\<exists>dir. exe = dir @ exe_trunk exe \<and> (dir = [] \<or> last dir = CHR ''/'') \<and> CHR ''/'' \<notin> set (exe_trunk exe))
    | _ \<Rightarrow> convert_raw_args argv = Contract_Violation)"
  using exe_trunk_parts by (auto simp: convert_raw_args_eq split: list.splits)

text \<open>
  C35. On a kernel that refuses a soft limit above the hard limit, a process whose hard limit is
  below 524288 cannot run any command: raising the soft limit alone fails and every invocation
  ends with the line \<open>failed to set rlimit\<close> and status 0. Otherwise the soft limit is at least
  524288 afterwards and the hard limit is as it was.
\<close>

theorem low_hard_limit_disables_everything:
  assumes "sys_getrlimit os w = ((0, rl), w1)"
    and "\<And>l. sys_setrlimit os l w1 = (if rlim_cur l \<le> rlim_max l then (0, after l) else (-1, w1))"
    and "rlim_cur rl < 524288"
  shows "if rlim_max rl < 524288
    then om_main os ts threads argv w = Some (Returned 0, [''failed to set rlimit''], w1)
    else set_rlimit os w = (Returned (), after (rl\<lparr>rlim_cur := 524288\<rparr>))"
  using assms by (auto simp: set_rlimit_def om_main_def main_body_def Let_def not_le)

theorem low_hard_limit_disables_everything_witness:
  "om_main sim_os ts_demo (\<lambda>d re w. None) [''cat'', ''a''] (sim0\<lparr>sim_rlimit := \<lparr>rlim_cur = 1024, rlim_max = 4096\<rparr>\<rparr>) =
     Some (Returned 0, [''failed to set rlimit''], sim0\<lparr>sim_rlimit := \<lparr>rlim_cur = 1024, rlim_max = 4096\<rparr>\<rparr>)"
  using low_hard_limit_disables_everything [where os = sim_os and rl = "\<lparr>rlim_cur = 1024, rlim_max = 4096\<rparr>"
      and w = "sim0\<lparr>sim_rlimit := \<lparr>rlim_cur = 1024, rlim_max = 4096\<rparr>\<rparr>"
      and ?w1.0 = "sim0\<lparr>sim_rlimit := \<lparr>rlim_cur = 1024, rlim_max = 4096\<rparr>\<rparr>"
      and after = "\<lambda>l. (sim0\<lparr>sim_rlimit := \<lparr>rlim_cur = 1024, rlim_max = 4096\<rparr>\<rparr>)\<lparr>sim_rlimit := l\<rparr>"
      and ts = ts_demo and threads = "\<lambda>d re w. None" and argv = "[''cat'', ''a'']"]
  by simp

end
