(* ===== verification/Pipeline_Types.thy ===== *)
theory Pipeline_Types
  imports Pipeline
begin

section \<open>Which pipelines type check\<close>

text \<open>
  \<^verbatim>\<open>operator|\<close> only asks for the concept \<^verbatim>\<open>Composable\<close>, which every stage and every \<^verbatim>\<open>Composed\<close> has, so any stages may be
  written one after the other. Whether the program compiles is decided where a pipeline is called: the call needs an overload of
  \<^verbatim>\<open>operator()\<close> with these argument types, and the body of that overload is instantiated (a member of a template is
  instantiated only when it is used), with the calls it makes on \<^verbatim>\<open>next\<close>. In a member
  function that is \<^verbatim>\<open>const\<close> the member \<^verbatim>\<open>next\<close> is \<^verbatim>\<open>const\<close> too, and only a \<^verbatim>\<open>const\<close> overload can be called on it.
  Here are the overloads of all stages that are built on the base classes of \<^verbatim>\<open>concepts/concepts.h\<close>, and what
  pipelines they allow. Types are up to the implicit conversions used: a \<^verbatim>\<open>std::string\<close> or a literal is taken as a
  \<^verbatim>\<open>std::string_view\<close>, a vector of bytes as a \<^verbatim>\<open>std::span\<close>, \<^verbatim>\<open>uintmax_t\<close> as \<^verbatim>\<open>std::size_t\<close>.
\<close>

datatype arg_type = Int_Arg | Size_Arg | Bytes_Arg | Text_Arg | Bool_Arg | Path_Arg

text \<open>Overload resolution: whether the overload chosen for these arguments is \<^verbatim>\<open>const\<close>, and its calls on \<^verbatim>\<open>next\<close>.\<close>

type_synonym signature = "arg_type list \<Rightarrow> (bool \<times> arg_type list list) option"

definition CopyFileRange_sig :: signature where
  "CopyFileRange_sig = [[Int_Arg, Size_Arg] \<mapsto> (True, [])]"

definition DirectSplice_sig :: signature where
  "DirectSplice_sig = [[Int_Arg, Size_Arg] \<mapsto> (True, [])]"

definition DirectoryTraverse_sig :: signature where
  "DirectoryTraverse_sig = [[Path_Arg] \<mapsto> (True, [[Int_Arg, Size_Arg]])]"

definition MappedFile_sig :: signature where
  "MappedFile_sig = [[Int_Arg, Size_Arg] \<mapsto> (True, [[Bytes_Arg]])]"

definition ReadFile_sig :: signature where
  "ReadFile_sig = [[Int_Arg, Size_Arg] \<mapsto> (False, [[Bytes_Arg]])]"

definition source_Splice_sig :: signature where
  "source_Splice_sig = [[Int_Arg, Size_Arg] \<mapsto> (True, [[Int_Arg, Size_Arg, Size_Arg]])]"

definition Batch_sig :: signature where
  "Batch_sig = [[Text_Arg] \<mapsto> (False, [[Text_Arg, Bool_Arg]]), [] \<mapsto> (False, [[Text_Arg, Bool_Arg]])]"

definition Re2Regex_sig :: signature where
  "Re2Regex_sig = [[Bytes_Arg] \<mapsto> (False, [[Text_Arg], [Text_Arg]])]"

definition SimpleRegex_sig :: signature where
  "SimpleRegex_sig = [[Bytes_Arg] \<mapsto> (True, [[Text_Arg, Bool_Arg]])]"

definition TreeSitter_sig :: signature where
  "TreeSitter_sig = [[Bytes_Arg] \<mapsto> (False, [[Bytes_Arg]])]"

definition VectorScan_sig :: signature where
  "VectorScan_sig = [[Bytes_Arg] \<mapsto> (False, [[Text_Arg], [Text_Arg]])]"

definition Cout_sig :: signature where
  "Cout_sig = [[Bytes_Arg] \<mapsto> (True, []), [Text_Arg] \<mapsto> (True, []), [Text_Arg, Bool_Arg] \<mapsto> (True, [])]"

definition NullSink_sig :: signature where
  "NullSink_sig = (\<lambda>_. Some (True, []))"

definition sink_Splice_sig :: signature where
  "sink_Splice_sig = [[Int_Arg, Size_Arg, Size_Arg] \<mapsto> (True, [])]"

definition Write_sig :: signature where
  "Write_sig = [[Bytes_Arg] \<mapsto> (True, []), [Text_Arg] \<mapsto> (True, []), [Text_Arg, Bool_Arg] \<mapsto> (True, [])]"

datatype stage_name =
    CopyFileRange | DirectSplice | DirectoryTraverse | MappedFile | ReadFile | source_Splice
  | Batch | Re2Regex | SimpleRegex | TreeSitter | VectorScan
  | Cout | NullSink | sink_Splice | Write

fun kind_of :: "stage_name \<Rightarrow> kind" where
  "kind_of Batch = Transform"
| "kind_of Re2Regex = Transform"
| "kind_of SimpleRegex = Transform"
| "kind_of TreeSitter = Transform"
| "kind_of VectorScan = Transform"
| "kind_of Cout = Sink"
| "kind_of NullSink = Sink"
| "kind_of sink_Splice = Sink"
| "kind_of Write = Sink"
| "kind_of _ = Source"

fun sig_of :: "stage_name \<Rightarrow> signature" where
  "sig_of CopyFileRange = CopyFileRange_sig"
| "sig_of DirectSplice = DirectSplice_sig"
| "sig_of DirectoryTraverse = DirectoryTraverse_sig"
| "sig_of MappedFile = MappedFile_sig"
| "sig_of ReadFile = ReadFile_sig"
| "sig_of source_Splice = source_Splice_sig"
| "sig_of Batch = Batch_sig"
| "sig_of Re2Regex = Re2Regex_sig"
| "sig_of SimpleRegex = SimpleRegex_sig"
| "sig_of TreeSitter = TreeSitter_sig"
| "sig_of VectorScan = VectorScan_sig"
| "sig_of Cout = Cout_sig"
| "sig_of NullSink = NullSink_sig"
| "sig_of sink_Splice = sink_Splice_sig"
| "sig_of Write = Write_sig"

definition stage_comp :: "stage_name \<Rightarrow> stage_name comp" where
  "stage_comp a = Stage (kind_of a) a"

text \<open>Whether a call compiles on a node, which is \<^verbatim>\<open>const\<close> or not.\<close>

fun accepts :: "stage_name node \<Rightarrow> bool \<Rightarrow> arg_type list \<Rightarrow> bool" where
  "accepts (Sink_Node a) is_const args = (case sig_of a args of None \<Rightarrow> False | Some (k, calls) \<Rightarrow> is_const \<longrightarrow> k)"
| "accepts (Node a nxt) is_const args =
     (case sig_of a args of
        None \<Rightarrow> False
      | Some (k, calls) \<Rightarrow> (is_const \<longrightarrow> k) \<and> list_all (\<lambda>c. accepts nxt k c) calls)"

section \<open>The pipelines that take a file\<close>

text \<open>What may stand between a source that hands on bytes and the sink, in a pipeline and in a \<^verbatim>\<open>const\<close> one.\<close>

definition text_sinks :: "stage_name set" where
  "text_sinks = {Cout, NullSink, Write}"

definition byte_stages :: "stage_name list set" where
  "byte_stages = {[], [Re2Regex], [VectorScan], [SimpleRegex], [Re2Regex, Batch], [VectorScan, Batch]}"

definition takes_file :: "bool \<Rightarrow> stage_name \<Rightarrow> stage_name list \<Rightarrow> stage_name \<Rightarrow> bool" where
  "takes_file is_const s ts k \<longleftrightarrow>
     s = CopyFileRange \<or> s = DirectSplice \<or>
     s = source_Splice \<and> ts = [] \<and> k \<in> {sink_Splice, NullSink} \<or>
     s = MappedFile \<and> (ts = [] \<or> ts = [SimpleRegex]) \<and> k \<in> text_sinks \<or>
     s = ReadFile \<and> \<not> is_const \<and> k \<in> text_sinks \<and> (\<exists>n. \<exists>t \<in> byte_stages. ts = replicate n TreeSitter @ t)"

lemmas sig_defs = CopyFileRange_sig_def DirectSplice_sig_def DirectoryTraverse_sig_def MappedFile_sig_def ReadFile_sig_def
  source_Splice_sig_def Batch_sig_def Re2Regex_sig_def SimpleRegex_sig_def TreeSitter_sig_def VectorScan_sig_def Cout_sig_def
  NullSink_sig_def sink_Splice_sig_def Write_sig_def

text \<open>The node of \<open>s | ... | k\<close>.\<close>

definition nodes :: "stage_name list \<Rightarrow> stage_name \<Rightarrow> stage_name node" where
  "nodes ss k = foldr Node ss (Sink_Node k)"

lemma nodes_simps [simp]: "nodes [] k = Sink_Node k" "nodes (s # ss) k = Node s (nodes ss k)"
  by (simp_all add: nodes_def)

lemma instantiate_stages: "foldr instantiate (map stage_comp ss) n = foldr Node ss n"
  by (induction ss) (simp_all add: stage_comp_def)

lemma pipe_op_nodes: "kind_of k = Sink \<Longrightarrow> pipe_op (chain (stage_comp s) (map stage_comp ss)) (stage_comp k) = Inr (nodes (s # ss) k)"
proof -
  assume "kind_of k = Sink"
  then have "sink_instance (stage_comp k) = Some (Sink_Node k)" by (simp add: stage_comp_def)
  moreover have "instantiate (stage_comp s) n = Node s n" for n by (simp add: stage_comp_def)
  ultimately show ?thesis by (simp add: pipe_op_def instantiate_chain instantiate_stages nodes_def)
qed

lemma accepts_flag_text:
  "kind_of k = Sink \<Longrightarrow> list_all (\<lambda>t. kind_of t \<noteq> Sink) ts \<Longrightarrow>
     accepts (nodes ts k) c [Text_Arg, Bool_Arg] \<longleftrightarrow> ts = [] \<and> k \<in> text_sinks"
  by (cases ts; cases "hd ts"; cases k) (auto simp: sig_defs text_sinks_def)

lemma accepts_text:
  "kind_of k = Sink \<Longrightarrow> list_all (\<lambda>t. kind_of t \<noteq> Sink) ts \<Longrightarrow>
     accepts (nodes ts k) c [Text_Arg] \<longleftrightarrow> (ts = [] \<or> \<not> c \<and> ts = [Batch]) \<and> k \<in> text_sinks"
proof (cases ts)
  case (Cons t ts')
  assume "kind_of k = Sink" "list_all (\<lambda>t. kind_of t \<noteq> Sink) ts"
  then show ?thesis using Cons accepts_flag_text [of k ts' False] by (cases t) (auto simp: sig_defs)
qed (cases k; auto simp: sig_defs text_sinks_def)

lemma accepts_bytes_const:
  "kind_of k = Sink \<Longrightarrow> list_all (\<lambda>t. kind_of t \<noteq> Sink) ts \<Longrightarrow>
     accepts (nodes ts k) True [Bytes_Arg] \<longleftrightarrow> (ts = [] \<or> ts = [SimpleRegex]) \<and> k \<in> text_sinks"
proof (cases ts)
  case (Cons t ts')
  assume "kind_of k = Sink" "list_all (\<lambda>t. kind_of t \<noteq> Sink) ts"
  then show ?thesis using Cons accepts_flag_text [of k ts' True] by (cases t) (auto simp: sig_defs)
qed (cases k; auto simp: sig_defs text_sinks_def)

lemma highlighted_first:
  "(\<exists>n. \<exists>t \<in> B. x # ts = replicate n TreeSitter @ t) \<longleftrightarrow>
     x # ts \<in> B \<or> x = TreeSitter \<and> (\<exists>n. \<exists>t \<in> B. ts = replicate n TreeSitter @ t)"
proof
  assume "\<exists>n. \<exists>t \<in> B. x # ts = replicate n TreeSitter @ t"
  then obtain n t where "t \<in> B" "x # ts = replicate n TreeSitter @ t" by blast
  then show "x # ts \<in> B \<or> x = TreeSitter \<and> (\<exists>n. \<exists>t \<in> B. ts = replicate n TreeSitter @ t)" by (cases n) auto
next
  assume "x # ts \<in> B \<or> x = TreeSitter \<and> (\<exists>n. \<exists>t \<in> B. ts = replicate n TreeSitter @ t)"
  then show "\<exists>n. \<exists>t \<in> B. x # ts = replicate n TreeSitter @ t"
  proof (elim disjE conjE exE bexE)
    assume "x # ts \<in> B"
    then show ?thesis by (intro exI [of _ 0] bexI [of _ "x # ts"]) simp_all
  next
    fix n t
    assume "x = TreeSitter" "t \<in> B" "ts = replicate n TreeSitter @ t"
    then show ?thesis by (intro exI [of _ "Suc n"] bexI [of _ t]) simp_all
  qed
qed

lemma accepts_bytes:
  "kind_of k = Sink \<Longrightarrow> list_all (\<lambda>t. kind_of t \<noteq> Sink) ts \<Longrightarrow>
     accepts (nodes ts k) False [Bytes_Arg] \<longleftrightarrow>
       k \<in> text_sinks \<and> (\<exists>n. \<exists>t \<in> byte_stages. ts = replicate n TreeSitter @ t)"
proof (induction ts)
  case Nil
  have "\<exists>n. \<exists>t \<in> byte_stages. [] = replicate n TreeSitter @ t"
    by (intro exI [of _ 0] bexI [of _ "[]"]) (simp_all add: byte_stages_def)
  with Nil show ?case by (cases k) (simp_all add: sig_defs text_sinks_def)
next
  case (Cons x ts)
  then have "accepts (nodes (x # ts) k) False [Bytes_Arg] \<longleftrightarrow>
      k \<in> text_sinks \<and> (x # ts \<in> byte_stages \<or> x = TreeSitter \<and> (\<exists>n. \<exists>t \<in> byte_stages. ts = replicate n TreeSitter @ t))"
    using accepts_flag_text [of k ts True] accepts_text [of k ts False]
    by (cases x) (auto simp: sig_defs byte_stages_def)
  then show ?case by (simp only: highlighted_first)
qed

lemma accepts_file:
  assumes "kind_of k = Sink" "list_all (\<lambda>t. kind_of t \<noteq> Sink) (s # ts)"
  shows "accepts (nodes (s # ts) k) c [Int_Arg, Size_Arg] \<longleftrightarrow> takes_file c s ts k"
proof -
  have pipe: "accepts (nodes ts k) True [Int_Arg, Size_Arg, Size_Arg] \<longleftrightarrow> ts = [] \<and> k \<in> {sink_Splice, NullSink}"
    using assms by (cases ts; cases "hd ts"; cases k) (auto simp: sig_defs)
  show ?thesis
    using assms pipe accepts_bytes [of k ts] accepts_bytes_const [of k ts]
    by (cases s) (auto simp: takes_file_def sig_defs)
qed

section \<open>Properties\<close>

text \<open>
  C12. Exactly these pipelines can be executed on a descriptor and a size: after \<^verbatim>\<open>CopyFileRange\<close> and \<^verbatim>\<open>DirectSplice\<close>
  anything, for they never call it; the splice source only with the splice sink or none; after \<^verbatim>\<open>ReadFile\<close> any number
  of highlighters, at most one regular expression, after \<^verbatim>\<open>Re2Regex\<close> or \<^verbatim>\<open>VectorScan\<close> perhaps a batch, and a sink for text; after
  \<^verbatim>\<open>MappedFile\<close>, whose \<^verbatim>\<open>operator()\<close> is \<^verbatim>\<open>const\<close>, only \<^verbatim>\<open>SimpleRegex\<close> or nothing. On a path, \<^verbatim>\<open>DirectoryTraverse\<close> can be
  put in front of all of these but those with \<^verbatim>\<open>ReadFile\<close>.
\<close>

theorem executable_pipelines:
  assumes "kind_of k = Sink" "list_all (\<lambda>t. kind_of t \<noteq> Sink) (s # ts)"
  shows "\<exists>n n'. pipe_op (chain (stage_comp s) (map stage_comp ts)) (stage_comp k) = Inr n \<and>
    pipe_op (chain (stage_comp DirectoryTraverse) (map stage_comp (s # ts))) (stage_comp k) = Inr n' \<and>
    (accepts n False [Int_Arg, Size_Arg] \<longleftrightarrow> takes_file False s ts k) \<and>
    (accepts n' False [Path_Arg] \<longleftrightarrow> takes_file True s ts k)"
  using accepts_file [OF assms, of False] accepts_file [OF assms, of True]
  by (intro exI [of _ "nodes (s # ts) k"] exI [of _ "nodes (DirectoryTraverse # s # ts) k"] conjI pipe_op_nodes assms(1))
    (simp_all add: sig_defs)

text \<open>The pipeline of \<^verbatim>\<open>grep\<close>, with the call that flushes its batch, and a traversal of files that are read.\<close>

theorem executable_pipelines_witness:
  "\<exists>n n'. pipe_op (chain (stage_comp ReadFile) [stage_comp VectorScan, stage_comp Batch]) (stage_comp Write) = Inr n \<and>
     accepts n False [Int_Arg, Size_Arg] \<and> (\<exists>b. get_node 2 n = Some b \<and> accepts b False []) \<and>
     pipe_op (chain (stage_comp DirectoryTraverse) (map stage_comp [ReadFile, VectorScan, Batch])) (stage_comp Write) = Inr n' \<and>
     \<not> accepts n' False [Path_Arg]"
proof -
  have "takes_file False ReadFile [VectorScan, Batch] Write"
    by (auto simp: takes_file_def text_sinks_def byte_stages_def intro!: exI [of _ 0])
  moreover have "\<not> takes_file True ReadFile [VectorScan, Batch] Write" by (simp add: takes_file_def)
  moreover obtain n n' where
      "pipe_op (chain (stage_comp ReadFile) (map stage_comp [VectorScan, Batch])) (stage_comp Write) = Inr n"
      "pipe_op (chain (stage_comp DirectoryTraverse) (map stage_comp [ReadFile, VectorScan, Batch])) (stage_comp Write) = Inr n'"
      "accepts n False [Int_Arg, Size_Arg] \<longleftrightarrow> takes_file False ReadFile [VectorScan, Batch] Write"
      "accepts n' False [Path_Arg] \<longleftrightarrow> takes_file True ReadFile [VectorScan, Batch] Write"
    using executable_pipelines [of Write ReadFile "[VectorScan, Batch]"] by (auto simp del: list.map)
  moreover from this(1) have "n = nodes [ReadFile, VectorScan, Batch] Write"
    by (subst (asm) pipe_op_nodes) simp_all
  then have "\<exists>b. get_node 2 n = Some b \<and> accepts b False []" by (simp add: numeral_2_eq_2 sig_defs)
  ultimately show ?thesis by auto
qed

end
