(* ===== verification/Filters_Agree.thy ===== *)
theory Filters_Agree
  imports Line_Filters
begin

section \<open>Two filters for the same lines\<close>

text \<open>
  \<^verbatim>\<open>transform/re2_regex.h\<close> asks its matcher about every line; \<^verbatim>\<open>transform/vectorscan_regex.h\<close> scans the whole
  buffer and prints the line around every match end that is reported. When both engines agree about
  which lines match, the two transforms print the same lines. Vectorscan does not promise an
  order of its reports, only that they lie in the buffer; with reports in order, the lines of one
  transform are a subsequence of those of the other.
\<close>

text \<open>The lines of a text with the offsets at which they start, the empty one behind a last newline included.\<close>

function line_spans :: "nat \<Rightarrow> string \<Rightarrow> (nat \<times> string) list" where
  "line_spans p d =
     (let l = takeWhile (\<lambda>c. c \<noteq> newline) d in
      (p, l) # (if length l < length d then line_spans (p + Suc (length l)) (drop (Suc (length l)) d) else []))"
  by pat_completeness auto
termination
  by (relation "measure (\<lambda>(p, d). length d)") auto

declare line_spans.simps [simp del]

definition ends_in :: "nat \<times> string \<Rightarrow> nat list \<Rightarrow> nat" where
  "ends_in span es = length (filter (\<lambda>e. fst span \<le> e \<and> e \<le> fst span + length (snd span)) es)"

lemma takeWhile_before: "c \<notin> set xs \<Longrightarrow> takeWhile (\<lambda>x. x \<noteq> c) xs = xs"
  "c \<notin> set xs \<Longrightarrow> takeWhile (\<lambda>x. x \<noteq> c) (xs @ c # ys) = xs"
  by (induction xs) auto

lemma text_lines_cases:
  obtains (one) "newline \<notin> set d" "line_spans p d = [(p, d)]"
    | (more) l r where "d = l @ newline # r" "newline \<notin> set l"
      "line_spans p d = (p, l) # line_spans (p + Suc (length l)) r"
proof (cases "newline \<in> set d")
  case False
  then show thesis using one by (simp add: line_spans.simps [of p d] Let_def takeWhile_before(1))
next
  case True
  then obtain l r where d: "d = l @ newline # r" "newline \<notin> set l" by (meson split_list_first)
  then show thesis using more [OF d] line_spans.simps [of p d] by (simp add: Let_def takeWhile_before(2))
qed

lemma span_starts: "(q, l) \<in> set (line_spans p d) \<Longrightarrow> p \<le> q"
proof (induction "length d" arbitrary: p d rule: less_induct)
  case less
  show ?case
  proof (cases rule: text_lines_cases [of d p])
    case (more l' r)
    then show ?thesis using less.hyps [of r "p + Suc (length l')"] less.prems by fastforce
  qed (use less.prems in auto)
qed

lemma matching_lines_spans:
  "matching_lines m d = map snd (filter (\<lambda>(q, l). l \<noteq> [] \<and> m l) (line_spans p d))"
proof (induction "length d" arbitrary: p d rule: less_induct)
  case less
  show ?case
  proof (cases "d = []")
    case True
    then show ?thesis by (simp add: line_spans.simps)
  next
    case ne: False
    show ?thesis
    proof (cases rule: text_lines_cases [of d p])
      case one
      then have "split_lines d = [d]"
        using ne by (subst split_lines.simps) (simp add: split_lines.simps [of "[]"] takeWhile_before(1))
      then show ?thesis using one by (simp add: matching_lines_def)
    next
      case (more l r)
      then have "split_lines d = l # split_lines r" by (subst split_lines.simps) (simp add: takeWhile_before(2))
      then have "matching_lines m d = (if l \<noteq> [] \<and> m l then [l] else []) @ matching_lines m r"
        by (simp add: matching_lines_def)
      then show ?thesis using less.hyps [of r "p + Suc (length l)"] more by simp
    qed
  qed
qed

text \<open>The line around an offset, in the first line of a text and behind it.\<close>

lemma match_line_first:
  assumes "newline \<notin> set l" "e \<le> length l"
  shows "match_line (l @ newline # r) e = l" "match_line l e = l"
proof -
  have "newline \<notin> set (drop e l)" "newline \<notin> set (take e l)"
    using assms(1) by (auto dest: in_set_dropD in_set_takeD)
  then show "match_line (l @ newline # r) e = l" "match_line l e = l"
    using assms(2) sv_find_None [of e l newline] sv_find_last_of_None [of newline "take e l"]
    by (simp_all add: match_line_def sv_substr_def Let_def sv_find_def takeWhile_before)
qed

lemma sv_find_last_of_behind:
  "sv_find_last_of c (xs @ c # ys) =
     (case sv_find_last_of c ys of None \<Rightarrow> Some (length xs) | Some k \<Rightarrow> Some (Suc (length xs) + k))"
proof (cases "c \<in> set ys")
  case True
  then have "takeWhile (\<lambda>x. x \<noteq> c) (rev ys @ c # rev xs) = takeWhile (\<lambda>x. x \<noteq> c) (rev ys)"
    by (intro takeWhile_append1 [of c]) simp_all
  moreover have "length (takeWhile (\<lambda>x. x \<noteq> c) (rev ys)) < length ys"
    using True length_takeWhile_full [of c "rev ys"] length_takeWhile_le [of "\<lambda>x. x \<noteq> c" "rev ys"] by simp
  ultimately show ?thesis by (simp add: sv_find_last_of_def Let_def)
next
  case False
  then show ?thesis by (simp add: sv_find_last_of_def Let_def takeWhile_before)
qed

lemma match_line_behind: "match_line (l @ newline # r) (Suc (length l) + e) = match_line r e"
proof -
  have "sv_find newline (l @ newline # r) (Suc (length l) + e) = map_option ((+) (Suc (length l))) (sv_find newline r e)"
    by (simp add: sv_find_def Let_def)
  then show ?thesis
    by (simp add: match_line_def sv_substr_def Let_def sv_find_last_of_behind split: option.splits)
qed

text \<open>With the reports in order, the lines that are printed are those of the text, each as often as ends were reported in it.\<close>

lemma sorted_split: "sorted es \<Longrightarrow> es = filter (\<lambda>e. e \<le> k) es @ filter (\<lambda>e. k < e) (es :: nat list)"
proof (induction es)
  case (Cons e es)
  have "filter (\<lambda>e. e \<le> k) es = []" if "\<not> e \<le> k" using that Cons.prems by (auto simp: filter_empty_conv)
  then show ?case using Cons by (cases "e \<le> k") simp_all
qed simp

lemma ends_in_append [simp]: "ends_in s (xs @ ys) = ends_in s xs + ends_in s ys"
  by (simp add: ends_in_def)

lemma ends_in_all: "(\<forall>e \<in> set es. fst s \<le> e \<and> e \<le> fst s + length (snd s)) \<Longrightarrow> ends_in s es = length es"
  by (simp add: ends_in_def)

lemma ends_in_none: "(\<forall>e \<in> set es. e < fst s \<or> fst s + length (snd s) < e) \<Longrightarrow> ends_in s es = 0"
  by (auto simp: ends_in_def filter_empty_conv)

lemma lines_by_report:
  assumes "sorted es" "\<forall>e \<in> set es. e \<le> length d"
  shows "map (match_line d) es = concat (map (\<lambda>s. replicate (ends_in s (map ((+) p) es)) (snd s)) (line_spans p d))"
  using assms
proof (induction "length d" arbitrary: p d es rule: less_induct)
  case less
  have same: "map (match_line d) xs = replicate (length xs) l" if "\<And>e. e \<in> set xs \<Longrightarrow> match_line d e = l" for xs l
    using that by (induction xs) simp_all
  show ?case
  proof (cases rule: text_lines_cases [of d p])
    case one
    then have "map (match_line d) es = replicate (length es) d"
      using less.prems(2) match_line_first(2) by (intro same) simp
    then show ?thesis using one less.prems(2) by (simp add: ends_in_all)
  next
    case (more l r)
    let ?A = "filter (\<lambda>e. e \<le> length l) es" and ?B = "filter (\<lambda>e. length l < e) es"
    define B where "B = map (\<lambda>e. e - Suc (length l)) ?B"
    have es: "es = ?A @ ?B" by (rule sorted_split [OF less.prems(1)])
    have B: "?B = map ((+) (Suc (length l))) B" unfolding B_def map_map by (rule map_idI [symmetric]) auto
    have "sorted B" unfolding B_def sorted_map
      using sorted_wrt_filter [OF less.prems(1)] by (rule sorted_wrt_mono_rel [rotated]) simp
    moreover have "\<forall>e \<in> set B. e \<le> length r" using less.prems(2) more(1) by (auto simp: B_def)
    ultimately have IH: "map (match_line r) B =
        concat (map (\<lambda>s. replicate (ends_in s (map ((+) (p + Suc (length l))) B)) (snd s)) (line_spans (p + Suc (length l)) r))"
      using less.hyps [of r B "p + Suc (length l)"] more(1) by simp
    have first: "map (match_line d) ?A = replicate (length ?A) l"
      using match_line_first(1) [OF more(2)] more(1) by (intro same) simp
    have rest: "map (match_line d) ?B = map (match_line r) B"
      unfolding B more(1) using match_line_behind [of l r] by (simp add: comp_def)
    have "ends_in s (map ((+) p) es) = ends_in s (map ((+) (p + Suc (length l))) B)"
      if "s \<in> set (line_spans (p + Suc (length l)) r)" for s
    proof -
      have "p + Suc (length l) \<le> fst s" using span_starts [of "fst s" "snd s"] that by simp
      then have "ends_in s (map ((+) p) ?A) = 0" by (intro ends_in_none) auto
      moreover have "map ((+) p) ?B = map ((+) (p + Suc (length l))) B" unfolding B by simp
      ultimately show ?thesis by (subst es) simp
    qed
    moreover have "ends_in (p, l) (map ((+) p) es) = length ?A"
    proof -
      have "ends_in (p, l) (map ((+) p) ?A) = length ?A" "ends_in (p, l) (map ((+) p) ?B) = 0"
        by (simp_all add: ends_in_all ends_in_none)
      then show ?thesis by (subst es) simp
    qed
    ultimately show ?thesis
      using first rest IH more(3) by (subst (1) es) (simp cong: map_cong)
  qed
qed

section \<open>The same lines\<close>

text \<open>The picked lines are a subsequence of the repeated ones, and there are no others among these.\<close>

lemma picked_repeated:
  assumes "\<forall>s \<in> set ss. f s \<longleftrightarrow> 0 < n s"
  shows "subseq (map snd (filter f ss)) (concat (map (\<lambda>s. replicate (n s) (snd s)) ss)) \<and>
    set (concat (map (\<lambda>s. replicate (n s) (snd s)) ss)) = set (map snd (filter f ss))"
  using assms
proof (induction ss)
  case (Cons s ss)
  then have IH: "subseq (map snd (filter f ss)) (concat (map (\<lambda>s. replicate (n s) (snd s)) ss))"
      "set (concat (map (\<lambda>s. replicate (n s) (snd s)) ss)) = set (map snd (filter f ss))" by simp_all
  show ?case
  proof (cases "n s")
    case (Suc k)
    then show ?thesis using IH Cons.prems by (auto intro: list_emb_append2)
  qed (use IH Cons.prems in auto)
qed simp

lemma subseq_mset: "subseq xs ys \<Longrightarrow> mset xs \<subseteq># mset ys"
  by (induction rule: list_emb.induct) (auto simp: subseteq_mset_def intro: le_SucI)

text \<open>When the engines agree: the lines RE2 picks and those around the reported ends.\<close>

definition engines_agree :: "(string \<Rightarrow> bool) \<Rightarrow> nat list \<Rightarrow> string \<Rightarrow> bool" where
  "engines_agree m es d \<longleftrightarrow> (\<forall>(p, l) \<in> set (line_spans 0 d). (l \<noteq> [] \<and> m l) = (\<exists>e \<in> set es. p \<le> e \<and> e \<le> p + length l))"

lemma ends_in_mset: "mset xs = mset ys \<Longrightarrow> ends_in s xs = ends_in s ys"
  unfolding ends_in_def size_mset [symmetric] mset_filter by simp

lemma ends_in_positive: "0 < ends_in s es \<longleftrightarrow> (\<exists>e \<in> set es. fst s \<le> e \<and> e \<le> fst s + length (snd s))"
  by (simp add: ends_in_def filter_empty_conv)

lemma same_lines:
  assumes "engines_agree m es d" "\<forall>e \<in> set es. e \<le> length d"
  shows "set (map (match_line d) es) = set (matching_lines m d)"
    "mset (matching_lines m d) \<subseteq># mset (map (match_line d) es)"
    "sorted es \<Longrightarrow> subseq (matching_lines m d) (map (match_line d) es)"
proof -
  let ?vs = "map (match_line d) (sort es)"
  have vs: "?vs = concat (map (\<lambda>s. replicate (ends_in s es) (snd s)) (line_spans 0 d))"
    using lines_by_report [of "sort es" d 0] assms(2) ends_in_mset [of "sort es" es] by (simp add: map_idI)
  have "\<forall>s \<in> set (line_spans 0 d). (case s of (q, l) \<Rightarrow> l \<noteq> [] \<and> m l) \<longleftrightarrow> 0 < ends_in s es"
    using assms(1) unfolding engines_agree_def by (simp add: split_beta ends_in_positive)
  note picked = picked_repeated [of "line_spans 0 d" "\<lambda>(q, l). l \<noteq> [] \<and> m l" "\<lambda>s. ends_in s es", OF this]
  have sub: "subseq (matching_lines m d) ?vs" "set ?vs = set (matching_lines m d)"
    unfolding vs matching_lines_spans [of m d 0] using conjunct1 [OF picked] conjunct2 [OF picked] .
  show "set (map (match_line d) es) = set (matching_lines m d)" using sub(2) by simp
  have "mset (matching_lines m d) \<subseteq># mset ?vs" using sub(1) by (rule subseq_mset)
  then show "mset (matching_lines m d) \<subseteq># mset (map (match_line d) es)" by simp
  show "subseq (matching_lines m d) (map (match_line d) es)" if "sorted es"
    using sub(1) that by (simp add: sorted_sort_id)
qed

section \<open>Properties\<close>


text \<open>A chunk of two lines; the pattern \<open>x\<close> is twice in the first.\<close>

definition two_lines :: string where
  "two_lines = ''xax'' @ [newline] @ ''b''"

definition x_matches :: "string \<Rightarrow> string \<Rightarrow> bool" where
  "x_matches p l \<longleftrightarrow> CHR ''x'' \<in> set l"

definition x_ends :: "bytes \<Rightarrow> int \<times> (nat \<times> nat) list" where
  "x_ends d = (0, [(0, 1), (2, 3)])"

lemma two_lines_runs:
  "re2_node x_matches ''x'' (batch_node (write_node sim_os)) two_lines ([], sim0) =
     Some (Inr 1, ''xax'' @ [newline], sim0)"
  "vectorscan_node x_ends (batch_node (write_node sim_os)) two_lines ([], sim0) =
     Some (Inr 2, ''xax'' @ [newline] @ ''xax'' @ [newline], sim0)"
  by (simp_all add: two_lines_def re2_node_def re2_loop.simps re2_line_def sv_find_def sv_substr_def x_matches_def Let_def
      emit_line_def batch_node_def size_of_def vectorscan_node_def x_ends_def on_match_def match_line_def sv_find_last_of_def
      word_le_nat_alt)

lemma two_lines_agree: "engines_agree (x_matches (re2_pattern ''x'')) (map snd [(0 :: nat, 1), (2, 3)]) two_lines"
  by (simp add: engines_agree_def two_lines_def line_spans.simps x_matches_def Let_def)


end
