(* ===== verification/Grep_World.thy ===== *)
theory Grep_World
  imports Grep
begin

section \<open>Grep over a directory tree\<close>

text \<open>
  What \<^verbatim>\<open>grep\<close> prints when it runs on one processor, on a file system that does not change meanwhile. A
  directory is the list of its entries, each with what it opens to, if it can be opened.
  \<open>tbl\<close> is the table of open descriptors: a file being read, or a directory with all
  its entries and those not yet listed.
\<close>

datatype fs_node = Doc bytes | Folder "(linux_dirent64 \<times> fs_node option) list"

type_synonym fs_entry = "linux_dirent64 \<times> fs_node option"

datatype descriptor = Reading bytes | Listing "fs_entry list" "fs_entry list"

fun opened_as :: "fs_node \<Rightarrow> descriptor" where
  "opened_as (Doc data) = Reading data"
| "opened_as (Folder es) = Listing es es"

text \<open>The files grep reads and the directories it descends into, of one directory and breadth first.\<close>

fun docs_of_entry :: "fs_entry \<Rightarrow> bytes list" where
  "docs_of_entry (d, Some (Doc data)) = (if d_type d = DT_REG then [data] else [])"
| "docs_of_entry (d, x) = []"

fun dirs_of_entry :: "fs_entry \<Rightarrow> fs_entry list list" where
  "dirs_of_entry (d, Some (Folder es)) =
     (if d_type d = DT_DIR \<and> d_name d \<noteq> ''.'' \<and> d_name d \<noteq> ''..'' then [es] else [])"
| "dirs_of_entry (d, x) = []"

definition docs_of :: "fs_entry list \<Rightarrow> bytes list" where
  "docs_of es = concat (map docs_of_entry es)"

definition dirs_of :: "fs_entry list \<Rightarrow> fs_entry list list" where
  "dirs_of es = concat (map dirs_of_entry es)"

definition tree_size :: "fs_entry list \<Rightarrow> nat" where
  "tree_size es = size (Folder es)"

lemma dirs_of_simps [simp]:
  "dirs_of [] = []" "dirs_of (e # es) = dirs_of_entry e @ dirs_of es" "dirs_of (xs @ ys) = dirs_of xs @ dirs_of ys"
  by (simp_all add: dirs_of_def)

lemma docs_of_simps [simp]:
  "docs_of [] = []" "docs_of (e # es) = docs_of_entry e @ docs_of es" "docs_of (xs @ ys) = docs_of xs @ docs_of ys"
  by (simp_all add: docs_of_def)

lemma tree_size_dirs: "sum_list (map tree_size (dirs_of es)) < tree_size es"
proof (induction es)
  case (Cons e es)
  obtain d x where e: "e = (d, x)" by fastforce
  show ?case
  proof (cases "dirs_of_entry e = []")
    case True
    then show ?thesis using Cons by (simp add: tree_size_def)
  next
    case False
    then obtain es' where "x = Some (Folder es')" "dirs_of_entry e = [es']"
      using e by (cases x; cases "the x") (auto split: if_splits)
    then show ?thesis using Cons by (simp add: tree_size_def e)
  qed
qed (simp add: tree_size_def)

function breadth_first :: "fs_entry list list \<Rightarrow> bytes list" where
  "breadth_first [] = []"
| "breadth_first (es # q) = docs_of es @ breadth_first (q @ dirs_of es)"
  by pat_completeness auto

termination
proof (relation "measure (\<lambda>q. sum_list (map tree_size q))")
  fix es q
  show "(q @ dirs_of es, es # q) \<in> measure (\<lambda>q. sum_list (map tree_size q))"
    using tree_size_dirs [of es] by simp
qed simp

text \<open>Entries as a kernel lists them: well-formed records whose type fits what they open to.\<close>

fun wf_entry :: "fs_entry \<Rightarrow> bool" where
  "wf_entry (d, None) = wf_dirent d"
| "wf_entry (d, Some (Doc data)) = (wf_dirent d \<and> d_type d \<noteq> DT_DIR)"
| "wf_entry (d, Some (Folder es)) = (wf_dirent d \<and> d_type d \<noteq> DT_REG)"

inductive wf_tree :: "fs_entry list \<Rightarrow> bool" where
  "\<forall>e \<in> set es. wf_entry e \<Longrightarrow> \<forall>es' \<in> set (dirs_of es). wf_tree es' \<Longrightarrow> wf_tree es"

text \<open>The table after directories were opened: new descriptors, nothing else changed.\<close>

definition opens :: "(int \<rightharpoonup> descriptor) \<Rightarrow> (int \<rightharpoonup> descriptor) \<Rightarrow> int list \<Rightarrow> fs_entry list list \<Rightarrow> bool" where
  "opens T T' fds ess \<longleftrightarrow>
     list_all2 (\<lambda>fd es. T fd = None \<and> T' fd = Some (Listing es es)) fds ess \<and> distinct fds \<and>
     (\<forall>f. f \<notin> set fds \<longrightarrow> T' f = T f)"

lemma opens_none [simp]: "opens T T [] []"
  by (simp add: opens_def)

lemma opens_nth:
  assumes "opens T T' fds ess" "f \<in> set fds"
  obtains i where "i < length fds" "fds ! i = f" "T f = None" "T' f = Some (Listing (ess ! i) (ess ! i))"
proof -
  obtain i where i: "i < length fds" "fds ! i = f" using assms(2) by (auto simp: in_set_conv_nth)
  then have "T f = None \<and> T' f = Some (Listing (ess ! i) (ess ! i))"
    using assms(1) by (auto simp: opens_def list_all2_conv_all_nth)
  then show thesis using i by (intro that) simp_all
qed

lemma opens_None: "opens T T' fds ess \<Longrightarrow> f \<in> set fds \<Longrightarrow> T f = None"
  by (erule (1) opens_nth)

lemma opens_Some: "opens T T' fds ess \<Longrightarrow> f \<in> set fds \<Longrightarrow> T' f \<noteq> None"
  by (erule (1) opens_nth) simp

lemma opens_same: "opens T T' fds ess \<Longrightarrow> f \<notin> set fds \<Longrightarrow> T' f = T f"
  by (simp add: opens_def)

lemma opens_kept: "opens T T' fds ess \<Longrightarrow> T f = Some h \<Longrightarrow> T' f = Some h"
  using opens_None [of T T' fds ess f] opens_same [of T T' fds ess f] by (cases "f \<in> set fds") auto

lemma opens_trans:
  assumes "opens T T1 xs as" "opens T1 T2 ys bs"
  shows "opens T T2 (xs @ ys) (as @ bs)"
proof -
  have apart: "set xs \<inter> set ys = {}"
    using opens_None [OF assms(2)] opens_Some [OF assms(1)] by blast
  have "list_all2 (\<lambda>fd es. T fd = None \<and> T2 fd = Some (Listing es es)) xs as"
    using assms(1) unfolding opens_def by (auto elim!: list_all2_mono intro: opens_kept [OF assms(2)])
  moreover have "list_all2 (\<lambda>fd es. T fd = None \<and> T2 fd = Some (Listing es es)) ys bs"
  proof (rule list.rel_mono_strong)
    show "list_all2 (\<lambda>fd es. T1 fd = None \<and> T2 fd = Some (Listing es es)) ys bs"
      using assms(2) by (simp add: opens_def)
    fix fd es
    assume "fd \<in> set ys" "T1 fd = None \<and> T2 fd = Some (Listing es es)"
    then show "T fd = None \<and> T2 fd = Some (Listing es es)"
      using apart opens_same [OF assms(1), of fd] by (cases "fd \<in> set xs") auto
  qed
  ultimately show ?thesis
    using assms apart unfolding opens_def by (auto intro: list_all2_appendI)
qed

lemma opens_update:
  assumes "opens T T' fds ess" "T dir \<noteq> None"
  shows "opens (T(dir := x)) (T'(dir := x)) fds ess"
proof -
  have dir: "dir \<notin> set fds" using opens_None [OF assms(1), of dir] assms(2) by auto
  have "list_all2 (\<lambda>fd es. T fd = None \<and> T' fd = Some (Listing es es)) fds ess"
    using assms(1) by (simp add: opens_def)
  then have "list_all2 (\<lambda>fd es. (T(dir := x)) fd = None \<and> (T'(dir := x)) fd = Some (Listing es es)) fds ess"
    by (rule list.rel_mono_strong) (use dir in auto)
  then show ?thesis using assms(1) dir by (auto simp: opens_def)
qed

text \<open>The queue of a worker that runs alone: open directories, none of them listed yet.\<close>

definition queued :: "(int \<rightharpoonup> descriptor) \<Rightarrow> int list \<Rightarrow> fs_entry list list \<Rightarrow> bool" where
  "queued T qs ess \<longleftrightarrow> list_all2 (\<lambda>fd es. T fd = Some (Listing es es)) qs ess \<and> distinct qs"

lemma queued_Some: "queued T qs ess \<Longrightarrow> f \<in> set qs \<Longrightarrow> T f \<noteq> None"
proof -
  assume "queued T qs ess" and f: "f \<in> set qs"
  then have "list_all2 (\<lambda>fd es. T fd = Some (Listing es es)) qs ess" by (simp add: queued_def)
  then show "T f \<noteq> None" using f by (induction rule: list_all2_induct) auto
qed

lemma queued_after:
  assumes "queued T (dir # rest) (es # ess)" "opens T T' new (dirs_of es)"
  shows "queued (T'(dir := None)) (rest @ new) (ess @ dirs_of es)"
    "(T'(dir := None)) |` (- set (rest @ new)) = T |` (- set (dir # rest))"
proof -
  have some: "T f \<noteq> None" if "f \<in> set (dir # rest)" for f
    by (rule queued_Some [OF assms(1) that])
  have fresh: "f \<notin> set new" if "f \<in> set (dir # rest)" for f
    using some [OF that] opens_None [OF assms(2), of f] by auto
  then have apart: "dir \<notin> set new" "set rest \<inter> set new = {}" "dir \<notin> set rest" "distinct rest" "distinct new"
    using assms by (auto simp: queued_def opens_def)
  have "list_all2 (\<lambda>fd es. T fd = Some (Listing es es)) rest ess" using assms(1) by (simp add: queued_def)
  then have "list_all2 (\<lambda>fd es. (T'(dir := None)) fd = Some (Listing es es)) rest ess"
    by (rule list.rel_mono_strong) (use apart opens_kept [OF assms(2)] in auto)
  moreover have "list_all2 (\<lambda>fd es. T fd = None \<and> T' fd = Some (Listing es es)) new (dirs_of es)"
    using assms(2) by (simp add: opens_def)
  then have "list_all2 (\<lambda>fd es. (T'(dir := None)) fd = Some (Listing es es)) new (dirs_of es)"
    by (rule list.rel_mono_strong) (use apart in auto)
  ultimately show "queued (T'(dir := None)) (rest @ new) (ess @ dirs_of es)"
    using apart by (auto simp: queued_def intro: list_all2_appendI)
  show "(T'(dir := None)) |` (- set (rest @ new)) = T |` (- set (dir # rest))"
    using opens_None [OF assms(2)] opens_same [OF assms(2)] by (auto simp: restrict_map_def fun_eq_iff)
qed

lemma length_le_tree_size: "length ess \<le> sum_list (map tree_size ess)"
  by (induction ess) (simp_all add: tree_size_def)

text \<open>The state of a worker between two steps: what is written and buffered, and the table.\<close>

definition worker_at :: "('w \<Rightarrow> bytes) \<Rightarrow> ('w \<Rightarrow> bool) \<Rightarrow> ('w \<Rightarrow> int \<rightharpoonup> descriptor) \<Rightarrow> bytes \<Rightarrow> (int \<rightharpoonup> descriptor) \<Rightarrow>
    string \<times> 'w \<Rightarrow> bool" where
  "worker_at out good tbl written T s \<longleftrightarrow> batch_good (\<lambda>w. good w \<and> tbl w = T) s \<and> batch_view out s = written"

text \<open>
  The contract of the kernel. Reads and writes may be short or fail; listing does not fail and hands
  out the entries in order, some at a time, in whole records; opening an entry of a listed directory gives a
  descriptor that was not in use, or fails where the entry cannot be opened.
\<close>

locale grep_world =
  fixes os :: "'w os" and out :: "'w \<Rightarrow> bytes" and good :: "'w \<Rightarrow> bool" and tbl :: "'w \<Rightarrow> int \<rightharpoonup> descriptor"
    and root :: "string \<rightharpoonup> fs_entry list"
  assumes write_law: "good w \<Longrightarrow> sys_write os STDOUT_FILENO bs w = (r, w') \<Longrightarrow>
      good w' \<and> tbl w' = tbl w \<and>
      (r = -1 \<and> out w' = out w \<or>
       0 \<le> r \<and> nat r \<le> length bs \<and> out w' = out w @ take (nat r) bs \<and> (bs \<noteq> [] \<longrightarrow> 0 < r))"
    and pread_law: "good w \<Longrightarrow> tbl w fd = Some (Reading data) \<Longrightarrow> sys_pread os fd cnt off w = ((r, bs), w') \<Longrightarrow>
      good w' \<and> tbl w' = tbl w \<and> out w' = out w \<and>
      (r = -1 \<or>
       (r = int (length bs) \<and> length bs \<le> unat cnt \<and> bs = take (length bs) (drop (unat off) data) \<and>
        (bs = [] \<longrightarrow> cnt = 0 \<or> length data \<le> unat off)))"
    and file_bound: "good w \<Longrightarrow> tbl w fd = Some (Reading data) \<Longrightarrow> length data < 2 ^ 63"
    and listing_law: "good w \<Longrightarrow> tbl w fd = Some (Listing es un) \<Longrightarrow> sys_getdents64 os fd sz w = ((r, buf), w') \<Longrightarrow>
      good w' \<and> out w' = out w \<and> 0 \<le> r \<and>
      (\<exists>now later. un = now @ later \<and> take (nat r) buf = concat (map (\<lambda>e. encode_dirent (fst e)) now) \<and>
         (now = [] \<longrightarrow> r = 0 \<and> later = []) \<and> (now \<noteq> [] \<longrightarrow> 0 < r) \<and> tbl w' = (tbl w)(fd \<mapsto> Listing es later))"
    and open_law: "good w \<Longrightarrow> tbl w dir = Some (Listing es un) \<Longrightarrow> (d, x) \<in> set es \<Longrightarrow>
      sys_openat os dir (d_name d) fl w = (fd, w') \<Longrightarrow>
      good w' \<and> out w' = out w \<and>
      (case x of
         None \<Rightarrow> fd < 0 \<and> tbl w' = tbl w
       | Some nd \<Rightarrow> 0 \<le> fd \<and> tbl w fd = None \<and> tbl w' = (tbl w)(fd \<mapsto> opened_as nd))"
    and root_law: "good w \<Longrightarrow> sys_openat os AT_FDCWD location dir_flags w = (fd, w') \<Longrightarrow>
      good w' \<and> out w' = out w \<and>
      (case root location of
         None \<Rightarrow> fd < 0 \<and> tbl w' = tbl w
       | Some es \<Rightarrow> 0 \<le> fd \<and> tbl w fd = None \<and> tbl w' = (tbl w)(fd \<mapsto> Listing es es))"
    and close_law: "good w \<Longrightarrow> tbl w fd = Some h \<Longrightarrow>
      good (sys_close os fd w) \<and> out (sys_close os fd w) = out w \<and> tbl (sys_close os fd w) = (tbl w)(fd := None)"
begin

text \<open>An open file is a source for the pipeline as long as the table stays as it is.\<close>

lemma file_kernel_at:
  assumes "tbl v fd = Some (Reading data)" "good v"
  shows "file_kernel os out (\<lambda>w. good w \<and> tbl w = tbl v) fd data"
proof
  fix w bs r w'
  assume "good w \<and> tbl w = tbl v" "sys_write os STDOUT_FILENO bs w = (r, w')"
  then show "(good w' \<and> tbl w' = tbl v) \<and> (r = -1 \<and> out w' = out w \<or>
       0 \<le> r \<and> nat r \<le> length bs \<and> out w' = out w @ take (nat r) bs \<and> (bs \<noteq> [] \<longrightarrow> 0 < r))"
    using write_law [of w bs r w'] by auto
next
  fix w cnt off r bs w'
  assume "good w \<and> tbl w = tbl v" "sys_pread os fd cnt off w = ((r, bs), w')"
  then show "(good w' \<and> tbl w' = tbl v) \<and> (r = -1 \<or>
        (r = int (length bs) \<and> length bs \<le> unat cnt \<and> bs = take (length bs) (drop (unat off) data) \<and>
         (bs = [] \<longrightarrow> cnt = 0 \<or> length data \<le> unat off)))"
    using pread_law [of w fd data cnt off r bs w'] assms by auto
next
  show "length data < 2 ^ 63" by (rule file_bound [OF assms(2,1)])
next
  fix w cnt off x w'
  assume "good w \<and> tbl w = tbl v" "sys_pread os fd cnt off w = (x, w')"
  then show "out w' = out w" using pread_law [of w fd data cnt off "fst x" "snd x" w'] assms by auto
qed

abbreviation at :: "bytes \<Rightarrow> (int \<rightharpoonup> descriptor) \<Rightarrow> string \<times> 'w \<Rightarrow> bool" where
  "at \<equiv> worker_at out good tbl"

lemma at_moved: "at written T (n, w) \<Longrightarrow> good w' \<Longrightarrow> out w' = out w \<Longrightarrow> tbl w' = T' \<Longrightarrow> at written T' (n, w')"
  by (simp add: worker_at_def batch_obs)

lemma atD: "at written T (n, w) \<Longrightarrow> good w \<and> tbl w = T \<and> written = out w @ n"
  by (simp add: worker_at_def batch_obs)

text \<open>One file: opened, run through the pipeline, closed.\<close>

lemma doc_entry:
  assumes "at written T (n, w)" "T dir = Some (Listing es un)" "(d, Some (Doc data)) \<in> set es" "d_type d = DT_REG"
  shows "\<exists>r n' w' cs. grep_entry os (grep_pipeline os hs_scan) dir d (q, n, w) = Some (r, q, n', w') \<and>
    (r = Returned () \<and> concat cs = data \<and> at (written @ scan_output hs_scan cs) T (n', w') \<or>
     (\<exists>e. r = Threw (Runtime_Error e)) \<and> \<not> calls_succeed os hs_scan \<and>
       prefix (concat cs) data \<and> prefix (out w') (written @ scan_output hs_scan cs))"
proof -
  obtain fd w1 where call: "sys_openat os dir (d_name d) file_flags w = (fd, w1)" by fastforce
  have w: "good w" "tbl w = T" "written = out w @ n" using atD [OF assms(1)] by simp_all
  have op: "good w1" "out w1 = out w" "0 \<le> fd" "T fd = None" "tbl w1 = T(fd \<mapsto> Reading data)"
    using open_law [OF w(1) _ assms(3) call] w(2) assms(2) by simp_all
  have kernel: "file_kernel os out (\<lambda>w. good w \<and> tbl w = tbl w1) fd data"
    by (rule file_kernel_at) (simp_all add: op)
  have "batch_good (\<lambda>w. good w \<and> tbl w = tbl w1) (n, w1)"
    using assms(1) op(1) by (simp add: worker_at_def batch_obs)
  from file_kernel.grep_file_emits [OF kernel this, of hs_scan]
  obtain r s' cs where run: "execute (grep_pipeline os hs_scan fd) (n, w1) = Some (r, s')" "prefix (concat cs) data"
      "prefix (batch_out out s') (batch_view out (n, w1) @ scan_output hs_scan cs)"
      "r = Returned () \<and> concat cs = data \<and> batch_good (\<lambda>w. good w \<and> tbl w = tbl w1) s' \<and>
         batch_view out s' = batch_view out (n, w1) @ scan_output hs_scan cs \<or>
       (\<exists>e. r = Threw (Runtime_Error e))"
    by (elim exE conjE)
  obtain n' w2 where s': "s' = (n', w2)" by fastforce
  have view: "batch_view out (n, w1) = written" using op(2) w(3) by (simp add: batch_obs)
  have entry: "grep_entry os (grep_pipeline os hs_scan) dir d (q, n, w) =
      (if r = Returned () then Some (r, q, n', sys_close os fd w2) else Some (r, q, n', w2))"
    using assms(4) call op(3) run(1) by (simp add: grep_entry_def Let_def s')
  show ?thesis
  proof (cases "r = Returned ()")
    case True
    then have ok: "concat cs = data" "good w2" "tbl w2 = tbl w1" "length n' < unat buffer_size"
        "out w2 @ n' = written @ scan_output hs_scan cs"
      using run(4) view by (auto simp: s' batch_obs)
    have close: "good (sys_close os fd w2)" "out (sys_close os fd w2) = out w2" "tbl (sys_close os fd w2) = (tbl w2)(fd := None)"
      using close_law [OF ok(2), of fd] ok(3) op(5) by simp_all
    moreover have "(tbl w2)(fd := None) = T" using ok(3) op(4,5) by auto
    ultimately have "at (written @ scan_output hs_scan cs) T (n', sys_close os fd w2)"
      using ok by (simp add: worker_at_def batch_obs)
    then show ?thesis
      using entry True ok(1) by (intro exI [of _ r] exI [of _ n'] exI [of _ "sys_close os fd w2"] exI [of _ cs]) simp
  next
    case False
    then have "\<not> calls_succeed os hs_scan"
      using run(1) grep_pipeline_succeeds [of os hs_scan fd "(n, w1)"]
      by (fastforce simp: execute_def split: option.splits sum.splits)
    then show ?thesis
      using False entry run(2-4) view
      by (intro exI [of _ r] exI [of _ n'] exI [of _ w2] exI [of _ cs]) (auto simp: s' batch_obs)
  qed
qed

text \<open>An outcome of a part of the run, given the files it was to read: done, or stopped by an exception.\<close>

definition part :: "(bytes \<Rightarrow> int \<times> (nat \<times> nat) list) \<Rightarrow> bytes \<Rightarrow> bytes list \<Rightarrow> unit outcome \<Rightarrow> bytes list list \<Rightarrow>
    'w \<Rightarrow> bool" where
  "part hs_scan written docs r css w' \<longleftrightarrow>
     (\<exists>e. r = Threw (Runtime_Error e)) \<and> \<not> calls_succeed os hs_scan \<and> prefix (concat (map concat css)) (concat docs) \<and>
     prefix (out w') (written @ concat (map (scan_output hs_scan) css))"

text \<open>An entry that cannot be opened is passed over, one that is a directory is opened and kept.\<close>

lemma unopened_entry:
  assumes "at written T (n, w)" "T dir = Some (Listing es un)" "(d, None) \<in> set es"
  shows "\<exists>w'. grep_entry os (grep_pipeline os hs_scan) dir d (q, n, w) = Some (Returned (), q, n, w') \<and> at written T (n, w')"
proof -
  have w: "good w" "tbl w = T" using atD [OF assms(1)] by simp_all
  have "\<exists>fd w1. sys_openat os dir (d_name d) fl w = (fd, w1) \<and> fd < 0 \<and> at written T (n, w1)" for fl
  proof -
    obtain fd w1 where call: "sys_openat os dir (d_name d) fl w = (fd, w1)" by fastforce
    note op = open_law [OF w(1) _ assms(3) call, unfolded w(2), OF assms(2)]
    then show ?thesis using call at_moved [OF assms(1)] by simp
  qed
  from this [of dir_flags] this [of file_flags] show ?thesis
    using assms(1) by (auto simp: grep_entry_def Let_def)
qed

lemma subdir_entry:
  assumes "at written T (n, w)" "T dir = Some (Listing es un)" "(d, Some (Folder es')) \<in> set es"
    "d_type d = DT_DIR" "d_name d \<noteq> ''.''" "d_name d \<noteq> ''..''"
  shows "\<exists>fd w'. grep_entry os (grep_pipeline os hs_scan) dir d (q, n, w) = Some (Returned (), q @ [fd], n, w') \<and>
    at written (T(fd \<mapsto> Listing es' es')) (n, w') \<and> opens T (T(fd \<mapsto> Listing es' es')) [fd] [es']"
proof -
  have w: "good w" "tbl w = T" using atD [OF assms(1)] by simp_all
  obtain fd w1 where call: "sys_openat os dir (d_name d) dir_flags w = (fd, w1)" by fastforce
  note op = open_law [OF w(1) _ assms(3) call, unfolded w(2), OF assms(2)]
  have "at written (T(fd \<mapsto> Listing es' es')) (n, w1)" using at_moved [OF assms(1)] op by simp
  moreover have "opens T (T(fd \<mapsto> Listing es' es')) [fd] [es']" using op by (simp add: opens_def)
  ultimately show ?thesis
    using assms(4-6) call op by (intro exI [of _ fd] exI [of _ w1]) (simp add: grep_entry_def Let_def)
qed

lemma entry_step:
  assumes "at written T (n, w)" "T dir = Some (Listing es un)" "(d, x) \<in> set es" "wf_entry (d, x)"
  shows "\<exists>r new n' w' css T'. grep_entry os (grep_pipeline os hs_scan) dir d (q, n, w) = Some (r, q @ new, n', w') \<and>
    (r = Returned () \<and> map concat css = docs_of_entry (d, x) \<and>
       at (written @ concat (map (scan_output hs_scan) css)) T' (n', w') \<and> opens T T' new (dirs_of_entry (d, x)) \<or>
     part hs_scan written (docs_of_entry (d, x)) r css w')"
  (is "\<exists>r new n' w' css T'. ?P r new n' w' css T'")
proof -
  consider (skip) "d_type d \<noteq> DT_REG" "d_type d = DT_DIR \<longrightarrow> d_name d = ''.'' \<or> d_name d = ''..''"
    | (gone) "x = None"
    | (sub) es' where "d_type d = DT_DIR" "d_name d \<noteq> ''.''" "d_name d \<noteq> ''..''" "x = Some (Folder es')"
    | (doc) data where "d_type d = DT_REG" "x = Some (Doc data)"
    using assms(4) by (cases x; cases "the x") auto
  then show ?thesis
  proof cases
    case skip
    then have "grep_entry os (grep_pipeline os hs_scan) dir d (q, n, w) = Some (Returned (), q, n, w)"
      by (auto simp: grep_entry_def Let_def)
    moreover have "docs_of_entry (d, x) = []" "dirs_of_entry (d, x) = []"
      using skip by (cases x; cases "the x"; simp)+
    ultimately have "?P (Returned ()) [] n w [] T" using assms(1) by simp
    then show ?thesis by (intro exI)
  next
    case gone
    then obtain w1 where "?P (Returned ()) [] n w1 [] T"
      using unopened_entry [OF assms(1,2), of d hs_scan q] assms(3) by auto
    then show ?thesis by (intro exI)
  next
    case (sub es')
    then obtain fd w1 where "?P (Returned ()) [fd] n w1 [] (T(fd \<mapsto> Listing es' es'))"
      using subdir_entry [OF assms(1,2) assms(3) [unfolded sub(4)] sub(1-3), of hs_scan q] by auto
    then show ?thesis by (intro exI)
  next
    case (doc data)
    obtain r n' w' cs where "grep_entry os (grep_pipeline os hs_scan) dir d (q, n, w) = Some (r, q, n', w')"
      "r = Returned () \<and> concat cs = data \<and> at (written @ scan_output hs_scan cs) T (n', w') \<or>
       (\<exists>e. r = Threw (Runtime_Error e)) \<and> \<not> calls_succeed os hs_scan \<and>
         prefix (concat cs) data \<and> prefix (out w') (written @ scan_output hs_scan cs)"
      using doc_entry [OF assms(1,2) assms(3) [unfolded doc(2)] doc(1), of hs_scan q] by (elim exE conjE)
    then have "?P r [] n' w' [cs] T" using doc by (auto simp: part_def)
    then show ?thesis by (intro exI)
  qed
qed

text \<open>The parts put together: entries, buffers of entries, directories.\<close>

lemma part_append: "part hs_scan written docs r css w' \<Longrightarrow> part hs_scan written (docs @ docs') r css w'"
  by (auto simp: part_def intro: prefix_prefix)

lemma part_after:
  assumes "part hs_scan (written @ concat (map (scan_output hs_scan) css)) docs' r css' w'" "map concat css = docs"
  shows "part hs_scan written (docs @ docs') r (css @ css') w'"
  using assms(1) by (auto simp: part_def assms(2) [symmetric])

lemma entries_run:
  assumes "at written T (n, w)" "T dir = Some (Listing es un)" "set now \<subseteq> set es" "\<forall>e \<in> set now. wf_entry e"
  shows "\<exists>r new n' w' css T'.
    each_entry (grep_entry os (grep_pipeline os hs_scan) dir) (map fst now) (q, n, w) = Some (r, q @ new, n', w') \<and>
    (r = Returned () \<and> map concat css = docs_of now \<and>
       at (written @ concat (map (scan_output hs_scan) css)) T' (n', w') \<and> opens T T' new (dirs_of now) \<or>
     part hs_scan written (docs_of now) r css w')"
  using assms
proof (induction now arbitrary: written T n w q)
  case Nil
  then show ?case
    by (intro exI [of _ "Returned ()"] exI [of _ "[]"] exI [of _ n] exI [of _ w] exI [of _ T]) simp
next
  case (Cons e now)
  obtain d x where e: "e = (d, x)" by fastforce
  have dx: "(d, x) \<in> set es" "wf_entry (d, x)" using Cons.prems(3,4) e by simp_all
  have sub: "set now \<subseteq> set es" "\<forall>e \<in> set now. wf_entry e" using Cons.prems(3,4) by simp_all
  obtain r new n1 w1 css T1 where step:
      "grep_entry os (grep_pipeline os hs_scan) dir d (q, n, w) = Some (r, q @ new, n1, w1)"
      "r = Returned () \<and> map concat css = docs_of_entry (d, x) \<and>
         at (written @ concat (map (scan_output hs_scan) css)) T1 (n1, w1) \<and> opens T T1 new (dirs_of_entry (d, x)) \<or>
       part hs_scan written (docs_of_entry (d, x)) r css w1"
    using entry_step [OF Cons.prems(1,2) dx, of hs_scan q] by (elim exE conjE)
  from step(2) show ?case
  proof (elim disjE conjE)
    assume ok: "r = Returned ()" "map concat css = docs_of_entry (d, x)"
      "at (written @ concat (map (scan_output hs_scan) css)) T1 (n1, w1)" "opens T T1 new (dirs_of_entry (d, x))"
    obtain r' new' n' w' css' T' where rest:
        "each_entry (grep_entry os (grep_pipeline os hs_scan) dir) (map fst now) (q @ new, n1, w1) =
           Some (r', (q @ new) @ new', n', w')"
        "r' = Returned () \<and> map concat css' = docs_of now \<and>
           at ((written @ concat (map (scan_output hs_scan) css)) @ concat (map (scan_output hs_scan) css')) T' (n', w') \<and>
           opens T1 T' new' (dirs_of now) \<or>
         part hs_scan (written @ concat (map (scan_output hs_scan) css)) (docs_of now) r' css' w'"
      using Cons.IH [OF ok(3) opens_kept [OF ok(4) Cons.prems(2)] sub, of "q @ new"] by (elim exE conjE)
    have "opens T T' (new @ new') (dirs_of (e # now))" if "opens T1 T' new' (dirs_of now)"
      using opens_trans [OF ok(4) that] e by simp
    then show ?thesis
      using rest step(1) ok(1,2) part_after [OF _ ok(2), of hs_scan written "docs_of now" r' css' w']
      by (intro exI [of _ r'] exI [of _ "new @ new'"] exI [of _ n'] exI [of _ w'] exI [of _ "css @ css'"] exI [of _ T'])
        (auto simp: e)
  next
    assume stop: "part hs_scan written (docs_of_entry (d, x)) r css w1"
    then have "r \<noteq> Returned ()" by (auto simp: part_def)
    then show ?thesis
      using step(1) part_append [OF stop, of "docs_of now"]
      by (intro exI [of _ r] exI [of _ new] exI [of _ n1] exI [of _ w1] exI [of _ css]) (simp add: e)
  qed
qed

text \<open>One buffer of a directory: there is none left, its entries are worked through, or one of them fails.\<close>

lemma scan_dir_step:
  assumes "at written T (n, w)" "T dir = Some (Listing es un)" "set un \<subseteq> set es" "\<forall>e \<in> set es. wf_entry e"
  obtains (at_end) w1 where "un = []" "at written (T(dir \<mapsto> Listing es [])) (n, w1)"
      "\<And>published. scan_dir os (grep_pipeline os hs_scan) dir published n w = Some (Returned (), published, n, w1)"
    | (block) now later new n1 w1 css T1 where "un = now @ later" "now \<noteq> []" "map concat css = docs_of now"
      "at (written @ concat (map (scan_output hs_scan) css)) T1 (n1, w1)"
      "opens (T(dir \<mapsto> Listing es later)) T1 new (dirs_of now)"
      "\<And>published. scan_dir os (grep_pipeline os hs_scan) dir published n w =
         scan_dir os (grep_pipeline os hs_scan) dir (published @ [new]) n1 w1"
    | (stop) now later r n1 w1 css where "un = now @ later" "part hs_scan written (docs_of now) r css w1"
      "\<And>published. scan_dir os (grep_pipeline os hs_scan) dir published n w = Some (r, published, n1, w1)"
proof -
  obtain read buf w1 where call: "sys_getdents64 os dir (32 * 1024) w = ((read, buf), w1)" by (metis prod.exhaust)
  have w: "good w" "tbl w = T" using atD [OF assms(1)] by simp_all
  obtain now later where list: "good w1" "out w1 = out w" "un = now @ later" "0 \<le> read"
      "take (nat read) buf = concat (map (\<lambda>e. encode_dirent (fst e)) now)"
      "now = [] \<longrightarrow> read = 0 \<and> later = []" "now \<noteq> [] \<longrightarrow> 0 < read" "tbl w1 = T(dir \<mapsto> Listing es later)"
    using listing_law [OF w(1) _ call] assms(2) w(2) by auto
  have at1: "at written (T(dir \<mapsto> Listing es later)) (n, w1)"
    by (rule at_moved [OF assms(1) list(1,2,8)])
  show thesis
  proof (cases "now = []")
    case True
    then have "scan_dir os (grep_pipeline os hs_scan) dir published n w = Some (Returned (), published, n, w1)" for published
      using call list(6) by (subst scan_dir.simps) simp
    then show thesis using that(1) at1 True list(3,6) by simp
  next
    case False
    have sub: "set now \<subseteq> set es" "\<forall>e \<in> set now. wf_entry e" using assms(3,4) list(3) by auto
    have enc: "take (nat read) buf = concat (map encode_dirent (map fst now))" using list(5) by (simp add: comp_def)
    have wf: "\<forall>d \<in> set (map fst now). wf_dirent d" using sub(2) by (auto elim!: wf_entry.elims)
    have walk: "walk_dirents (grep_entry os (grep_pipeline os hs_scan) dir) (take (nat read) buf) ([], n, w1) =
        each_entry (grep_entry os (grep_pipeline os hs_scan) dir) (map fst now) ([], n, w1)"
      unfolding enc by (rule walk_dirents_encoded [OF wf])
    obtain r new n2 w2 css T2 where run:
        "each_entry (grep_entry os (grep_pipeline os hs_scan) dir) (map fst now) ([], n, w1) = Some (r, [] @ new, n2, w2)"
        "r = Returned () \<and> map concat css = docs_of now \<and>
           at (written @ concat (map (scan_output hs_scan) css)) T2 (n2, w2) \<and>
           opens (T(dir \<mapsto> Listing es later)) T2 new (dirs_of now) \<or>
         part hs_scan written (docs_of now) r css w2"
      using entries_run [OF at1 fun_upd_same sub(1,2), of hs_scan "[]"] by (elim exE conjE)
    have scan: "scan_dir os (grep_pipeline os hs_scan) dir published n w =
        (if r = Returned () then scan_dir os (grep_pipeline os hs_scan) dir (published @ [new]) n2 w2
         else Some (r, published, n2, w2))" for published
      using False list(7) call by (subst scan_dir.simps) (simp add: walk run(1))
    from run(2) show thesis
    proof (elim disjE conjE)
      assume "part hs_scan written (docs_of now) r css w2"
      moreover from this have "r \<noteq> Returned ()" by (auto simp: part_def)
      ultimately show thesis using that(3) [OF list(3), of r css w2] scan by simp
    qed (use that(2) [OF list(3) False] scan in simp)
  qed
qed

lemma scan_dir_run:
  assumes "at written T (n, w)" "T dir = Some (Listing es un)" "set un \<subseteq> set es" "\<forall>e \<in> set es. wf_entry e"
  shows "\<exists>r pub n' w' css T'.
    scan_dir os (grep_pipeline os hs_scan) dir published n w = Some (r, published @ pub, n', w') \<and>
    (r = Returned () \<and> map concat css = docs_of un \<and>
       at (written @ concat (map (scan_output hs_scan) css)) (T'(dir \<mapsto> Listing es [])) (n', w') \<and>
       opens T T' (concat pub) (dirs_of un) \<or>
     part hs_scan written (docs_of un) r css w')"
  using assms
proof (induction "length un" arbitrary: un written T n w published rule: less_induct)
  case less
  from less.prems show ?case
  proof (cases rule: scan_dir_step [where hs_scan = hs_scan])
    case (at_end w1)
    then show ?thesis
      by (intro exI [of _ "Returned ()"] exI [of _ "[]"] exI [of _ n] exI [of _ w1] exI [of _ T]) simp
  next
    case (block now later new n1 w1 css T1)
    have dir1: "T1 dir = Some (Listing es later)" by (rule opens_kept [OF block(5)]) simp
    have "length later < length un" "set later \<subseteq> set es" using block(1,2) less.prems(3) by auto
    from less.hyps [OF this(1) block(4) dir1 this(2) less.prems(4), of "published @ [new]"]
    obtain r pub n' w' css' T' where rest:
        "scan_dir os (grep_pipeline os hs_scan) dir (published @ [new]) n1 w1 = Some (r, (published @ [new]) @ pub, n', w')"
        "r = Returned () \<and> map concat css' = docs_of later \<and>
           at ((written @ concat (map (scan_output hs_scan) css)) @ concat (map (scan_output hs_scan) css'))
             (T'(dir \<mapsto> Listing es [])) (n', w') \<and>
           opens T1 T' (concat pub) (dirs_of later) \<or>
         part hs_scan (written @ concat (map (scan_output hs_scan) css)) (docs_of later) r css' w'"
      by (elim exE conjE)
    have "opens T (T'(dir := T dir)) (concat (new # pub)) (dirs_of un)" if "opens T1 T' (concat pub) (dirs_of later)"
      using opens_update [OF opens_trans [OF block(5) that], of dir "T dir"] block(1) by simp
    then show ?thesis
      using rest block(1,3,6) part_after [OF _ block(3), of hs_scan written "docs_of later" r css' w']
      by (intro exI [of _ r] exI [of _ "new # pub"] exI [of _ n'] exI [of _ w'] exI [of _ "css @ css'"]
          exI [of _ "T'(dir := T dir)"]) auto
  next
    case (stop now later r n1 w1 css)
    then show ?thesis
      using part_append [OF stop(2), of "docs_of later"]
      by (intro exI [of _ r] exI [of _ "[]"] exI [of _ n1] exI [of _ w1] exI [of _ css]) simp
  qed
qed

text \<open>The whole queue, and the directories found meanwhile.\<close>

lemma last_pending:
  assumes "length (rest @ new) < 2 ^ 64 - 1"
  shows "size_of (dir # rest) + size_of new = 1 + size_of (rest @ new)"
    "size_of (dir # rest) + size_of new = 1 \<longleftrightarrow> rest @ new = []"
proof -
  show pending: "size_of (dir # rest) + size_of new = 1 + size_of (rest @ new)" by (simp add: size_of_def)
  have "unat (size_of (rest @ new)) = length (rest @ new)" by (rule unat_size_of) (use assms in linarith)
  then have "size_of (rest @ new) = 0 \<longleftrightarrow> rest @ new = []" by (metis length_0_conv size_of_Nil unsigned_0)
  then show "size_of (dir # rest) + size_of new = 1 \<longleftrightarrow> rest @ new = []" unfolding pending by simp
qed

text \<open>One directory of the queue: it is worked through and closed, and its directories are queued, or it stops the worker.\<close>

lemma worker_loop_step:
  assumes "at written T (n, w)" "queued T (dir # rest) (es # ess)" "wf_tree es" "sum_list (map tree_size (es # ess)) < 2 ^ 64"
  obtains (worked) q n1 w1 T1 css where "map concat css = docs_of es"
      "at (written @ concat (map (scan_output hs_scan) css)) T1 (n1, w1)"
      "queued T1 q (ess @ dirs_of es)" "T1 |` (- set q) = T |` (- set (dir # rest))"
      "worker_loop os (grep_pipeline os hs_scan) (dir # rest) (size_of (dir # rest)) n w =
        (if q = [] then Some (Returned (), n1, w1) else worker_loop os (grep_pipeline os hs_scan) q (size_of q) n1 w1)"
    | (stop) r n1 w1 css where "part hs_scan written (docs_of es) r css w1"
      "worker_loop os (grep_pipeline os hs_scan) (dir # rest) (size_of (dir # rest)) n w = Some (r, n1, w1)"
proof -
  have dir: "T dir = Some (Listing es es)" using assms(2) by (simp add: queued_def)
  have wf: "\<forall>e \<in> set es. wf_entry e" using assms(3) by (auto elim: wf_tree.cases)
  obtain r pub n1 w1 css T1 where scan:
      "scan_dir os (grep_pipeline os hs_scan) dir [] n w = Some (r, [] @ pub, n1, w1)"
      "r = Returned () \<and> map concat css = docs_of es \<and>
         at (written @ concat (map (scan_output hs_scan) css)) (T1(dir \<mapsto> Listing es [])) (n1, w1) \<and>
         opens T T1 (concat pub) (dirs_of es) \<or>
       part hs_scan written (docs_of es) r css w1"
    using scan_dir_run [OF assms(1) dir order_refl wf, of hs_scan "[]"] by (elim exE conjE)
  from scan(2) show thesis
  proof (elim disjE conjE)
    assume ok: "r = Returned ()" "map concat css = docs_of es"
      "at (written @ concat (map (scan_output hs_scan) css)) (T1(dir \<mapsto> Listing es [])) (n1, w1)"
      "opens T T1 (concat pub) (dirs_of es)"
    let ?q = "rest @ concat pub" and ?w = "sys_close os dir w1"
    note after = queued_after [OF assms(2) ok(4)]
    have w1: "good w1" "tbl w1 = T1(dir \<mapsto> Listing es [])" using atD [OF ok(3)] by simp_all
    have closed: "good ?w" "out ?w = out w1" "tbl ?w = T1(dir := None)"
      using close_law [OF w1(1), of dir "Listing es []"] w1(2) by simp_all
    have "length ?q < 2 ^ 64 - 1"
      using length_le_tree_size [of "ess @ dirs_of es"] tree_size_dirs [of es] after(1) assms(4)
      by (auto simp: queued_def dest: list_all2_lengthD)
    note pending = last_pending [OF this, of dir]
    have "worker_loop os (grep_pipeline os hs_scan) (dir # rest) (size_of (dir # rest)) n w =
        (if ?q = [] then Some (Returned (), n1, ?w)
         else worker_loop os (grep_pipeline os hs_scan) ?q (size_of ?q) n1 ?w)"
      using scan(1) ok(1) pending(2) by (subst worker_loop.simps) (simp add: Let_def, simp add: pending(1))
    then show thesis using that(1) [OF ok(2) at_moved [OF ok(3) closed] after] by blast
  next
    assume "part hs_scan written (docs_of es) r css w1"
    moreover from this have "r \<noteq> Returned ()" by (auto simp: part_def)
    then have "worker_loop os (grep_pipeline os hs_scan) (dir # rest) (size_of (dir # rest)) n w = Some (r, n1, w1)"
      using scan(1) by (subst worker_loop.simps) simp
    ultimately show thesis using that(2) by blast
  qed
qed

lemma worker_loop_run:
  assumes "at written T (n, w)" "queued T qs ess" "qs \<noteq> []" "\<forall>es \<in> set ess. wf_tree es"
    "sum_list (map tree_size ess) < 2 ^ 64"
  shows "\<exists>r n' w' css. worker_loop os (grep_pipeline os hs_scan) qs (size_of qs) n w = Some (r, n', w') \<and>
    (r = Returned () \<and> map concat css = breadth_first ess \<and>
       at (written @ concat (map (scan_output hs_scan) css)) (T |` (- set qs)) (n', w') \<or>
     part hs_scan written (breadth_first ess) r css w')"
  using assms
proof (induction "sum_list (map tree_size ess)" arbitrary: ess qs written T n w rule: less_induct)
  case less
  obtain dir rest where qs: "qs = dir # rest" using less.prems(3) by (cases qs) auto
  then obtain es ess' where ess: "ess = es # ess'"
    using less.prems(2) by (cases ess) (auto simp: queued_def)
  have wf: "wf_tree es" "\<forall>es' \<in> set (ess' @ dirs_of es). wf_tree es'"
    using less.prems(4) ess by (auto elim: wf_tree.cases)
  from less.prems(1) less.prems(2) [unfolded qs ess] wf(1) less.prems(5) [unfolded ess] show ?case
  proof (cases rule: worker_loop_step [where hs_scan = hs_scan])
    case (worked q n1 w1 T1 css)
    let ?written = "written @ concat (map (scan_output hs_scan) css)"
    have smaller: "sum_list (map tree_size (ess' @ dirs_of es)) < sum_list (map tree_size ess)"
      using tree_size_dirs [of es] by (simp add: ess)
    show ?thesis
    proof (cases "q = []")
      case True
      then have "ess' @ dirs_of es = []" "T1 = T |` (- set qs)"
        using worked(3,4) by (simp_all add: queued_def qs restrict_map_def)
      then show ?thesis
        using True worked(1,2,5)
        by (intro exI [of _ "Returned ()"] exI [of _ n1] exI [of _ w1] exI [of _ css]) (simp add: ess qs)
    next
      case False
      from less.hyps [OF smaller worked(2,3) False wf(2) order.strict_trans [OF smaller less.prems(5)]]
      obtain r n' w' css' where "worker_loop os (grep_pipeline os hs_scan) q (size_of q) n1 w1 = Some (r, n', w')"
          "r = Returned () \<and> map concat css' = breadth_first (ess' @ dirs_of es) \<and>
             at (?written @ concat (map (scan_output hs_scan) css')) (T1 |` (- set q)) (n', w') \<or>
           part hs_scan ?written (breadth_first (ess' @ dirs_of es)) r css' w'"
        by (elim exE conjE)
      then show ?thesis
        using worked(1,4,5) False part_after [OF _ worked(1), of hs_scan written "breadth_first (ess' @ dirs_of es)" r css' w']
        by (intro exI [of _ r] exI [of _ n'] exI [of _ w'] exI [of _ "css @ css'"]) (auto simp: ess qs)
    qed
  next
    case (stop r n1 w1 css)
    then show ?thesis
      using part_append [OF stop(1), of "breadth_first (ess' @ dirs_of es)"]
      by (intro exI [of _ r] exI [of _ n1] exI [of _ w1] exI [of _ css]) (simp add: ess qs)
  qed
qed

text \<open>The flush at the end, and a run of the command.\<close>

lemma writer_at: "stdout_writer os out (\<lambda>w. good w \<and> tbl w = T)"
proof
  fix w bs r w'
  assume "good w \<and> tbl w = T" "sys_write os STDOUT_FILENO bs w = (r, w')"
  then show "(good w' \<and> tbl w' = T) \<and> (r = -1 \<and> out w' = out w \<or>
       0 \<le> r \<and> nat r \<le> length bs \<and> out w' = out w @ take (nat r) bs \<and> (bs \<noteq> [] \<longrightarrow> 0 < r))"
    using write_law [of w bs r w'] by auto
qed

lemma flush_run:
  assumes "at written T (n, w)"
  shows "\<exists>q w' lost. grep_flush os (n, w) = Some (q, n, w') \<and> good w' \<and> tbl w' = T \<and> out w' @ lost = written \<and>
    length lost < unat buffer_size \<and> ((\<forall>bs v. fst (sys_write os STDOUT_FILENO bs v) \<noteq> -1) \<longrightarrow> lost = [])"
proof -
  have w: "good w \<and> tbl w = T" "written = out w @ n" "length n < unat buffer_size"
    using assms by (simp_all add: worker_at_def batch_obs)
  then have "length n < 2 ^ 63" by simp
  from stdout_writer.write_node_law [OF writer_at w(1) this, of False]
  obtain q w' where run: "write_node os n False w = Some (q, w')" "good w'" "tbl w' = T"
      "case q of
         Inr k \<Rightarrow> k = size_of n + (if False then 1 else 0) \<and> (out w' = out w @ n \<or> False \<and> out w' = out w @ n @ [newline])
       | Inl e \<Rightarrow> \<exists>k \<le> length n. out w' = out w @ take k n"
    by (elim exE conjE)
  have sure: "\<exists>k. q = Inr k" if "\<forall>bs v. fst (sys_write os STDOUT_FILENO bs v) \<noteq> -1"
    using write_node_no_error [OF _ run(1)] that by blast
  show ?thesis
  proof (cases q)
    case (Inl e)
    then obtain k where "out w' = out w @ take k n" using run(4) by auto
    then show ?thesis
      using run(1-3) w(2,3) Inl sure
      by (intro exI [of _ "Inl e"] exI [of _ w'] exI [of _ "drop k n"]) (auto simp: grep_flush_def batch_flush_def)
  next
    case (Inr k)
    then show ?thesis
      using run w(2) by (intro exI [of _ "Inr (size_of n)"] exI [of _ w'] exI [of _ "[]"])
        (auto simp: grep_flush_def batch_flush_def)
  qed
qed

lemma grep_run:
  assumes "good w" "root location = Some es" "wf_tree es" "tree_size es < 2 ^ 64"
    "vectorscan_state hs_compile hs_alloc regex = Returned ()"
  shows "\<exists>r w' css lost.
    grep os (grep_worker os hs_compile hs_alloc hs_scan) config [regex, location] w = Some (r, w') \<and>
    (r = Returned () \<and> map concat css = breadth_first [es] \<and> good w' \<and> tbl w' = tbl w \<and>
       out w' @ lost = out w @ concat (map (scan_output hs_scan) css) \<and> length lost < unat buffer_size \<and>
       ((\<forall>bs v. fst (sys_write os STDOUT_FILENO bs v) \<noteq> -1) \<longrightarrow> lost = []) \<or>
     part hs_scan (out w) (breadth_first [es]) r css w')"
proof -
  obtain fd w1 where call: "sys_openat os AT_FDCWD location dir_flags w = (fd, w1)" by fastforce
  have op: "good w1" "out w1 = out w" "0 \<le> fd" "tbl w fd = None" "tbl w1 = (tbl w)(fd \<mapsto> Listing es es)"
    using root_law [OF assms(1) call] assms(2) by simp_all
  have start: "at (out w) (tbl w1) ([], w1)" using op by (simp add: worker_at_def batch_obs)
  have queue: "queued (tbl w1) [fd] [es]" "[fd] \<noteq> []" "\<forall>es \<in> set [es]. wf_tree es" "sum_list (map tree_size [es]) < 2 ^ 64"
    using op(5) assms(3,4) by (simp_all add: queued_def)
  obtain r n2 w2 css where loop: "worker_loop os (grep_pipeline os hs_scan) [fd] (size_of [fd]) [] w1 = Some (r, n2, w2)"
      "r = Returned () \<and> map concat css = breadth_first [es] \<and>
         at (out w @ concat (map (scan_output hs_scan) css)) (tbl w1 |` (- set [fd])) (n2, w2) \<or>
       part hs_scan (out w) (breadth_first [es]) r css w2"
    using worker_loop_run [OF start queue, of hs_scan] by (elim exE conjE)
  have table: "tbl w1 |` (- set [fd]) = tbl w" using op(4,5) by (auto simp: restrict_map_def)
  have one: "size_of [fd] = 1" by (simp add: size_of_def)
  have grep: "grep os (grep_worker os hs_compile hs_alloc hs_scan) config [regex, location] w =
      (if r \<noteq> Returned () then Some (r, w2)
       else (case grep_flush os (n2, w2) of None \<Rightarrow> None | Some (_, _, w'') \<Rightarrow> Some (Returned (), w'')))"
    using loop(1) call op(3) by (simp add: grep_def processor_run_def grep_worker_def assms(5) one)
  from loop(2) show ?thesis
  proof (elim disjE conjE)
    assume ok: "r = Returned ()" "map concat css = breadth_first [es]"
      "at (out w @ concat (map (scan_output hs_scan) css)) (tbl w1 |` (- set [fd])) (n2, w2)"
    obtain q w3 lost where "grep_flush os (n2, w2) = Some (q, n2, w3)" "good w3" "tbl w3 = tbl w"
        "out w3 @ lost = out w @ concat (map (scan_output hs_scan) css)" "length lost < unat buffer_size"
        "(\<forall>bs v. fst (sys_write os STDOUT_FILENO bs v) \<noteq> -1) \<longrightarrow> lost = []"
      using flush_run [OF ok(3) [unfolded table]] by (elim exE conjE)
    then show ?thesis
      using grep ok(1,2) by (intro exI [of _ "Returned ()"] exI [of _ w3] exI [of _ css] exI [of _ lost]) auto
  next
    assume stop: "part hs_scan (out w) (breadth_first [es]) r css w2"
    then have "r \<noteq> Returned ()" by (auto simp: part_def)
    then show ?thesis using grep stop by (intro exI [of _ r] exI [of _ w2] exI [of _ css]) auto
  qed
qed

lemma grep_total:
  assumes "good w" "root location = Some es" "wf_tree es" "tree_size es < 2 ^ 64"
    "vectorscan_state hs_compile hs_alloc regex = Returned ()"
  shows "\<exists>r w' css lost.
    grep os (grep_worker os hs_compile hs_alloc hs_scan) config [regex, location] w = Some (r, w') \<and>
    (r = Returned () \<and> map concat css = breadth_first [es] \<and> tbl w' = tbl w \<and>
       out w' @ lost = out w @ concat (map (scan_output hs_scan) css) \<and> length lost < unat buffer_size \<and>
       (calls_succeed os hs_scan \<longrightarrow> lost = []) \<or>
     (\<exists>e. r = Threw (Runtime_Error e)) \<and> \<not> calls_succeed os hs_scan \<and>
       prefix (concat (map concat css)) (concat (breadth_first [es])) \<and>
       prefix (out w') (out w @ concat (map (scan_output hs_scan) css)))"
proof -
  note run = grep_run [OF assms, of hs_scan config, unfolded part_def]
  have "calls_succeed os hs_scan \<longrightarrow> (\<forall>bs v. fst (sys_write os STDOUT_FILENO bs v) \<noteq> -1)"
    by (simp add: calls_succeed_def)
  then show ?thesis using run by (elim exE conjE) (intro exI conjI, assumption, blast)
qed

lemma grep_run_no_root:
  assumes "good w" "root location = None"
  shows "\<exists>w'. grep os threads config [regex, location] w =
      Some (Threw (Runtime_Error (''failed to open initial directory: '' @ location)), w') \<and>
    good w' \<and> out w' = out w \<and> tbl w' = tbl w"
proof -
  obtain fd w1 where call: "sys_openat os AT_FDCWD location dir_flags w = (fd, w1)" by fastforce
  then show ?thesis using root_law [OF assms(1) call] assms(2) by (simp add: grep_def processor_run_def)
qed

end

section \<open>A kernel with a directory tree\<close>

text \<open>
  The simulated kernel with a table of descriptors: reads and writes are those of \<open>sim_os\<close>, short or, where
  \<open>faulty\<close>, failing as its script says, a listing hands out two entries at a time, descriptors are numbered
  upwards.
\<close>

record tree_sim =
  ts_sim :: sim
  ts_tbl :: "int \<rightharpoonup> descriptor"
  ts_next :: int

definition ts_open :: "fs_node option \<Rightarrow> tree_sim \<Rightarrow> int \<times> tree_sim" where
  "ts_open x w =
     (case x of
        None \<Rightarrow> (-1, w)
      | Some nd \<Rightarrow> (ts_next w, w\<lparr>ts_tbl := (ts_tbl w)(ts_next w \<mapsto> opened_as nd), ts_next := ts_next w + 1\<rparr>))"

definition ts_openat :: "(string \<rightharpoonup> fs_entry list) \<Rightarrow> int \<Rightarrow> string \<Rightarrow> flags \<Rightarrow> tree_sim \<Rightarrow> int \<times> tree_sim" where
  "ts_openat root dir name fl w =
     (if dir = AT_FDCWD then ts_open (map_option Folder (root name)) w
      else
        (case ts_tbl w dir of
           Some (Listing es un) \<Rightarrow> ts_open (Option.bind (map_of (map (\<lambda>(d, x). (d_name d, x)) es) name) id) w
         | _ \<Rightarrow> (-1, w)))"

definition ts_getdents :: "int \<Rightarrow> nat \<Rightarrow> tree_sim \<Rightarrow> (int \<times> bytes) \<times> tree_sim" where
  "ts_getdents fd n w =
     (case ts_tbl w fd of
        Some (Listing es un) \<Rightarrow>
          (let buf = concat (map (\<lambda>e. encode_dirent (fst e)) (take 2 un)) in
           ((int (length buf), buf), w\<lparr>ts_tbl := (ts_tbl w)(fd \<mapsto> Listing es (drop 2 un))\<rparr>))
      | _ \<Rightarrow> ((-1, []), w))"

definition ts_script :: "bool \<Rightarrow> sim \<Rightarrow> sim" where
  "ts_script faulty v = (if faulty then v else v\<lparr>sim_script := map abs (sim_script v)\<rparr>)"

definition ts_pread :: "bool \<Rightarrow> int \<Rightarrow> size_t \<Rightarrow> size_t \<Rightarrow> tree_sim \<Rightarrow> (int \<times> bytes) \<times> tree_sim" where
  "ts_pread faulty fd cnt off w =
     (case ts_tbl w fd of
        Some (Reading data) \<Rightarrow>
          (case sim_do_pread fd cnt off ((ts_script faulty (ts_sim w))\<lparr>sim_files := (\<lambda>_. data)\<rparr>) of (x, v) \<Rightarrow> (x, w\<lparr>ts_sim := v\<rparr>))
      | _ \<Rightarrow> ((if faulty then -1 else 0, []), w))"

definition ts_write :: "bool \<Rightarrow> int \<Rightarrow> bytes \<Rightarrow> tree_sim \<Rightarrow> int \<times> tree_sim" where
  "ts_write faulty fd bs w = (case sim_do_write fd bs (ts_script faulty (ts_sim w)) of (r, v) \<Rightarrow> (r, w\<lparr>ts_sim := v\<rparr>))"

definition tree_os :: "(string \<rightharpoonup> fs_entry list) \<Rightarrow> bool \<Rightarrow> tree_sim os" where
  "tree_os root faulty = \<lparr>
     sys_openat = ts_openat root,
     sys_close = (\<lambda>fd w. w\<lparr>ts_tbl := (ts_tbl w)(fd := None)\<rparr>),
     sys_statx = (\<lambda>fd w. ((-1, \<lparr>stx_size = 0, stx_mode = 0\<rparr>), w)),
     sys_fadvise = (\<lambda>fd n w. (0, w)),
     sys_isatty = (\<lambda>fd w. 0),
     sys_pread = ts_pread faulty,
     sys_write = ts_write faulty,
     sys_copy_file_range = (\<lambda>fd dst cnt w. (-1, w)),
     sys_splice = (\<lambda>fd dst cnt w. Some (-1, w)),
     sys_sendfile = (\<lambda>dst fd off cnt w. (-1, w)),
     sys_pipe = (\<lambda>w. ((-1, 0, 0), w)),
     sys_setpipe_sz = (\<lambda>fd n w. (-1, w)),
     sys_mmap = (\<lambda>n fd w. (MAP_FAILED, w)),
     sys_munmap = (\<lambda>p n w. w),
     os_mem = (\<lambda>w p n. None),
     sys_getdents64 = ts_getdents,
     sys_getrlimit = (\<lambda>w. ((-1, \<lparr>rlim_cur = 0, rlim_max = 0\<rparr>), w)),
     sys_setrlimit = (\<lambda>l w. (-1, w)),
     os_getenv = (\<lambda>w x. None),
     os_errno = (\<lambda>w. 5),
     os_strerror = (\<lambda>e. ''Input/output error'')\<rparr>"

text \<open>Files of a size that can be read, names that tell the entries of a directory apart, well-formed records.\<close>

inductive sound_node :: "fs_node \<Rightarrow> bool" where
  "length data < 2 ^ 63 \<Longrightarrow> sound_node (Doc data)"
| "distinct (map (\<lambda>e. d_name (fst e)) es) \<Longrightarrow> \<forall>d x. (d, x) \<in> set es \<longrightarrow> wf_dirent d \<Longrightarrow>
   \<forall>d nd. (d, Some nd) \<in> set es \<longrightarrow> sound_node nd \<Longrightarrow> sound_node (Folder es)"

inductive_simps sound_Doc [simp]: "sound_node (Doc data)"
inductive_simps sound_Folder: "sound_node (Folder es)"

fun sound_descriptor :: "descriptor \<Rightarrow> bool" where
  "sound_descriptor (Reading data) = sound_node (Doc data)"
| "sound_descriptor (Listing es un) = (sound_node (Folder es) \<and> set un \<subseteq> set es)"

definition ts_good :: "tree_sim \<Rightarrow> bool" where
  "ts_good w \<longleftrightarrow> 0 \<le> ts_next w \<and> (\<forall>fd \<ge> ts_next w. ts_tbl w fd = None) \<and> ts_tbl w AT_FDCWD = None \<and>
     (\<forall>fd h. ts_tbl w fd = Some h \<longrightarrow> sound_descriptor h)"

lemma sound_opened: "sound_node nd \<Longrightarrow> sound_descriptor (opened_as nd)"
  by (cases nd) auto

lemma ts_open_law:
  assumes "ts_good w" "ts_open x w = (fd, w')" "\<forall>nd. x = Some nd \<longrightarrow> sound_node nd"
  shows "ts_good w' \<and> sim_out (ts_sim w') = sim_out (ts_sim w) \<and>
    (case x of
       None \<Rightarrow> fd < 0 \<and> ts_tbl w' = ts_tbl w
     | Some nd \<Rightarrow> 0 \<le> fd \<and> ts_tbl w fd = None \<and> ts_tbl w' = (ts_tbl w)(fd \<mapsto> opened_as nd))"
  using assms by (auto simp: ts_open_def ts_good_def sound_opened split: option.splits if_splits)

lemma name_lookup:
  assumes "sound_node (Folder es)" "(d, x) \<in> set es"
  shows "map_of (map (\<lambda>(d, x). (d_name d, x)) es) (d_name d) = Some x"
proof (rule map_of_is_SomeI)
  have "map fst (map (\<lambda>(d, x). (d_name d, x)) es) = map (\<lambda>e. d_name (fst e)) es" by auto
  then show "distinct (map fst (map (\<lambda>(d, x). (d_name d, x)) es))"
    using assms(1) by (simp add: sound_Folder comp_def case_prod_unfold)
  show "(d_name d, x) \<in> set (map (\<lambda>(d, x). (d_name d, x)) es)" using assms(2) by force
qed

lemma encode_nonempty: "wf_dirent d \<Longrightarrow> encode_dirent d \<noteq> []"
  using encode_dirent_length [of d] by (auto simp: wf_dirent_def)

lemma ts_script_out [simp]: "sim_out (ts_script faulty v) = sim_out v"
  by (simp add: ts_script_def)

lemma ts_script_grant: "fst (sim_grant want ((ts_script False v)\<lparr>sim_files := x\<rparr>)) \<noteq> -1"
  "fst (sim_grant want (ts_script False v)) \<noteq> -1"
  by (auto simp: sim_grant_def ts_script_def split: list.splits)

lemma tree_listing:
  assumes good: "ts_good w" and fd: "ts_tbl w fd = Some (Listing es un)"
    and call: "sys_getdents64 (tree_os root faulty) fd sz w = ((r, buf), w')"
  shows "ts_good w' \<and> sim_out (ts_sim w') = sim_out (ts_sim w) \<and> 0 \<le> r \<and>
      (\<exists>now later. un = now @ later \<and> take (nat r) buf = concat (map (\<lambda>e. encode_dirent (fst e)) now) \<and>
         (now = [] \<longrightarrow> r = 0 \<and> later = []) \<and> (now \<noteq> [] \<longrightarrow> 0 < r) \<and> ts_tbl w' = (ts_tbl w)(fd \<mapsto> Listing es later))"
proof -
  have sound: "sound_node (Folder es)" "set un \<subseteq> set es" using good fd unfolding ts_good_def by force+
  let ?now = "take 2 un" and ?later = "drop 2 un"
  have w': "w' = w\<lparr>ts_tbl := (ts_tbl w)(fd \<mapsto> Listing es ?later)\<rparr>" "r = int (length buf)"
      "buf = concat (map (\<lambda>e. encode_dirent (fst e)) ?now)"
    using call fd by (auto simp: tree_os_def ts_getdents_def Let_def)
  have "set ?later \<subseteq> set es" using sound(2) set_drop_subset [of 2 un] by blast
  then have kept: "ts_good w'" using good fd sound(1) by (auto simp: w'(1) ts_good_def)
  have full: "buf \<noteq> []" if now: "?now \<noteq> []"
  proof -
    obtain d x rest where un: "un = (d, x) # rest" using now by (cases un) auto
    then have "wf_dirent d" using sound by (auto simp: sound_Folder)
    then show ?thesis using w'(3) un encode_nonempty by (simp add: numeral_2_eq_2)
  qed
  show ?thesis
    by (intro conjI, rule kept, simp add: w'(1), simp add: w'(2), rule exI [of _ ?now], rule exI [of _ ?later])
      (use full w' in auto)
qed

lemma tree_open_entry:
  assumes good: "ts_good w" and dir: "ts_tbl w dir = Some (Listing es un)" and dx: "(d, x) \<in> set es"
    and call: "sys_openat (tree_os root faulty) dir (d_name d) fl w = (fd, w')"
  shows "ts_good w' \<and> sim_out (ts_sim w') = sim_out (ts_sim w) \<and>
      (case x of
         None \<Rightarrow> fd < 0 \<and> ts_tbl w' = ts_tbl w
       | Some nd \<Rightarrow> 0 \<le> fd \<and> ts_tbl w fd = None \<and> ts_tbl w' = (ts_tbl w)(fd \<mapsto> opened_as nd))"
proof -
  have sound: "sound_node (Folder es)" and "dir \<noteq> AT_FDCWD" using good dir unfolding ts_good_def by force+
  then have opened: "ts_open x w = (fd, w')"
    using call dir name_lookup [OF sound dx] by (simp add: tree_os_def ts_openat_def)
  show ?thesis
    by (rule ts_open_law [OF good opened]) (use sound dx in \<open>auto simp: sound_Folder\<close>)
qed

lemma tree_world:
  assumes "\<And>p es. root p = Some es \<Longrightarrow> sound_node (Folder es)"
  shows "grep_world (tree_os root faulty) (\<lambda>w. sim_out (ts_sim w)) ts_good ts_tbl root"
proof
  fix w bs r w'
  assume "ts_good w" "sys_write (tree_os root faulty) STDOUT_FILENO bs w = (r, w')"
  then show "ts_good w' \<and> ts_tbl w' = ts_tbl w \<and>
      (r = -1 \<and> sim_out (ts_sim w') = sim_out (ts_sim w) \<or>
       0 \<le> r \<and> nat r \<le> length bs \<and> sim_out (ts_sim w') = sim_out (ts_sim w) @ take (nat r) bs \<and> (bs \<noteq> [] \<longrightarrow> 0 < r))"
    using sim_write_law [of bs "ts_script faulty (ts_sim w)" r "ts_sim w'"]
    by (auto simp: tree_os_def ts_write_def ts_good_def split: prod.splits)
next
  fix w fd data cnt off r bs w'
  assume "ts_good w" "ts_tbl w fd = Some (Reading data)" "sys_pread (tree_os root faulty) fd cnt off w = ((r, bs), w')"
  then show "ts_good w' \<and> ts_tbl w' = ts_tbl w \<and> sim_out (ts_sim w') = sim_out (ts_sim w) \<and>
      (r = -1 \<or>
       (r = int (length bs) \<and> length bs \<le> unat cnt \<and> bs = take (length bs) (drop (unat off) data) \<and>
        (bs = [] \<longrightarrow> cnt = 0 \<or> length data \<le> unat off)))"
    using sim_pread_law [of fd cnt off "(ts_script faulty (ts_sim w))\<lparr>sim_files := (\<lambda>_. data)\<rparr>" r bs "ts_sim w'"]
    by (auto simp: tree_os_def ts_pread_def ts_good_def split: prod.splits)
next
  fix w fd data
  assume "ts_good w" "ts_tbl w fd = Some (Reading data)"
  then show "length data < 2 ^ 63" by (force simp: ts_good_def)
next
  show "ts_good w' \<and> sim_out (ts_sim w') = sim_out (ts_sim w) \<and> 0 \<le> r \<and>
      (\<exists>now later. un = now @ later \<and> take (nat r) buf = concat (map (\<lambda>e. encode_dirent (fst e)) now) \<and>
         (now = [] \<longrightarrow> r = 0 \<and> later = []) \<and> (now \<noteq> [] \<longrightarrow> 0 < r) \<and> ts_tbl w' = (ts_tbl w)(fd \<mapsto> Listing es later))"
    if "ts_good w" "ts_tbl w fd = Some (Listing es un)" "sys_getdents64 (tree_os root faulty) fd sz w = ((r, buf), w')"
    for w fd es un sz r buf w'
    using that by (rule tree_listing)
next
  show "ts_good w' \<and> sim_out (ts_sim w') = sim_out (ts_sim w) \<and>
      (case x of
         None \<Rightarrow> fd < 0 \<and> ts_tbl w' = ts_tbl w
       | Some nd \<Rightarrow> 0 \<le> fd \<and> ts_tbl w fd = None \<and> ts_tbl w' = (ts_tbl w)(fd \<mapsto> opened_as nd))"
    if "ts_good w" "ts_tbl w dir = Some (Listing es un)" "(d, x) \<in> set es"
      "sys_openat (tree_os root faulty) dir (d_name d) fl w = (fd, w')" for w dir es un d x fl fd w'
    using that by (rule tree_open_entry)
next
  fix w location fd w'
  assume good: "ts_good w" and "sys_openat (tree_os root faulty) AT_FDCWD location dir_flags w = (fd, w')"
  then have "ts_open (map_option Folder (root location)) w = (fd, w')" by (simp add: tree_os_def ts_openat_def)
  from ts_open_law [OF good this] assms show "ts_good w' \<and> sim_out (ts_sim w') = sim_out (ts_sim w) \<and>
      (case root location of
         None \<Rightarrow> fd < 0 \<and> ts_tbl w' = ts_tbl w
       | Some es \<Rightarrow> 0 \<le> fd \<and> ts_tbl w fd = None \<and> ts_tbl w' = (ts_tbl w)(fd \<mapsto> Listing es es))"
    by (cases "root location") auto
next
  fix w fd h
  assume "ts_good w" "ts_tbl w fd = Some h"
  then show "ts_good (sys_close (tree_os root faulty) fd w) \<and>
      sim_out (ts_sim (sys_close (tree_os root faulty) fd w)) = sim_out (ts_sim w) \<and>
      ts_tbl (sys_close (tree_os root faulty) fd w) = (ts_tbl w)(fd := None)"
    by (auto simp: tree_os_def ts_good_def)
qed

lemma tree_calls_succeed:
  assumes "\<And>d. fst (hs_scan d) = 0"
  shows "calls_succeed (tree_os root False) hs_scan"
proof -
  have "fst (ts_write False fd bs v) \<noteq> -1" for fd bs v
    using ts_script_grant(2) [of "length bs" "ts_sim v"] by (auto simp: ts_write_def sim_do_write_def split: prod.splits)
  moreover have "fst (fst (ts_pread False fd cnt off v)) \<noteq> -1" for fd cnt off v
    using ts_script_grant(1)
    by (auto simp: ts_pread_def sim_do_pread_def Let_def split: prod.splits option.splits descriptor.splits)
      (metis fst_conv)
  ultimately show ?thesis using assms by (simp add: calls_succeed_def tree_os_def)
qed

text \<open>A tree with a file, and a file in a directory.\<close>

definition demo_tree :: "fs_entry list" where
  "demo_tree =
     [(sim_entry, Some (Doc ''x1'')), (sim_entry\<lparr>d_type := 4, d_name := ''.''\<rparr>, None),
      (sim_entry\<lparr>d_type := 4, d_name := ''s''\<rparr>, Some (Folder [(sim_entry, Some (Doc ''y2''))]))]"

definition demo_root :: "string \<rightharpoonup> fs_entry list" where
  "demo_root = [''dir'' \<mapsto> demo_tree]"

definition demo_world :: tree_sim where
  "demo_world = \<lparr>ts_sim = sim0\<lparr>sim_script := [1, 2]\<rparr>, ts_tbl = (\<lambda>_. None), ts_next = 3\<rparr>"

definition demo_scan :: "bytes \<Rightarrow> int \<times> (nat \<times> nat) list" where
  "demo_scan d = (0, [(0, 1)])"

interpretation demo: grep_world "tree_os demo_root faulty" "\<lambda>w. sim_out (ts_sim w)" ts_good ts_tbl demo_root
  for faulty
  by (rule tree_world)
    (auto simp: demo_root_def demo_tree_def sound_Folder sim_entry_def wf_dirent_def split: if_splits)

lemma demo_calls: "calls_succeed (tree_os demo_root False) demo_scan"
  by (rule tree_calls_succeed) (simp add: demo_scan_def)

lemma demo_init: "ts_tbl demo_world = (\<lambda>_. None)" "sim_out (ts_sim demo_world) = []"
  by (simp_all add: demo_world_def sim0_def)

lemma demo_facts:
  "ts_good demo_world" "demo_root ''dir'' = Some demo_tree" "wf_tree demo_tree" "tree_size demo_tree < 2 ^ 64"
  "vectorscan_state (\<lambda>_. (0, [])) (\<lambda>_. 0) ''x'' = Returned ()" "breadth_first [demo_tree] = [''x1'', ''y2'']"
proof -
  have dirs: "dirs_of demo_tree = [[(sim_entry, Some (Doc ''y2''))]]" by (simp add: demo_tree_def sim_entry_def)
  have "wf_tree [(sim_entry, Some (Doc ''y2''))]"
    by (rule wf_tree.intros) (simp_all add: sim_entry_def wf_dirent_def)
  then show "wf_tree demo_tree"
    by (intro wf_tree.intros [of demo_tree]) (simp add: demo_tree_def sim_entry_def wf_dirent_def, simp add: dirs)
qed (simp_all add: demo_world_def ts_good_def demo_root_def demo_tree_def tree_size_def vectorscan_state_def sim_entry_def)

section \<open>Properties\<close>



end
