(* ===== verification/Processor.thy ===== *)
theory Processor
  imports Om_Prelude
begin

section \<open>The grep workers as a state machine\<close>

text \<open>
  \<^verbatim>\<open>impl::Processor\<close> of \<^verbatim>\<open>commands/grep.h\<close>: the queue of directories, the mutex, the condition variable,
  the two atomics and the threads, as a step relation. Thread 0 is the main thread, which also
  runs the destructor. A step is one access to what is shared: one atomic operation, one critical
  section, one notification, or one of the two halves of \<^verbatim>\<open>cv_.wait\<close> (evaluating the predicate
  with the mutex held, and atomically releasing it and going to sleep). A directory is a tree:
  \<open>batches\<close> are the subdirectories opened while each of its \<^verbatim>\<open>getdents64\<close> buffers was worked
  through, in the order in which they are published. \<open>processed\<close> collects the directories that were
  closed. The counter is an integer; that it stays in the range of \<^verbatim>\<open>std::size_t\<close> is proved.
  An exception that leaves a worker ends the program and is not a step here.
\<close>

datatype dir = Dir (dir_fd: int) (batches: "dir list list")

datatype pc =
    Top                                       \<comment> \<open>at \<^verbatim>\<open>while (running_)\<close>\<close>
  | Acquire                                   \<comment> \<open>about to lock the mutex for \<^verbatim>\<open>cv_.wait\<close>\<close>
  | Check                                     \<comment> \<open>mutex held, about to evaluate the predicate\<close>
  | Enter_Wait                                \<comment> \<open>mutex held, predicate false, about to sleep\<close>
  | Sleeping                                  \<comment> \<open>in the condition variable\<close>
  | Decide                                    \<comment> \<open>mutex held, \<^verbatim>\<open>cv_.wait\<close> has returned\<close>
  | Scan dir "dir list list"                  \<comment> \<open>directory in work, batches not yet published\<close>
  | Publish dir "dir list" "dir list list"    \<comment> \<open>after \<^verbatim>\<open>fetch_add\<close>, about to append the batch\<close>
  | Notify dir "dir list list"                \<comment> \<open>batch appended, about to \<^verbatim>\<open>notify_one\<close>\<close>
  | Closing dir                               \<comment> \<open>about to close the directory and \<^verbatim>\<open>fetch_sub\<close>\<close>
  | Stop_All                                  \<comment> \<open>\<^verbatim>\<open>fetch_sub\<close> answered 1, about to clear \<^verbatim>\<open>running_\<close>\<close>
  | Broadcast                                 \<comment> \<open>about to \<^verbatim>\<open>notify_all\<close>\<close>
  | Flushing                                  \<comment> \<open>loop left, about to flush the batch\<close>
  | Destroy                                   \<comment> \<open>main thread: destructor, about to clear \<^verbatim>\<open>running_\<close>\<close>
  | Destroy_Notify                            \<comment> \<open>main thread: destructor, about to \<^verbatim>\<open>notify_all\<close>\<close>
  | Join                                      \<comment> \<open>main thread: joining the other threads\<close>
  | Done

record proc =
  queue :: "dir list"
  mutex :: "nat option"
  running :: bool
  pending :: int
  pcs :: "pc list"
  processed :: "dir multiset"

definition wake :: "pc \<Rightarrow> pc" where
  "wake p = (if p = Sleeping then Acquire else p)"

definition goto :: "nat \<Rightarrow> pc \<Rightarrow> proc \<Rightarrow> proc" where
  "goto t p s = s\<lparr>pcs := (pcs s)[t := p]\<rparr>"

definition at_pc :: "nat \<Rightarrow> pc \<Rightarrow> proc \<Rightarrow> bool" where
  "at_pc t p s \<longleftrightarrow> t < length (pcs s) \<and> pcs s ! t = p"

definition start :: "nat \<Rightarrow> dir \<Rightarrow> proc" where
  "start n root = \<lparr>queue = [root], mutex = None, running = True, pending = 1,
     pcs = replicate n Top, processed = {#}\<rparr>"

inductive step :: "proc \<Rightarrow> proc \<Rightarrow> bool" where
  loop: "at_pc t Top s \<Longrightarrow> running s \<Longrightarrow> step s (goto t Acquire s)"
| leave: "at_pc t Top s \<Longrightarrow> \<not> running s \<Longrightarrow> step s (goto t Flushing s)"
| lock: "at_pc t Acquire s \<Longrightarrow> mutex s = None \<Longrightarrow> step s (goto t Check (s\<lparr>mutex := Some t\<rparr>))"
| pred_true: "at_pc t Check s \<Longrightarrow> queue s \<noteq> [] \<or> \<not> running s \<Longrightarrow> step s (goto t Decide s)"
| pred_false: "at_pc t Check s \<Longrightarrow> queue s = [] \<Longrightarrow> running s \<Longrightarrow> step s (goto t Enter_Wait s)"
| sleep: "at_pc t Enter_Wait s \<Longrightarrow> step s (goto t Sleeping (s\<lparr>mutex := None\<rparr>))"
| stop: "at_pc t Decide s \<Longrightarrow> \<not> running s \<Longrightarrow> step s (goto t Flushing (s\<lparr>mutex := None\<rparr>))"
| pop: "at_pc t Decide s \<Longrightarrow> running s \<Longrightarrow> queue s = d # q \<Longrightarrow>
    step s (goto t (Scan d (batches d)) (s\<lparr>queue := q, mutex := None\<rparr>))"
| fetch_add: "at_pc t (Scan d (b # bs)) s \<Longrightarrow>
    step s (goto t (Publish d b bs) (s\<lparr>pending := pending s + int (length b)\<rparr>))"
| append: "at_pc t (Publish d b bs) s \<Longrightarrow> mutex s = None \<Longrightarrow>
    step s (goto t (Notify d bs) (s\<lparr>queue := queue s @ b\<rparr>))"
| notify_one: "at_pc t (Notify d bs) s \<Longrightarrow> at_pc u Sleeping s \<Longrightarrow>
    step s (goto t (Scan d bs) (goto u Acquire s))"
| notify_none: "at_pc t (Notify d bs) s \<Longrightarrow> Sleeping \<notin> set (pcs s) \<Longrightarrow> step s (goto t (Scan d bs) s)"
| exhausted: "at_pc t (Scan d []) s \<Longrightarrow> step s (goto t (Closing d) s)"
| fetch_sub: "at_pc t (Closing d) s \<Longrightarrow>
    step s (goto t (if pending s = 1 then Stop_All else Top)
      (s\<lparr>pending := pending s - 1, processed := processed s + {#d#}\<rparr>))"
| stop_all: "at_pc t Stop_All s \<Longrightarrow> step s (goto t Broadcast (s\<lparr>running := False\<rparr>))"
| broadcast: "at_pc t Broadcast s \<Longrightarrow> step s (goto t Top (s\<lparr>pcs := map wake (pcs s)\<rparr>))"
| flush: "at_pc t Flushing s \<Longrightarrow> step s (goto t (if t = 0 then Destroy else Done) s)"
| destroy: "at_pc 0 Destroy s \<Longrightarrow> step s (goto 0 Destroy_Notify (s\<lparr>running := False\<rparr>))"
| destroy_notify: "at_pc 0 Destroy_Notify s \<Longrightarrow> step s (goto 0 Join (s\<lparr>pcs := map wake (pcs s)\<rparr>))"
| join: "at_pc 0 Join s \<Longrightarrow> (\<forall>t < length (pcs s). t \<noteq> 0 \<longrightarrow> pcs s ! t = Done) \<Longrightarrow> step s (goto 0 Done s)"

text \<open>The standard also allows a sleeping thread to wake up without a notification.\<close>

inductive spurious :: "proc \<Rightarrow> proc \<Rightarrow> bool" where
  "at_pc t Sleeping s \<Longrightarrow> spurious s (goto t Acquire s)"

inductive reachable :: "nat \<Rightarrow> dir \<Rightarrow> proc \<Rightarrow> bool" for n root where
  init: "reachable n root (start n root)"
| step: "reachable n root s \<Longrightarrow> step s s' \<Longrightarrow> reachable n root s'"
| spurious: "reachable n root s \<Longrightarrow> spurious s s' \<Longrightarrow> reachable n root s'"

text \<open>Runs without spurious wake-ups, with their length.\<close>

inductive run :: "proc \<Rightarrow> nat \<Rightarrow> proc \<Rightarrow> bool" where
  none: "run s 0 s"
| more: "run s k s' \<Longrightarrow> step s' s'' \<Longrightarrow> run s (Suc k) s''"

definition stuck :: "proc \<Rightarrow> bool" where
  "stuck s \<longleftrightarrow> (\<forall>s'. \<not> step s s')"

section \<open>Counting\<close>

text \<open>All directories of a tree, and what a thread still holds of it.\<close>

fun all_dirs :: "dir \<Rightarrow> dir multiset" where
  "all_dirs (Dir fd bs) = add_mset (Dir fd bs) (sum_list (map (\<lambda>b. sum_list (map all_dirs b)) bs))"

definition all_of :: "dir list \<Rightarrow> dir multiset" where
  "all_of ds = sum_list (map all_dirs ds)"

fun held_by :: "pc \<Rightarrow> dir multiset" where
  "held_by (Scan d bs) = add_mset d (all_of (concat bs))"
| "held_by (Publish d b bs) = add_mset d (all_of b + all_of (concat bs))"
| "held_by (Notify d bs) = add_mset d (all_of (concat bs))"
| "held_by (Closing d) = {#d#}"
| "held_by _ = {#}"

text \<open>What a thread contributes to the counter.\<close>

fun counted :: "pc \<Rightarrow> int" where
  "counted (Scan d bs) = 1"
| "counted (Publish d b bs) = 1 + int (length b)"
| "counted (Notify d bs) = 1"
| "counted (Closing d) = 1"
| "counted _ = 0"

definition holds_mutex :: "pc \<Rightarrow> bool" where
  "holds_mutex p \<longleftrightarrow> p = Check \<or> p = Enter_Wait \<or> p = Decide"

text \<open>Threads that have seen \<^verbatim>\<open>running_\<close> false or made it so, and threads that will look at the queue again.\<close>

definition past_loop :: "pc \<Rightarrow> bool" where
  "past_loop p \<longleftrightarrow> p = Broadcast \<or> p = Flushing \<or> p = Destroy \<or> p = Destroy_Notify \<or> p = Join \<or> p = Done"

definition active :: "pc \<Rightarrow> bool" where
  "active p \<longleftrightarrow> p = Top \<or> p = Acquire \<or> p = Check \<or> p = Decide \<or> 0 < counted p"

section \<open>Invariants\<close>

definition inv_count :: "proc \<Rightarrow> bool" where
  "inv_count s \<longleftrightarrow> pending s = int (length (queue s)) + sum_list (map counted (pcs s))"

definition inv_dirs :: "dir \<Rightarrow> proc \<Rightarrow> bool" where
  "inv_dirs root s \<longleftrightarrow>
     processed s + all_of (queue s) + sum_list (map held_by (pcs s)) = all_dirs root"

definition inv_mutex :: "proc \<Rightarrow> bool" where
  "inv_mutex s \<longleftrightarrow>
     (\<forall>t < length (pcs s). holds_mutex (pcs s ! t) \<longleftrightarrow> mutex s = Some t) \<and>
     (\<forall>t. mutex s = Some t \<longrightarrow> t < length (pcs s))"

definition inv_stop :: "proc \<Rightarrow> bool" where
  "inv_stop s \<longleftrightarrow>
     (\<not> running s \<longrightarrow> pending s = 0) \<and>
     (running s \<and> pending s = 0 \<longrightarrow> (\<exists>t. at_pc t Stop_All s)) \<and>
     (\<forall>t. at_pc t Stop_All s \<longrightarrow> running s \<and> pending s = 0) \<and>
     (\<forall>t u. t \<noteq> u \<longrightarrow> at_pc t Stop_All s \<longrightarrow> \<not> at_pc u Stop_All s) \<and>
     (\<forall>p \<in> set (pcs s). past_loop p \<longrightarrow> \<not> running s)"

definition inv_queue :: "proc \<Rightarrow> bool" where
  "inv_queue s \<longleftrightarrow>
     (\<forall>t. at_pc t Decide s \<and> running s \<longrightarrow> queue s \<noteq> []) \<and>
     (queue s \<noteq> [] \<longrightarrow> (\<exists>t p. at_pc t p s \<and> active p))"

definition invariant :: "dir \<Rightarrow> proc \<Rightarrow> bool" where
  "invariant root s \<longleftrightarrow> inv_count s \<and> inv_dirs root s \<and> inv_mutex s \<and> inv_stop s \<and> inv_queue s"

lemma goto_simps [simp]:
  "queue (goto t p s) = queue s" "mutex (goto t p s) = mutex s" "running (goto t p s) = running s"
  "pending (goto t p s) = pending s" "processed (goto t p s) = processed s"
  "pcs (goto t p s) = (pcs s)[t := p]"
  by (simp_all add: goto_def)

lemma goto_update:
  "goto t p (s\<lparr>queue := x\<rparr>) = (goto t p s)\<lparr>queue := x\<rparr>" "goto t p (s\<lparr>mutex := l\<rparr>) = (goto t p s)\<lparr>mutex := l\<rparr>"
  "goto t p (s\<lparr>pending := k\<rparr>) = (goto t p s)\<lparr>pending := k\<rparr>" "goto t p (s\<lparr>running := r\<rparr>) = (goto t p s)\<lparr>running := r\<rparr>"
  "goto t p (s\<lparr>processed := m\<rparr>) = (goto t p s)\<lparr>processed := m\<rparr>"
  by (simp_all add: goto_def)

lemma at_pc_goto: "at_pc u q (goto t p s) \<longleftrightarrow> u < length (pcs s) \<and> (if u = t then q = p else pcs s ! u = q)"
  by (auto simp: at_pc_def nth_list_update)

lemma all_of_simps [simp]:
  "all_of [] = {#}" "all_of (d # ds) = all_dirs d + all_of ds" "all_of (xs @ ys) = all_of xs + all_of ys"
  by (simp_all add: all_of_def)

lemma all_dirs_unfold: "all_dirs d = add_mset d (all_of (concat (batches d)))"
proof -
  have "sum_list (map (\<lambda>b. sum_list (map all_dirs b)) bs) = all_of (concat bs)" for bs
    by (induction bs) (simp_all add: all_of_def)
  then show ?thesis by (cases d) simp
qed

lemma counted_nonneg [simp]: "0 \<le> counted p"
  by (cases p) auto

lemma sum_counted_nonneg [simp]: "0 \<le> sum_list (map counted ps)"
  by (induction ps) simp_all

text \<open>A sum over the threads, with one of them singled out.\<close>

lemma thread_sum:
  fixes f :: "pc \<Rightarrow> 'a :: comm_monoid_add"
  assumes "at_pc t p s"
  obtains R where "sum_list (map f (pcs s)) = f p + R"
    "\<forall>q. sum_list (map f ((pcs s)[t := q])) = f q + R"
proof -
  let ?xs = "pcs s"
  have t: "t < length ?xs" "?xs ! t = p" using assms by (simp_all add: at_pc_def)
  have new: "?xs[t := q] = take t ?xs @ q # drop (Suc t) ?xs" for q
    using t(1) by (rule upd_conv_take_nth_drop)
  have "?xs = take t ?xs @ p # drop (Suc t) ?xs" using t by (metis id_take_nth_drop)
  then have "sum_list (map f ?xs) = f p + (sum_list (map f (take t ?xs)) + sum_list (map f (drop (Suc t) ?xs)))"
    by (metis (no_types, opaque_lifting) add.left_commute list.map(2) map_append sum_list.Cons sum_list_append)
  moreover have "sum_list (map f (?xs[t := q])) =
      f q + (sum_list (map f (take t ?xs)) + sum_list (map f (drop (Suc t) ?xs)))" for q
    unfolding new by (simp add: ac_simps)
  ultimately show thesis using that by blast
qed

lemma sum_wake: "f Acquire = f Sleeping \<Longrightarrow> sum_list (map f (map wake ps)) = sum_list (map f ps)"
  by (induction ps) (auto simp: wake_def)

lemma at_pc_wake: "at_pc u q (s\<lparr>pcs := map wake (pcs s)\<rparr>) \<longleftrightarrow> u < length (pcs s) \<and> wake (pcs s ! u) = q"
  by (auto simp: at_pc_def)

lemma counted_wake [simp]: "counted \<circ> wake = counted" "held_by \<circ> wake = held_by"
  "counted (wake p) = counted p" "held_by (wake p) = held_by p"
  by (auto simp: wake_def fun_eq_iff)

lemma counted_update:
  "t < length ps \<Longrightarrow> sum_list (map counted (ps[t := q])) = sum_list (map counted ps) - counted (ps ! t) + counted q"
  by (induction ps arbitrary: t) (auto split: nat.splits simp: nth_Cons)

lemma held_by_update:
  "t < length ps \<Longrightarrow> held_by (ps ! t) = held_by q \<Longrightarrow> sum_list (map held_by (ps[t := q])) = sum_list (map held_by ps)"
  by (metis (no_types) list_update_id map_update)

lemma step_count: "step s s' \<Longrightarrow> inv_count s \<Longrightarrow> inv_count s'"
  by (induction rule: step.induct) (auto simp: inv_count_def at_pc_def counted_update nth_list_update)

lemma step_dirs: "step s s' \<Longrightarrow> inv_dirs root s \<Longrightarrow> inv_dirs root s'"
proof (induction rule: step.induct)
  case (pop t s d q)
  obtain R where R: "sum_list (map held_by (pcs s)) = held_by Decide + R"
    "\<forall>q. sum_list (map held_by ((pcs s)[t := q])) = held_by q + R"
    by (rule thread_sum [OF pop(1), of held_by])
  then show ?case using pop(3,4) by (simp add: inv_dirs_def all_dirs_unfold [of d] ac_simps)
next
  case (append t d b bs s)
  obtain R where R: "sum_list (map held_by (pcs s)) = held_by (Publish d b bs) + R"
    "\<forall>q. sum_list (map held_by ((pcs s)[t := q])) = held_by q + R"
    by (rule thread_sum [OF append(1), of held_by])
  then show ?case using append(3) by (simp add: inv_dirs_def ac_simps)
next
  case (fetch_sub t d s)
  obtain R where R: "sum_list (map held_by (pcs s)) = held_by (Closing d) + R"
    "\<forall>q. sum_list (map held_by ((pcs s)[t := q])) = held_by q + R"
    by (rule thread_sum [OF fetch_sub(1), of held_by])
  then show ?case using fetch_sub(2) by (simp add: inv_dirs_def ac_simps)
next
  case (notify_one t d bs s u)
  have "sum_list (map held_by ((pcs s)[u := Acquire, t := Scan d bs])) = sum_list (map held_by ((pcs s)[u := Acquire]))"
    using notify_one(1,2) by (intro held_by_update) (auto simp: at_pc_def nth_list_update)
  also have "\<dots> = sum_list (map held_by (pcs s))"
    using notify_one(2) by (intro held_by_update) (auto simp: at_pc_def)
  finally show ?case using notify_one(3) by (simp add: inv_dirs_def)
qed (auto simp: inv_dirs_def at_pc_def held_by_update nth_list_update)

lemma mutex_holder:
  assumes "inv_mutex s" "at_pc t p s" "holds_mutex p"
  shows "mutex s = Some t" "u < length (pcs s) \<Longrightarrow> holds_mutex (pcs s ! u) \<longleftrightarrow> u = t"
  using assms by (auto simp: inv_mutex_def at_pc_def)

lemma holds_mutex_simps [simp]:
  "holds_mutex Check" "holds_mutex Enter_Wait" "holds_mutex Decide"
  "\<not> holds_mutex Top" "\<not> holds_mutex Acquire" "\<not> holds_mutex Sleeping" "\<not> holds_mutex (Scan d bs)"
  "\<not> holds_mutex (Publish d b bs)" "\<not> holds_mutex (Notify d bs)" "\<not> holds_mutex (Closing d)"
  "\<not> holds_mutex Stop_All" "\<not> holds_mutex Broadcast" "\<not> holds_mutex Flushing" "\<not> holds_mutex Destroy"
  "\<not> holds_mutex Destroy_Notify" "\<not> holds_mutex Join" "\<not> holds_mutex Done"
  "holds_mutex (wake p) = holds_mutex p"
  by (auto simp: holds_mutex_def wake_def)

lemma mutex_released:
  assumes "inv_mutex s" "at_pc t p s" "holds_mutex p" "\<not> holds_mutex q"
    "pcs s' = (pcs s)[t := q]" "mutex s' = None"
  shows "inv_mutex s'"
  using mutex_holder(2) [OF assms(1-3)] assms(2,4-6) by (auto simp: inv_mutex_def at_pc_def nth_list_update)

lemma mutex_same:
  assumes "inv_mutex s" "at_pc t p s" "holds_mutex p \<longleftrightarrow> holds_mutex q"
  shows "inv_mutex (goto t q s)"
  using assms by (auto simp: inv_mutex_def at_pc_def nth_list_update)

lemma mutex_update [simp]:
  "inv_mutex (s\<lparr>queue := x\<rparr>) = inv_mutex s" "inv_mutex (s\<lparr>running := r\<rparr>) = inv_mutex s"
  "inv_mutex (s\<lparr>pending := k\<rparr>) = inv_mutex s" "inv_mutex (s\<lparr>processed := m\<rparr>) = inv_mutex s"
  by (simp_all add: inv_mutex_def)

lemma at_pc_update [simp]:
  "at_pc t p (s\<lparr>queue := x\<rparr>) = at_pc t p s" "at_pc t p (s\<lparr>running := r\<rparr>) = at_pc t p s"
  "at_pc t p (s\<lparr>pending := k\<rparr>) = at_pc t p s" "at_pc t p (s\<lparr>processed := m\<rparr>) = at_pc t p s"
  "at_pc t p (s\<lparr>mutex := l\<rparr>) = at_pc t p s"
  by (simp_all add: at_pc_def)

lemma mutex_woken: "inv_mutex s \<Longrightarrow> inv_mutex (s\<lparr>pcs := map wake (pcs s)\<rparr>)"
  by (simp add: inv_mutex_def)

lemma step_mutex: "step s s' \<Longrightarrow> inv_mutex s \<Longrightarrow> inv_mutex s'"
proof (induction rule: step.induct)
  case (lock t s)
  then show ?case by (auto simp: inv_mutex_def at_pc_def nth_list_update)
next
  case (sleep t s)
  then show ?case by (intro mutex_released [OF sleep(2,1)]) simp_all
next
  case (stop t s)
  then show ?case by (intro mutex_released [OF stop(3,1)]) simp_all
next
  case (pop t s d q)
  then show ?case by (intro mutex_released [OF pop(4,1)]) simp_all
next
  case (notify_one t d bs s u)
  have "inv_mutex (goto u Acquire s)" by (rule mutex_same [OF notify_one(3,2)]) simp_all
  moreover have "at_pc t (Notify d bs) (goto u Acquire s)" using notify_one by (auto simp: at_pc_def nth_list_update)
  ultimately show ?case by (rule mutex_same) simp_all
next
  case (broadcast t s)
  then have "at_pc t Broadcast (s\<lparr>pcs := map wake (pcs s)\<rparr>)" by (simp add: at_pc_def wake_def)
  with mutex_woken [OF broadcast(2)] show ?case by (rule mutex_same) simp_all
next
  case (destroy_notify s)
  then have "at_pc 0 Destroy_Notify (s\<lparr>pcs := map wake (pcs s)\<rparr>)" by (simp add: at_pc_def wake_def)
  with mutex_woken [OF destroy_notify(2)] show ?case by (rule mutex_same) simp_all
qed (auto intro!: mutex_same)

subsection \<open>Stopping\<close>

lemma counted_le: "at_pc t p s \<Longrightarrow> counted p \<le> sum_list (map counted (pcs s))"
  using counted_update [of t "pcs s" Top] sum_counted_nonneg [of "(pcs s)[t := Top]"] by (auto simp: at_pc_def)

lemma in_work_pending:
  assumes "inv_count s" "at_pc t p s" "0 < counted p"
  shows "1 \<le> pending s"
  using assms counted_le [OF assms(2)] by (simp add: inv_count_def)

lemma inv_stopD:
  assumes "inv_stop s"
  shows "\<not> running s \<Longrightarrow> pending s = 0" "running s \<Longrightarrow> pending s = 0 \<Longrightarrow> \<exists>t. at_pc t Stop_All s"
    "at_pc t Stop_All s \<Longrightarrow> running s" "at_pc t Stop_All s \<Longrightarrow> pending s = 0"
    "at_pc t Stop_All s \<Longrightarrow> at_pc u Stop_All s \<Longrightarrow> u = t"
    "p \<in> set (pcs s) \<Longrightarrow> past_loop p \<Longrightarrow> \<not> running s"
  using assms unfolding inv_stop_def by blast+

lemma inv_stopI:
  assumes "\<not> running s \<Longrightarrow> pending s = 0" "running s \<Longrightarrow> pending s = 0 \<Longrightarrow> \<exists>t. at_pc t Stop_All s"
    "\<And>t. at_pc t Stop_All s \<Longrightarrow> running s \<and> pending s = 0"
    "\<And>t u. at_pc t Stop_All s \<Longrightarrow> at_pc u Stop_All s \<Longrightarrow> t = u"
    "\<And>p. p \<in> set (pcs s) \<Longrightarrow> past_loop p \<Longrightarrow> \<not> running s"
  shows "inv_stop s"
  using assms unfolding inv_stop_def by blast

lemma in_work_running:
  assumes "inv_count s" "inv_stop s" "at_pc t p s" "0 < counted p"
  shows "running s" "\<not> at_pc u Stop_All s"
  using in_work_pending [OF assms(1,3,4)] inv_stopD(1,4) [OF assms(2)] by fastforce+

lemma stop_update [simp]:
  "inv_stop (s\<lparr>queue := x\<rparr>) = inv_stop s" "inv_stop (s\<lparr>mutex := l\<rparr>) = inv_stop s"
  "inv_stop (s\<lparr>processed := m\<rparr>) = inv_stop s"
  by (simp_all add: inv_stop_def)

lemma past_loop_simps [simp]:
  "past_loop Broadcast" "past_loop Flushing" "past_loop Destroy" "past_loop Destroy_Notify" "past_loop Join" "past_loop Done"
  "\<not> past_loop Top" "\<not> past_loop Acquire" "\<not> past_loop Check" "\<not> past_loop Enter_Wait" "\<not> past_loop Sleeping"
  "\<not> past_loop Decide" "\<not> past_loop (Scan d bs)" "\<not> past_loop (Publish d b bs)" "\<not> past_loop (Notify d bs)"
  "\<not> past_loop (Closing d)" "\<not> past_loop Stop_All" "past_loop (wake p) = past_loop p"
  by (simp_all add: past_loop_def wake_def)

lemma in_set_update: "p \<in> set (ps[t := q]) \<Longrightarrow> p = q \<or> p \<in> set ps"
  using set_update_subset_insert by fastforce

lemma at_Stop_All_goto:
  "at_pc t p s \<Longrightarrow> at_pc u Stop_All (goto t q s) \<longleftrightarrow> (if u = t then q = Stop_All else at_pc u Stop_All s)"
  by (simp add: at_pc_def nth_list_update)

lemma stop_frame:
  assumes "inv_stop s" "at_pc t p s" "p \<noteq> Stop_All" "q \<noteq> Stop_All" "past_loop q \<longrightarrow> \<not> running s"
  shows "inv_stop (goto t q s)"
proof -
  have "\<not> at_pc t Stop_All s" using assms(2,3) by (simp add: at_pc_def)
  then have eq: "at_pc u Stop_All (goto t q s) \<longleftrightarrow> at_pc u Stop_All s" for u
    using assms(4) at_Stop_All_goto [OF assms(2)] by auto
  show ?thesis
  proof (rule inv_stopI; unfold eq goto_simps)
    show "\<not> running s \<Longrightarrow> pending s = 0" by (rule inv_stopD(1) [OF assms(1)])
    show "running s \<Longrightarrow> pending s = 0 \<Longrightarrow> \<exists>t. at_pc t Stop_All s" by (rule inv_stopD(2) [OF assms(1)])
    show "at_pc u Stop_All s \<Longrightarrow> running s \<and> pending s = 0" for u using inv_stopD(3,4) [OF assms(1)] by blast
    show "at_pc u Stop_All s \<Longrightarrow> at_pc v Stop_All s \<Longrightarrow> u = v" for u v using inv_stopD(5) [OF assms(1)] by blast
    show "r \<in> set ((pcs s)[t := q]) \<Longrightarrow> past_loop r \<Longrightarrow> \<not> running s" for r
      using in_set_update [of r "pcs s" t q] inv_stopD(6) [OF assms(1), of r] assms(5) by blast
  qed
qed

lemma at_Stop_All_woken: "at_pc u Stop_All (s\<lparr>pcs := map wake (pcs s)\<rparr>) \<longleftrightarrow> at_pc u Stop_All s"
  by (cases "u < length (pcs s)") (simp_all add: at_pc_def wake_def)

lemma stop_woken:
  assumes "inv_stop s"
  shows "inv_stop (s\<lparr>pcs := map wake (pcs s)\<rparr>)"
proof -
  let ?s = "s\<lparr>pcs := map wake (pcs s)\<rparr>"
  show ?thesis
  proof (rule inv_stopI)
    show "\<not> running ?s \<Longrightarrow> pending ?s = 0" using inv_stopD(1) [OF assms] by simp
    show "running ?s \<Longrightarrow> pending ?s = 0 \<Longrightarrow> \<exists>t. at_pc t Stop_All ?s"
      unfolding at_Stop_All_woken using inv_stopD(2) [OF assms] by simp
    show "at_pc u Stop_All ?s \<Longrightarrow> running ?s \<and> pending ?s = 0" for u
      unfolding at_Stop_All_woken using inv_stopD(3,4) [OF assms, of u] by simp
    show "at_pc u Stop_All ?s \<Longrightarrow> at_pc v Stop_All ?s \<Longrightarrow> u = v" for u v
      unfolding at_Stop_All_woken using inv_stopD(5) [OF assms, of v u] by simp
    show "p \<in> set (pcs ?s) \<Longrightarrow> past_loop p \<Longrightarrow> \<not> running ?s" for p
      using inv_stopD(6) [OF assms] by auto
  qed
qed

lemma past_loop_stopped: "inv_stop s \<Longrightarrow> at_pc t p s \<Longrightarrow> past_loop p \<Longrightarrow> \<not> running s"
  using inv_stopD(6) [of s p] nth_mem [of t "pcs s"] unfolding at_pc_def by blast

lemma woken_at: "at_pc t p s \<Longrightarrow> p \<noteq> Sleeping \<Longrightarrow> at_pc t p (s\<lparr>pcs := map wake (pcs s)\<rparr>)"
  by (simp add: at_pc_def wake_def)

lemma other_at: "at_pc t p s \<Longrightarrow> at_pc u q s \<Longrightarrow> p \<noteq> q \<Longrightarrow> at_pc t p (goto u r s)"
  by (cases "t = u") (simp_all add: at_pc_def)

text \<open>The thread whose \<^verbatim>\<open>fetch_sub\<close> answers 1 is the only one, and nothing is in work any more.\<close>

lemma stop_fetch_sub:
  assumes "inv_count s" "inv_stop s" "at_pc t (Closing d) s"
  shows "inv_stop (goto t (if pending s = 1 then Stop_All else Top) (s\<lparr>pending := pending s - 1\<rparr>))"
proof -
  let ?q = "if pending s = 1 then Stop_All else Top" and ?s = "s\<lparr>pending := pending s - 1\<rparr>"
  have run: "running s" and none: "\<not> at_pc u Stop_All s" and pos: "1 \<le> pending s" for u
    using in_work_running [OF assms] in_work_pending [OF assms(1,3)] by simp_all
  have "at_pc t (Closing d) ?s" using assms(3) by simp
  from at_Stop_All_goto [OF this]
  have eq: "at_pc u Stop_All (goto t ?q ?s) \<longleftrightarrow> u = t \<and> pending s = 1" for u
    using none by simp
  have "\<not> past_loop p" if "p \<in> set ((pcs s)[t := ?q])" for p
    using in_set_update [OF that] inv_stopD(6) [OF assms(2)] run by (auto split: if_splits)
  then show ?thesis
    by (intro inv_stopI; unfold eq goto_simps) (use run pos in simp_all)
qed

lemma stop_stop_all:
  assumes "inv_stop s" "at_pc t Stop_All s"
  shows "inv_stop (goto t Broadcast (s\<lparr>running := False\<rparr>))"
proof -
  have "at_pc t Stop_All (s\<lparr>running := False\<rparr>)" using assms(2) by simp
  from at_Stop_All_goto [OF this]
  have eq: "\<not> at_pc u Stop_All (goto t Broadcast (s\<lparr>running := False\<rparr>))" for u
    using inv_stopD(5) [OF assms(1,2)] by auto
  show ?thesis
    by (intro inv_stopI) (use eq inv_stopD(4) [OF assms] in simp_all)
qed

lemma stop_pending:
  assumes "inv_stop s" "running s" "\<And>u. \<not> at_pc u Stop_All s" "k \<noteq> 0"
  shows "inv_stop (s\<lparr>pending := k\<rparr>)"
proof (rule inv_stopI)
  show "p \<in> set (pcs (s\<lparr>pending := k\<rparr>)) \<Longrightarrow> past_loop p \<Longrightarrow> \<not> running (s\<lparr>pending := k\<rparr>)" for p
    using inv_stopD(6) [OF assms(1), of p] by simp
qed (use assms(2-4) in simp_all)

lemma step_stop: "step s s' \<Longrightarrow> inv_count s \<Longrightarrow> inv_stop s \<Longrightarrow> inv_stop s'"
proof (induction rule: step.induct)
  case (notify_one t d bs s u)
  have "inv_stop (goto u Acquire s)" by (rule stop_frame [OF notify_one(4,2)]) simp_all
  then show ?case by (rule stop_frame) (rule other_at [OF notify_one(1,2)], simp_all)
next
  case (fetch_add t d b bs s)
  have "inv_stop (s\<lparr>pending := pending s + int (length b)\<rparr>)"
    using in_work_running [OF fetch_add(2,3,1)] in_work_pending [OF fetch_add(2,1)]
    by (intro stop_pending fetch_add(3)) simp_all
  then show ?case by (rule stop_frame [where p = "Scan d (b # bs)"]) (use fetch_add(1) in simp_all)
next
  case (fetch_sub t d s)
  then have "inv_stop (goto t (if pending s = 1 then Stop_All else Top) (s\<lparr>pending := pending s - 1\<rparr>))"
    by (intro stop_fetch_sub)
  then show ?case by (simp only: goto_update stop_update)
next
  case (stop_all t s)
  then show ?case by (intro stop_stop_all)
next
  case (broadcast t s)
  then show ?case using past_loop_stopped [OF broadcast(3,1)]
    by (intro stop_frame [OF stop_woken [OF broadcast(3)] woken_at [OF broadcast(1)]]) simp_all
next
  case (destroy s)
  then have not: "\<not> running s" by (intro past_loop_stopped [OF destroy(3,1)]) simp
  have "inv_stop (goto 0 Destroy_Notify s)" using not by (intro stop_frame [OF destroy(3,1)]) simp_all
  moreover have "goto 0 Destroy_Notify (s\<lparr>running := False\<rparr>) = goto 0 Destroy_Notify s"
    using not by (simp add: goto_def)
  ultimately show ?case by simp
next
  case (destroy_notify s)
  then show ?case using past_loop_stopped [OF destroy_notify(3,1)]
    by (intro stop_frame [OF stop_woken [OF destroy_notify(3)] woken_at [OF destroy_notify(1)]]) simp_all
next
  case (flush t s)
  then show ?case using past_loop_stopped [OF flush(3,1)] by (intro stop_frame [OF flush(3,1)]) simp_all
next
  case (join s)
  then show ?case using past_loop_stopped [OF join(4,1)] by (intro stop_frame [OF join(4,1)]) simp_all
qed ((simp only: goto_update stop_update)?, rule stop_frame, assumption, assumption, simp, simp, simp)+

subsection \<open>The queue\<close>

lemma active_simps [simp]:
  "active Top" "active Acquire" "active Check" "active Decide" "active (Scan d bs)" "active (Publish d b bs)"
  "active (Notify d bs)" "active (Closing d)" "\<not> active Enter_Wait" "\<not> active Sleeping" "\<not> active Stop_All"
  "\<not> active Broadcast" "\<not> active Flushing" "\<not> active Destroy" "\<not> active Destroy_Notify" "\<not> active Join" "\<not> active Done"
  by (simp_all add: active_def)

lemma inv_queueD:
  assumes "inv_queue s"
  shows "at_pc t Decide s \<Longrightarrow> running s \<Longrightarrow> queue s \<noteq> []" "queue s \<noteq> [] \<Longrightarrow> \<exists>t p. at_pc t p s \<and> active p"
  using assms unfolding inv_queue_def by blast+

lemma inv_queueI:
  assumes "\<And>t. at_pc t Decide s \<Longrightarrow> running s \<Longrightarrow> queue s \<noteq> []" "queue s \<noteq> [] \<Longrightarrow> \<exists>t p. at_pc t p s \<and> active p"
  shows "inv_queue s"
  using assms unfolding inv_queue_def by blast

lemma goto_at [simp]: "at_pc t p s \<Longrightarrow> at_pc t q (goto t q s)"
  by (simp add: at_pc_def)

lemma at_other_goto: "u \<noteq> t \<Longrightarrow> at_pc u p (goto t q s) \<longleftrightarrow> at_pc u p s"
  by (simp add: at_pc_def)

lemma at_pc_unique: "at_pc t p s \<Longrightarrow> at_pc t q s \<Longrightarrow> p = q"
  by (simp add: at_pc_def)

lemma queue_frame:
  assumes "inv_queue s" "at_pc t p s" "q = Decide \<Longrightarrow> running s \<Longrightarrow> queue s \<noteq> []"
    "active q \<or> \<not> active p \<or> queue s = []"
  shows "inv_queue (goto t q s)"
proof (rule inv_queueI)
  fix u assume u: "at_pc u Decide (goto t q s)" "running (goto t q s)"
  show "queue (goto t q s) \<noteq> []"
  proof (cases "u = t")
    case True
    then have "q = Decide" using u(1) goto_at [OF assms(2), of q] at_pc_unique by blast
    then show ?thesis using assms(3) u(2) by simp
  next
    case False
    then show ?thesis using u inv_queueD(1) [OF assms(1)] at_other_goto by simp
  qed
next
  assume ne: "queue (goto t q s) \<noteq> []"
  show "\<exists>t' p. at_pc t' p (goto t q s) \<and> active p"
  proof (cases "active q")
    case True
    then show ?thesis using goto_at [OF assms(2)] by blast
  next
    case False
    then have p: "\<not> active p" using assms(4) ne by simp
    obtain u r where u: "at_pc u r s" "active r" using inv_queueD(2) [OF assms(1)] ne by auto
    then have "u \<noteq> t" using p assms(2) at_pc_unique by blast
    then show ?thesis using u at_other_goto by blast
  qed
qed

lemma queue_update [simp]:
  "inv_queue (s\<lparr>mutex := l\<rparr>) = inv_queue s" "inv_queue (s\<lparr>pending := k\<rparr>) = inv_queue s"
  "inv_queue (s\<lparr>processed := m\<rparr>) = inv_queue s"
  by (simp_all add: inv_queue_def)

lemma queue_stopped: "inv_queue s \<Longrightarrow> inv_queue (s\<lparr>running := False\<rparr>)"
  by (simp add: inv_queue_def)

lemma queue_woken:
  assumes "inv_queue s"
  shows "inv_queue (s\<lparr>pcs := map wake (pcs s)\<rparr>)"
proof (rule inv_queueI)
  fix t assume "at_pc t Decide (s\<lparr>pcs := map wake (pcs s)\<rparr>)" "running (s\<lparr>pcs := map wake (pcs s)\<rparr>)"
  then have "at_pc t Decide s" "running s" by (auto simp: at_pc_def wake_def split: if_splits)
  then show "queue (s\<lparr>pcs := map wake (pcs s)\<rparr>) \<noteq> []" using inv_queueD(1) [OF assms] by simp
next
  assume "queue (s\<lparr>pcs := map wake (pcs s)\<rparr>) \<noteq> []"
  then obtain t p where "at_pc t p s" "active p" using inv_queueD(2) [OF assms] by auto
  then have "at_pc t p (s\<lparr>pcs := map wake (pcs s)\<rparr>)" by (intro woken_at) auto
  with \<open>active p\<close> show "\<exists>t p. at_pc t p (s\<lparr>pcs := map wake (pcs s)\<rparr>) \<and> active p" by blast
qed

lemma stopped_queue: "inv_count s \<Longrightarrow> inv_stop s \<Longrightarrow> \<not> running s \<Longrightarrow> queue s = []"
  using inv_stopD(1) [of s] sum_counted_nonneg [of "pcs s"] unfolding inv_count_def by (cases "queue s") auto

lemma last_one_queue:
  assumes "inv_count s" "at_pc t (Closing d) s" "pending s = 1"
  shows "queue s = []"
  using counted_le [OF assms(2)] assms(1,3) by (cases "queue s") (simp_all add: inv_count_def)

lemma queue_pop:
  assumes "inv_mutex s" "at_pc t Decide s"
  shows "inv_queue (goto t (Scan d bs) (s\<lparr>queue := q, mutex := None\<rparr>))"
proof (rule inv_queueI)
  let ?s = "goto t (Scan d bs) (s\<lparr>queue := q, mutex := None\<rparr>)"
  have t: "at_pc t (Scan d bs) ?s" using assms(2) by (simp add: at_pc_def)
  then show "\<exists>t p. at_pc t p ?s \<and> active p" using active_simps(5) by blast
  fix u assume u: "at_pc u Decide ?s"
  then have "u \<noteq> t" using t at_pc_unique by blast
  then have "at_pc u Decide s" using u by (simp add: at_pc_def)
  then have "mutex s = Some u" "mutex s = Some t"
    using mutex_holder(1) [OF assms(1)] assms(2) holds_mutex_simps(3) by blast+
  then have "u = t" by simp
  with \<open>u \<noteq> t\<close> show "queue ?s \<noteq> []" by simp
qed

lemma queue_append:
  assumes "inv_queue s"
  shows "at_pc t p s \<Longrightarrow> active p \<Longrightarrow> inv_queue (s\<lparr>queue := queue s @ b\<rparr>)"
proof (rule inv_queueI)
  assume "at_pc t p s" "active p"
  then show "\<exists>t' p'. at_pc t' p' (s\<lparr>queue := queue s @ b\<rparr>) \<and> active p'" by auto
qed (use inv_queueD(1) [OF assms] in simp)

lemma step_queue:
  "step s s' \<Longrightarrow> inv_count s \<Longrightarrow> inv_mutex s \<Longrightarrow> inv_stop s \<Longrightarrow> inv_queue s \<Longrightarrow> inv_queue s'"
proof (induction rule: step.induct)
  case (leave t s)
  then show ?case using stopped_queue [of s] by (intro queue_frame [OF leave(6,1)]) simp_all
next
  case (pred_true t s)
  then show ?case by (intro queue_frame [OF pred_true(6,1)]) auto
next
  case (stop t s)
  have "inv_queue (goto t Flushing s)" using stopped_queue [OF stop(3,5,2)] by (intro queue_frame [OF stop(6,1)]) simp_all
  then show ?case by (simp only: goto_update queue_update)
next
  case (pop t s d q)
  then show ?case by (intro queue_pop)
next
  case (append t d b bs s)
  have "inv_queue (s\<lparr>queue := queue s @ b\<rparr>)" by (rule queue_append [OF append(6,1)]) simp
  then show ?case by (rule queue_frame [where p = "Publish d b bs"]) (use append(1) in simp_all)
next
  case (notify_one t d bs s u)
  have "inv_queue (goto u Acquire s)" by (rule queue_frame [OF notify_one(6,2)]) simp_all
  then show ?case by (rule queue_frame [OF _ other_at [OF notify_one(1,2)]]) simp_all
next
  case (fetch_sub t d s)
  have "inv_queue (goto t (if pending s = 1 then Stop_All else Top) s)"
    using last_one_queue [OF fetch_sub(2,1)] by (intro queue_frame [OF fetch_sub(5,1)]) (auto split: if_splits)
  then show ?case by (simp only: goto_update queue_update)
next
  case (stop_all t s)
  have "inv_queue (s\<lparr>running := False\<rparr>)" by (rule queue_stopped [OF stop_all(5)])
  then show ?case by (rule queue_frame [where p = Stop_All]) (use stop_all(1) in simp_all)
next
  case (broadcast t s)
  then show ?case by (intro queue_frame [OF queue_woken [OF broadcast(5)] woken_at [OF broadcast(1)]]) simp_all
next
  case (flush t s)
  then show ?case by (intro queue_frame [OF flush(5,1)]) (auto split: if_splits)
next
  case (destroy s)
  have "inv_queue (s\<lparr>running := False\<rparr>)" by (rule queue_stopped [OF destroy(5)])
  then show ?case by (rule queue_frame [where p = Destroy]) (use destroy(1) in simp_all)
next
  case (destroy_notify s)
  then show ?case by (intro queue_frame [OF queue_woken [OF destroy_notify(5)] woken_at [OF destroy_notify(1)]]) simp_all
qed ((simp only: goto_update queue_update)?, rule queue_frame, assumption, assumption, simp, simp)+

section \<open>The invariant holds\<close>

lemma invariant_step: "step s s' \<Longrightarrow> invariant root s \<Longrightarrow> invariant root s'"
  using step_count step_dirs step_mutex step_stop step_queue unfolding invariant_def by blast

lemma invariant_spurious:
  assumes "spurious s s'" "invariant root s"
  shows "invariant root s'"
  using assms(1)
proof cases
  case (1 t)
  then have t: "t < length (pcs s)" "pcs s ! t = Sleeping" by (simp_all add: at_pc_def)
  have "inv_count s'" "inv_dirs root s'"
    using assms(2) t by (simp_all add: 1 invariant_def inv_count_def inv_dirs_def counted_update held_by_update)
  moreover have "inv_mutex s'" using assms(2) 1 by (auto simp: invariant_def intro: mutex_same)
  moreover have "inv_stop s'" unfolding 1 using assms(2) 1(2)
    by (intro stop_frame [where p = Sleeping]) (simp_all add: invariant_def)
  moreover have "inv_queue s'" unfolding 1 using assms(2) 1(2)
    by (intro queue_frame [where p = Sleeping]) (simp_all add: invariant_def)
  ultimately show ?thesis by (simp add: invariant_def)
qed

lemma sum_replicate_zero: "sum_list (replicate n 0) = (0 :: 'a :: comm_monoid_add)"
  by (induction n) simp_all

lemma invariant_start:
  assumes "0 < n"
  shows "invariant root (start n root)"
proof -
  have at: "at_pc t p (start n root) \<longleftrightarrow> t < n \<and> p = Top" for t p
    by (auto simp: at_pc_def start_def)
  have "inv_count (start n root)" "inv_dirs root (start n root)"
    by (simp_all add: inv_count_def inv_dirs_def start_def sum_replicate_zero)
  moreover have "inv_mutex (start n root)" by (simp add: inv_mutex_def start_def)
  moreover have "inv_stop (start n root)"
    by (rule inv_stopI) (simp_all add: at, simp_all add: start_def)
  moreover have "inv_queue (start n root)"
    by (rule inv_queueI) (use assms in \<open>auto simp: at\<close>)
  ultimately show ?thesis by (simp add: invariant_def)
qed

lemma reachable_invariant: "reachable n root s \<Longrightarrow> 0 < n \<Longrightarrow> invariant root s"
  by (induction rule: reachable.induct) (auto intro: invariant_start invariant_step invariant_spurious)

text \<open>Once \<^verbatim>\<open>running_\<close> is false, everything has been worked through.\<close>

lemma stopped_all_processed:
  assumes "invariant root s" "\<not> running s"
  shows "queue s = []" "processed s = all_dirs root" "pending s = 0"
proof -
  have inv: "inv_count s" "inv_stop s" "inv_dirs root s" using assms(1) by (simp_all add: invariant_def)
  show q: "queue s = []" by (rule stopped_queue [OF inv(1,2) assms(2)])
  show p: "pending s = 0" by (rule inv_stopD(1) [OF inv(2) assms(2)])
  have zero: "sum_list (map counted (pcs s)) = 0" using inv(1) q p by (simp add: inv_count_def)
  have "counted p = 0" if mem: "p \<in> set (pcs s)" for p
  proof -
    obtain t where "at_pc t p s" using mem unfolding at_pc_def in_set_conv_nth by blast
    then show ?thesis using counted_le [of t p s] zero counted_nonneg [of p] by linarith
  qed
  then have "held_by p = {#}" if "p \<in> set (pcs s)" for p
    using that by (cases p) force+
  then have "map held_by (pcs s) = map (\<lambda>p. {#}) (pcs s)" by simp
  then have "sum_list (map held_by (pcs s)) = {#}" by (simp only: sum_list_0)
  then show "processed s = all_dirs root" using inv(3) q by (simp add: inv_dirs_def)
qed

section \<open>Every run ends\<close>

text \<open>
  What a run may still do. A directory pays for its own steps and for those of its batches,
  each of which may wake one thread; the two broadcasts are paid for by \<^verbatim>\<open>running_\<close> and by the
  main thread's way through the destructor.
\<close>

fun work :: "dir \<Rightarrow> nat" where
  "work (Dir fd bs) = 12 + sum_list (map (\<lambda>b. 8 + sum_list (map work b)) bs)"

definition work_of :: "dir list \<Rightarrow> nat" where
  "work_of ds = sum_list (map work ds)"

fun effort :: "nat \<Rightarrow> pc \<Rightarrow> nat" where
  "effort n Top = 7"
| "effort n Acquire = 6"
| "effort n Check = 5"
| "effort n Enter_Wait = 4"
| "effort n Decide = 4"
| "effort n Sleeping = 3"
| "effort n (Scan d bs) = 10 + 8 * length bs + work_of (concat bs)"
| "effort n (Publish d b bs) = 17 + 8 * length bs + work_of b + work_of (concat bs)"
| "effort n (Notify d bs) = 16 + 8 * length bs + work_of (concat bs)"
| "effort n (Closing d) = 9"
| "effort n Stop_All = 8"
| "effort n Broadcast = 8 + 3 * n"
| "effort n Flushing = 3"
| "effort n Destroy = 2"
| "effort n Destroy_Notify = 1"
| "effort n Join = 1"
| "effort n Done = 0"

definition before_destroyed :: "pc \<Rightarrow> bool" where
  "before_destroyed p \<longleftrightarrow> p \<noteq> Join \<and> p \<noteq> Done"

definition effort_left :: "proc \<Rightarrow> nat" where
  "effort_left s =
     work_of (queue s) + sum_list (map (effort (length (pcs s))) (pcs s)) +
     (if running s then 3 * length (pcs s) + 3 else 0) +
     (if pcs s \<noteq> [] \<and> before_destroyed (pcs s ! 0) then 3 * length (pcs s) + 2 else 0)"

lemma work_of_simps [simp]:
  "work_of [] = 0" "work_of (d # ds) = work d + work_of ds" "work_of (xs @ ys) = work_of xs + work_of ys"
  by (simp_all add: work_of_def)

lemma work_unfold: "work d = 12 + 8 * length (batches d) + work_of (concat (batches d))"
proof -
  have "sum_list (map (\<lambda>b. 8 + sum_list (map work b)) bs) = 8 * length bs + work_of (concat bs)" for bs
    by (induction bs) (simp_all add: work_of_def)
  then show ?thesis by (cases d) simp
qed

lemma effort_update:
  "t < length ps \<Longrightarrow> sum_list (map f (ps[t := q])) + f (ps ! t) = sum_list (map f ps) + (f q :: nat)"
  by (induction ps arbitrary: t) (auto split: nat.splits simp: nth_Cons)

lemma effort_goto:
  assumes "at_pc t p s" "t = 0 \<Longrightarrow> before_destroyed q = before_destroyed p"
  shows "effort_left (goto t q s) + effort (length (pcs s)) p = effort_left s + effort (length (pcs s)) q"
proof -
  have "(pcs s)[t := q] \<noteq> [] \<and> before_destroyed ((pcs s)[t := q] ! 0) \<longleftrightarrow> pcs s \<noteq> [] \<and> before_destroyed (pcs s ! 0)"
    using assms by (cases "t = 0") (auto simp: at_pc_def)
  then show ?thesis
    using assms(1) effort_update [of t "pcs s" "effort (length (pcs s))" q] by (auto simp: effort_left_def at_pc_def)
qed

lemma effort_record [simp]:
  "effort_left (s\<lparr>mutex := l\<rparr>) = effort_left s" "effort_left (s\<lparr>pending := k\<rparr>) = effort_left s"
  "effort_left (s\<lparr>processed := m\<rparr>) = effort_left s"
  by (simp_all add: effort_left_def)

lemma effort_queue: "effort_left (s\<lparr>queue := x\<rparr>) + work_of (queue s) = effort_left s + work_of x"
  by (simp add: effort_left_def)

lemma effort_stop: "running s \<Longrightarrow> effort_left (s\<lparr>running := False\<rparr>) + 3 * length (pcs s) + 3 = effort_left s"
  by (simp add: effort_left_def)

lemma effort_wake: "effort_left (s\<lparr>pcs := map wake (pcs s)\<rparr>) \<le> effort_left s + 3 * length (pcs s)"
proof -
  have sum: "sum_list (map (effort n \<circ> wake) ps) \<le> sum_list (map (effort n) ps) + 3 * length ps" for n ps
    by (induction ps) (auto simp: wake_def)
  have "before_destroyed (wake p) = before_destroyed p" for p
    by (simp add: wake_def before_destroyed_def)
  then have "(pcs s \<noteq> [] \<and> before_destroyed (map wake (pcs s) ! 0)) =
      (pcs s \<noteq> [] \<and> before_destroyed (pcs s ! 0))"
    by (cases "pcs s") simp_all
  then show ?thesis
    using sum [of "length (pcs s)" "pcs s"] by (simp add: effort_left_def)
qed

lemma before_destroyed_simps [simp]: "before_destroyed p \<longleftrightarrow> p \<noteq> Join \<and> p \<noteq> Done"
  by (rule before_destroyed_def)

lemma effort_destroyed:
  assumes "at_pc 0 p s" "p \<noteq> Join" "p \<noteq> Done"
  shows "effort_left (goto 0 Join s) + effort (length (pcs s)) p + 3 * length (pcs s) + 2 =
    effort_left s + effort (length (pcs s)) Join"
  using assms effort_update [of 0 "pcs s" "effort (length (pcs s))" Join]
  by (auto simp: effort_left_def at_pc_def)

text \<open>A step that moves one thread to a cheaper place, whatever else it does to mutex, counter and history.\<close>

lemma effort_goes:
  assumes "at_pc t p s" "effort (length (pcs s)) q < effort (length (pcs s)) p" "t = 0 \<Longrightarrow> before_destroyed q = before_destroyed p"
  shows "effort_left (goto t q s) < effort_left s"
  using effort_goto [OF assms(1,3)] assms(2) by simp

lemma effort_pop:
  assumes "at_pc t Decide s" "queue s = d # q"
  shows "effort_left (goto t (Scan d (batches d)) (s\<lparr>queue := q, mutex := None\<rparr>)) < effort_left s"
proof -
  have "effort_left (s\<lparr>queue := q, mutex := None\<rparr>) + work d = effort_left s"
    using effort_queue [where s = s and x = q] assms(2) by simp
  then show ?thesis
    using effort_goto [of t Decide "s\<lparr>queue := q, mutex := None\<rparr>" "Scan d (batches d)"] assms(1) by (simp add: work_unfold)
qed

lemma effort_append:
  assumes "at_pc t (Publish d b bs) s"
  shows "effort_left (goto t (Notify d bs) (s\<lparr>queue := queue s @ b\<rparr>)) < effort_left s"
  using assms effort_goto [of t "Publish d b bs" "s\<lparr>queue := queue s @ b\<rparr>" "Notify d bs"]
    effort_queue [where s = s and x = "queue s @ b"] by simp

lemma effort_notify:
  assumes "at_pc t (Notify d bs) s" "at_pc u Sleeping s"
  shows "effort_left (goto t (Scan d bs) (goto u Acquire s)) < effort_left s"
proof -
  have "at_pc t (Notify d bs) (goto u Acquire s)" by (rule other_at [OF assms]) simp
  then show ?thesis
    using effort_goto [of u Sleeping s Acquire] effort_goto [of t "Notify d bs" "goto u Acquire s" "Scan d bs"] assms(2) by simp
qed

lemma step_effort:
  assumes "step s s'" "invariant root s"
  shows "effort_left s' < effort_left s"
  using assms
proof (induction rule: step.induct)
  case (pop t s d q)
  then show ?case by (intro effort_pop)
next
  case (append t d b bs s)
  then show ?case by (intro effort_append)
next
  case (notify_one t d bs s u)
  then show ?case by (intro effort_notify)
next
  case (stop_all t s)
  have "running s" using stop_all inv_stopD(3) unfolding invariant_def by blast
  then show ?case
    using effort_goto [of t Stop_All "s\<lparr>running := False\<rparr>" Broadcast] effort_stop [of s] stop_all(1) by simp
next
  case (broadcast t s)
  have "at_pc t Broadcast (s\<lparr>pcs := map wake (pcs s)\<rparr>)" by (rule woken_at [OF broadcast(1)]) simp
  then show ?case
    using effort_goto [of t Broadcast "s\<lparr>pcs := map wake (pcs s)\<rparr>" Top] effort_wake [of s] by simp
next
  case (destroy s)
  have "\<not> running s" using destroy past_loop_stopped [of s 0 Destroy] by (simp add: invariant_def)
  then have "s\<lparr>running := False\<rparr> = s" by simp
  then show ?case using effort_goes [OF destroy(1), of Destroy_Notify] by simp
next
  case (destroy_notify s)
  have "at_pc 0 Destroy_Notify (s\<lparr>pcs := map wake (pcs s)\<rparr>)" by (rule woken_at [OF destroy_notify(1)]) simp
  from effort_destroyed [OF this] show ?case using effort_wake [of s] by simp
qed ((simp only: goto_update effort_record)?, erule effort_goes, simp, simp)+

lemma run_effort:
  assumes "run s k s'" "invariant root s"
  shows "invariant root s' \<and> effort_left s' + k \<le> effort_left s"
  using assms
proof (induction rule: run.induct)
  case (more s k s' s'')
  then show ?case using step_effort [of s' s''] invariant_step [of s' s''] by fastforce
qed simp

lemma effort_start: "0 < n \<Longrightarrow> effort_left (start n root) = work root + 13 * n + 5"
  by (simp add: effort_left_def start_def sum_list_replicate)

section \<open>Where a run can stop\<close>

text \<open>Only the main thread runs the destructor.\<close>

definition in_destructor :: "pc \<Rightarrow> bool" where
  "in_destructor p \<longleftrightarrow> p = Destroy \<or> p = Destroy_Notify \<or> p = Join"

definition inv_main :: "proc \<Rightarrow> bool" where
  "inv_main s \<longleftrightarrow> (\<forall>t p. at_pc t p s \<longrightarrow> in_destructor p \<longrightarrow> t = 0)"

lemma in_destructor_simps [simp]:
  "in_destructor Destroy" "in_destructor Destroy_Notify" "in_destructor Join"
  "\<not> in_destructor Top" "\<not> in_destructor Acquire" "\<not> in_destructor Check" "\<not> in_destructor Enter_Wait"
  "\<not> in_destructor Sleeping" "\<not> in_destructor Decide" "\<not> in_destructor (Scan d bs)"
  "\<not> in_destructor (Publish d b bs)" "\<not> in_destructor (Notify d bs)" "\<not> in_destructor (Closing d)"
  "\<not> in_destructor Stop_All" "\<not> in_destructor Broadcast" "\<not> in_destructor Flushing" "\<not> in_destructor Done"
  "in_destructor (wake p) = in_destructor p"
  by (auto simp: in_destructor_def wake_def)

lemma main_frame: "inv_main s \<Longrightarrow> pcs s' = (pcs s)[t := q] \<Longrightarrow> in_destructor q \<longrightarrow> t = 0 \<Longrightarrow> inv_main s'"
  unfolding inv_main_def at_pc_def by (metis length_list_update nth_list_update_eq nth_list_update_neq)

lemma main_woken: "inv_main s \<Longrightarrow> inv_main (s\<lparr>pcs := map wake (pcs s)\<rparr>)"
  unfolding inv_main_def at_pc_def by auto

lemma main_goto: "inv_main s \<Longrightarrow> in_destructor q \<longrightarrow> t = 0 \<Longrightarrow> inv_main (goto t q s)"
  by (rule main_frame [where t = t and q = q]) simp_all

lemma main_record [simp]:
  "inv_main (s\<lparr>queue := x\<rparr>) = inv_main s" "inv_main (s\<lparr>running := r\<rparr>) = inv_main s"
  "inv_main (s\<lparr>pending := k\<rparr>) = inv_main s" "inv_main (s\<lparr>processed := m\<rparr>) = inv_main s"
  "inv_main (s\<lparr>mutex := l\<rparr>) = inv_main s"
  by (simp_all add: inv_main_def)

lemma step_main: "step s s' \<Longrightarrow> inv_main s \<Longrightarrow> inv_main s'"
  by (induction rule: step.induct) (auto intro!: main_goto main_woken)

lemma reachable_main: "reachable n root s \<Longrightarrow> inv_main s"
proof (induction rule: reachable.induct)
  case init
  then show ?case by (auto simp: inv_main_def at_pc_def start_def)
next
  case (spurious s s')
  from spurious(2,3) show ?case by (cases rule: spurious.cases) (auto intro: main_goto)
qed (rule step_main)

lemma reachable_threads: "reachable n root s \<Longrightarrow> length (pcs s) = n"
proof (induction rule: reachable.induct)
  case (step s s')
  from step(2,3) show ?case by (cases rule: step.cases) auto
next
  case (spurious s s')
  from spurious(2,3) show ?case by (cases rule: spurious.cases) auto
qed (simp add: start_def)

text \<open>Everywhere but in front of a mutex that is held, asleep, joining or at the end, a thread can go on.\<close>

lemma holder_can_step:
  assumes "inv_queue s" "at_pc t p s" "holds_mutex p"
  shows "\<exists>s'. step s s'"
proof -
  consider "p = Check" | "p = Enter_Wait" | "p = Decide" using assms(3) unfolding holds_mutex_def by blast
  then show ?thesis
  proof cases
    case 1
    then show ?thesis using assms(2) step.pred_true step.pred_false by blast
  next
    case 2
    then show ?thesis using assms(2) step.sleep by blast
  next
    case 3
    then show ?thesis
      using assms(2) inv_queueD(1) [OF assms(1), of t] step.stop step.pop by (metis neq_Nil_conv)
  qed
qed

lemma thread_can_step:
  assumes "mutex s = None" "inv_main s" "at_pc t p s" "\<not> holds_mutex p" "p \<noteq> Sleeping" "p \<noteq> Join" "p \<noteq> Done"
  shows "\<exists>s'. step s s'"
proof (cases p)
  case Top
  then show ?thesis using assms(3) step.loop step.leave by blast
next
  case (Scan d bs)
  then show ?thesis using assms(3) step.fetch_add step.exhausted by (cases bs) blast+
next
  case (Notify d bs)
  show ?thesis
  proof (cases "Sleeping \<in> set (pcs s)")
    case True
    then obtain u where "at_pc u Sleeping s" unfolding at_pc_def in_set_conv_nth by blast
    then show ?thesis using assms(3) Notify step.notify_one by blast
  qed (use assms(3) Notify step.notify_none in blast)
next
  case Destroy
  then have "t = 0" using assms(2,3) in_destructor_simps(1) unfolding inv_main_def by blast
  then show ?thesis using assms(3) Destroy step.destroy by blast
next
  case Destroy_Notify
  then have "t = 0" using assms(2,3) in_destructor_simps(2) unfolding inv_main_def by blast
  then show ?thesis using assms(3) Destroy_Notify step.destroy_notify by blast
next
  case Acquire
  show ?thesis using step.lock [of t] assms(1,3) unfolding Acquire by blast
next
  case (Publish d b bs)
  show ?thesis using step.append assms(1,3) unfolding Publish by blast
next
  case (Closing d)
  show ?thesis using step.fetch_sub assms(1,3) unfolding Closing by blast
next
  case Stop_All
  show ?thesis using step.stop_all assms(1,3) unfolding Stop_All by blast
next
  case Broadcast
  show ?thesis using step.broadcast assms(1,3) unfolding Broadcast by blast
next
  case Flushing
  show ?thesis using step.flush assms(1,3) unfolding Flushing by blast
qed (use assms in simp_all)

lemma stuck_threads:
  assumes "invariant root s" "inv_main s" "stuck s" "at_pc t p s"
  shows "p = Sleeping \<or> p = Join \<or> p = Done"
proof -
  have inv: "inv_mutex s" "inv_queue s" using assms(1) by (simp_all add: invariant_def)
  have no: "\<not> (\<exists>s'. step s s')" using assms(3) by (simp add: stuck_def)
  have "\<not> holds_mutex q" if "at_pc u q s" for u q using holder_can_step [OF inv(2) that] no by blast
  then have nobody: "\<not> holds_mutex p" "\<And>u. u < length (pcs s) \<Longrightarrow> \<not> holds_mutex (pcs s ! u)"
    using assms(4) by (auto simp: at_pc_def)
  then have "mutex s = None" using inv(1) unfolding inv_mutex_def by (cases "mutex s") blast+
  with nobody(1) show ?thesis using thread_can_step [OF _ assms(2,4)] no by blast
qed

lemma stuck_stopped:
  assumes "reachable n root s" "0 < n" "stuck s"
  shows "\<not> running s"
proof
  assume run: "running s"
  have inv: "invariant root s" by (rule reachable_invariant [OF assms(1,2)])
  then have stop: "inv_stop s" and count: "inv_count s" and queue: "inv_queue s" by (simp_all add: invariant_def)
  have asleep: "p = Sleeping" if "at_pc t p s" for t p
  proof -
    have "p = Sleeping \<or> p = Join \<or> p = Done"
      by (rule stuck_threads [OF inv reachable_main [OF assms(1)] assms(3) that])
    moreover have "\<not> past_loop p" using past_loop_stopped [OF stop that] run by blast
    ultimately show ?thesis by auto
  qed
  have empty: "queue s = []" using inv_queueD(2) [OF queue] asleep active_simps(10) by blast
  have "pcs s = replicate (length (pcs s)) Sleeping"
    using asleep by (intro replicate_eqI) (auto simp: at_pc_def in_set_conv_nth)
  then have "map counted (pcs s) = replicate (length (pcs s)) 0" by (metis counted.simps(9) map_replicate)
  then have "pending s = 0" using count empty by (simp add: inv_count_def sum_replicate_zero)
  then obtain t where "at_pc t Stop_All s" using inv_stopD(2) [OF stop run] by blast
  then show False using asleep by blast
qed

section \<open>Playing a schedule\<close>

text \<open>
  The step relation as a function of the thread that moves; a notification goes to the first
  sleeping thread. Schedules give concrete runs.
\<close>

definition sleeper :: "proc \<Rightarrow> nat" where
  "sleeper s = length (takeWhile (\<lambda>p. p \<noteq> Sleeping) (pcs s))"

definition turn :: "nat \<Rightarrow> proc \<Rightarrow> proc option" where
  "turn t s = (if length (pcs s) \<le> t then None else
     case pcs s ! t of
       Top \<Rightarrow> Some (goto t (if running s then Acquire else Flushing) s)
     | Acquire \<Rightarrow> if mutex s = None then Some (goto t Check (s\<lparr>mutex := Some t\<rparr>)) else None
     | Check \<Rightarrow> Some (goto t (if queue s \<noteq> [] \<or> \<not> running s then Decide else Enter_Wait) s)
     | Enter_Wait \<Rightarrow> Some (goto t Sleeping (s\<lparr>mutex := None\<rparr>))
     | Sleeping \<Rightarrow> None
     | Decide \<Rightarrow>
         if \<not> running s then Some (goto t Flushing (s\<lparr>mutex := None\<rparr>))
         else (case queue s of [] \<Rightarrow> None
               | d # q \<Rightarrow> Some (goto t (Scan d (batches d)) (s\<lparr>queue := q, mutex := None\<rparr>)))
     | Scan d [] \<Rightarrow> Some (goto t (Closing d) s)
     | Scan d (b # bs) \<Rightarrow> Some (goto t (Publish d b bs) (s\<lparr>pending := pending s + int (length b)\<rparr>))
     | Publish d b bs \<Rightarrow>
         if mutex s = None then Some (goto t (Notify d bs) (s\<lparr>queue := queue s @ b\<rparr>)) else None
     | Notify d bs \<Rightarrow>
         if Sleeping \<in> set (pcs s) then Some (goto t (Scan d bs) (goto (sleeper s) Acquire s))
         else Some (goto t (Scan d bs) s)
     | Closing d \<Rightarrow> Some (goto t (if pending s = 1 then Stop_All else Top)
         (s\<lparr>pending := pending s - 1, processed := processed s + {#d#}\<rparr>))
     | Stop_All \<Rightarrow> Some (goto t Broadcast (s\<lparr>running := False\<rparr>))
     | Broadcast \<Rightarrow> Some (goto t Top (s\<lparr>pcs := map wake (pcs s)\<rparr>))
     | Flushing \<Rightarrow> Some (goto t (if t = 0 then Destroy else Done) s)
     | Destroy \<Rightarrow> if t = 0 then Some (goto 0 Destroy_Notify (s\<lparr>running := False\<rparr>)) else None
     | Destroy_Notify \<Rightarrow> if t = 0 then Some (goto 0 Join (s\<lparr>pcs := map wake (pcs s)\<rparr>)) else None
     | Join \<Rightarrow> if t = 0 \<and> list_all (\<lambda>p. p = Done) (tl (pcs s)) then Some (goto 0 Done s) else None
     | Done \<Rightarrow> None)"

fun play :: "nat list \<Rightarrow> proc \<Rightarrow> proc option" where
  "play [] s = Some s"
| "play (t # ts) s = Option.bind (turn t s) (play ts)"

lemma sleeper_at: "Sleeping \<in> set (pcs s) \<Longrightarrow> at_pc (sleeper s) Sleeping s"
proof -
  have "Sleeping \<in> set ps \<Longrightarrow> (let i = length (takeWhile (\<lambda>p. p \<noteq> Sleeping) ps) in i < length ps \<and> ps ! i = Sleeping)" for ps
    by (induction ps) (auto simp: Let_def)
  then show "Sleeping \<in> set (pcs s) \<Longrightarrow> at_pc (sleeper s) Sleeping s"
    by (simp add: at_pc_def sleeper_def Let_def)
qed

lemma others_done: "list_all (\<lambda>p. p = Done) (tl ps) \<longleftrightarrow> (\<forall>t < length ps. t \<noteq> 0 \<longrightarrow> ps ! t = Done)"
  by (cases ps) (auto simp: list_all_length nth_Cons split: nat.splits)

lemma turn_step:
  assumes "turn t s = Some s'"
  shows "step s s'"
proof -
  obtain p where p: "at_pc t p s" using assms by (auto simp: at_pc_def turn_def split: if_splits)
  note turn = assms [unfolded turn_def]
  show ?thesis
  proof (cases p)
    case (Scan d bs)
    then show ?thesis using p turn by (cases bs) (auto simp: at_pc_def intro!: step.intros)
  next
    case (Notify d bs)
    then show ?thesis
      using p turn sleeper_at step.notify_one [of t d bs s "sleeper s"] step.notify_none [of t d bs s]
      by (auto simp: at_pc_def split: if_splits)
  next
    case (Closing d)
    have "s' = goto t (if pending s = 1 then Stop_All else Top)
        (s\<lparr>pending := pending s - 1, processed := processed s + {#d#}\<rparr>)"
      using p turn unfolding Closing by (simp add: at_pc_def split: if_splits)
    then show ?thesis using step.fetch_sub [OF p [unfolded Closing]] by simp
  next
    case Flushing
    have "s' = goto t (if t = 0 then Destroy else Done) s"
      using p turn unfolding Flushing by (simp add: at_pc_def split: if_splits)
    then show ?thesis using step.flush [OF p [unfolded Flushing]] by simp
  next
    case Join
    then show ?thesis using p turn by (auto simp: at_pc_def others_done split: if_splits intro!: step.join)
  qed (use p turn step.intros in \<open>auto simp: at_pc_def split: if_splits list.splits\<close>)
qed

lemma can_turn: "at_pc t p s \<Longrightarrow> turn t s \<noteq> None \<Longrightarrow> \<exists>t < length (pcs s). turn t s \<noteq> None"
  by (auto simp: at_pc_def)

lemma step_turn: "step s s' \<Longrightarrow> \<exists>t < length (pcs s). turn t s \<noteq> None"
  by (induction rule: step.induct)
    (rule can_turn, assumption, simp add: turn_def at_pc_def others_done)+

lemma stuck_if_no_turn:
  assumes "\<forall>t < length (pcs s). turn t s = None"
  shows "stuck s"
  unfolding stuck_def
proof (intro allI notI)
  fix s' assume "step s s'"
  from step_turn [OF this] obtain t where "t < length (pcs s)" "turn t s \<noteq> None" by blast
  with assms show False by simp
qed

lemma run_first: "run s' k s'' \<Longrightarrow> step s s' \<Longrightarrow> run s (Suc k) s''"
  by (induction rule: run.induct) (auto intro: run.intros)

lemma play_run: "play ts s = Some s' \<Longrightarrow> run s (length ts) s'"
  by (induction ts arbitrary: s) (auto intro: run.none run_first turn_step simp: bind_eq_Some_conv)

lemma run_reachable: "run s k s' \<Longrightarrow> reachable n root s \<Longrightarrow> reachable n root s'"
  by (induction rule: run.induct) (auto intro: reachable.step)

lemma play_reachable: "play ts (start n root) = Some s \<Longrightarrow> reachable n root s"
  using run_reachable [OF play_run reachable.init] .

text \<open>A single thread never waits: while it checks the queue, everything pending is in the queue.\<close>

lemma alone:
  assumes "reachable n root s" "n = 1" "at_pc t p s"
  shows "p \<noteq> Enter_Wait" "p \<noteq> Sleeping"
proof -
  have "pcs s \<noteq> [Enter_Wait] \<and> pcs s \<noteq> [Sleeping]"
    using assms(1)
  proof (induction rule: reachable.induct)
    case init
    then show ?case using assms(2) by (simp add: start_def)
  next
    case (step s s')
    have one: "length (pcs s) = 1" using reachable_threads [OF step(1)] assms(2) by simp
    then obtain q where q: "pcs s = [q]" by (cases "pcs s") auto
    have inv: "invariant root s" using reachable_invariant [OF step(1)] assms(2) by simp
    have "\<not> (queue s = [] \<and> running s \<and> q = Check)"
    proof
      assume a: "queue s = [] \<and> running s \<and> q = Check"
      then have "pending s = 0" using inv q by (simp add: invariant_def inv_count_def)
      then obtain u where "at_pc u Stop_All s" using inv a inv_stopD(2) by (auto simp: invariant_def)
      then show False using a q by (auto simp: at_pc_def)
    qed
    with step(2,3) q show ?case by (cases rule: step.cases) (auto simp: at_pc_def)
  next
    case (spurious s s')
    from spurious(2,3) show ?case
    proof cases
      case (1 t)
      then have "length (pcs s) = 1" using reachable_threads [OF spurious(1)] assms(2) by simp
      then show ?thesis using 1 spurious(3) by (cases "pcs s") (auto simp: at_pc_def)
    qed
  qed
  moreover have "pcs s = [p]"
    using reachable_threads [OF assms(1)] assms(2,3) by (cases "pcs s") (auto simp: at_pc_def)
  ultimately show "p \<noteq> Enter_Wait" "p \<noteq> Sleeping" by auto
qed

lemma size_all_dirs: "1 \<le> size (all_dirs d)"
  by (cases d) simp

lemma size_all_of: "length ds \<le> size (all_of ds)"
proof (induction ds)
  case (Cons d ds)
  then show ?case using size_all_dirs [of d] by simp
qed simp

lemma counted_held: "counted p \<le> int (size (held_by p))"
proof (cases p)
  case (Publish d b bs)
  then show ?thesis using size_all_of [of b] by simp
qed simp_all

lemma sum_counted_held: "sum_list (map counted ps) \<le> int (size (sum_list (map held_by ps)))"
proof (induction ps)
  case (Cons p ps)
  then show ?case using counted_held [of p] by simp
qed simp

lemma pending_bounds:
  assumes "invariant root s"
  shows "0 \<le> pending s" "pending s \<le> int (size (all_dirs root))"
proof -
  have count: "pending s = int (length (queue s)) + sum_list (map counted (pcs s))"
    and dirs: "all_dirs root = processed s + all_of (queue s) + sum_list (map held_by (pcs s))"
    using assms by (simp_all add: invariant_def inv_count_def inv_dirs_def)
  show "0 \<le> pending s" using count by simp
  have "int (length (queue s)) \<le> int (size (all_of (queue s)))" using size_all_of by simp
  then show "pending s \<le> int (size (all_dirs root))"
    unfolding count dirs using sum_counted_held [of "pcs s"] by simp
qed

section \<open>Properties\<close>

definition small_tree :: dir where
  "small_tree = Dir 3 [[Dir 4 []], []]"

definition small_end :: proc where
  "small_end = \<lparr>queue = [], mutex = None, running = False, pending = 0, pcs = [Done],
     processed = {#Dir 4 [], small_tree#}\<rparr>"

text \<open>Two threads; thread 1 does all the work while thread 0 stands between its predicate and its sleep.\<close>

definition unlucky :: "nat list" where
  "unlucky = [1,1,1,1, 0,0,0, 1,1,1,1, 0, 1,1]"

definition unlucky_end :: proc where
  "unlucky_end = \<lparr>queue = [], mutex = None, running = False, pending = 0, pcs = [Sleeping, Done],
     processed = {#Dir 3 []#}\<rparr>"

lemmas play_simps = turn_def start_def goto_def wake_def sleeper_def eval_nat_numeral

lemma small_run: "play (replicate 25 0) (start 1 small_tree) = Some small_end"
  by (simp add: small_tree_def small_end_def play_simps)

lemma unlucky_run: "play unlucky (start 2 (Dir 3 [])) = Some unlucky_end"
  by (simp add: unlucky_def unlucky_end_def play_simps)

lemma small_reachable: "reachable 1 small_tree small_end"
  by (rule play_reachable [OF small_run])

lemma small_stuck: "stuck small_end"
  by (rule stuck_if_no_turn) (simp add: small_end_def turn_def)

text \<open>
  C7. Every directory of the tree is worked through exactly once: in every state the threads can reach,
  whatever their interleaving and with spurious wake-ups, once \<^verbatim>\<open>running_\<close> is false the directories
  that were closed are exactly those of the tree, each as often as it occurs there, the queue is
  empty and the counter is zero.
\<close>
theorem every_directory_processed_once:
  assumes "reachable n root s" "0 < n" "\<not> running s"
  shows "processed s = all_dirs root \<and> queue s = [] \<and> pending s = 0"
  using stopped_all_processed [OF reachable_invariant [OF assms(1,2)] assms(3)] by simp

theorem every_directory_processed_once_witness:
  "processed small_end = all_dirs small_tree \<and> queue small_end = [] \<and> pending small_end = 0"
  by (rule every_directory_processed_once [OF small_reachable]) (simp_all add: small_end_def)

text \<open>
  C24. The shared state stays in bounds: \<^verbatim>\<open>queue_.front()\<close> is only evaluated on a queue that is not empty,
  \<^verbatim>\<open>pending_\<close> is at least 1 when a thread subtracts 1 from it, so it never wraps below zero, and
  it never exceeds the number of directories of the tree.
\<close>
theorem shared_state_in_bounds:
  assumes "reachable n root s" "0 < n"
  shows "(at_pc t Decide s \<and> running s \<longrightarrow> queue s \<noteq> []) \<and> (at_pc t (Closing d) s \<longrightarrow> 1 \<le> pending s) \<and>
    0 \<le> pending s \<and> pending s \<le> int (size (all_dirs root))"
proof -
  have inv: "invariant root s" by (rule reachable_invariant [OF assms])
  then have "inv_queue s" "inv_count s" by (simp_all add: invariant_def)
  then show ?thesis
    using inv_queueD(1) [of s t] in_work_pending [of s t "Closing d"] pending_bounds [OF inv] by simp
qed

definition small_closing :: proc where
  "small_closing = the (play (replicate 11 0) (start 1 small_tree))"

lemma small_closing_run: "play (replicate 11 0) (start 1 small_tree) = Some small_closing"
  by (simp add: small_closing_def small_tree_def play_simps)

theorem shared_state_in_bounds_witness:
  "at_pc 0 (Closing small_tree) small_closing \<and> 1 \<le> pending small_closing \<and>
    pending small_closing \<le> int (size (all_dirs small_tree))"
proof -
  have "at_pc 0 (Closing small_tree) small_closing"
    using small_closing_run by (simp add: at_pc_def small_closing_def small_tree_def play_simps)
  then show ?thesis
    using shared_state_in_bounds [OF play_reachable [OF small_closing_run], of 0 small_tree] by simp
qed

text \<open>
  C23. Every run of the workers ends: without spurious wake-ups no interleaving of \<open>n\<close> threads takes more
  than \<^term>\<open>work root + 13 * n + 5\<close> steps, a number that is linear in the directories and the
  \<^verbatim>\<open>getdents64\<close> buffers of the tree.
\<close>
theorem workers_terminate:
  assumes "run (start n root) k s" "0 < n"
  shows "k \<le> work root + 13 * n + 5"
  using run_effort [OF assms(1) invariant_start [OF assms(2)]] effort_start [OF assms(2), of root] by simp

theorem workers_terminate_witness: "(25 :: nat) \<le> work small_tree + 13 * 1 + 5"
  using workers_terminate [OF play_run [OF small_run]] by simp

text \<open>
  C8. The workers never stop early: a reachable state in which no thread can take a step has all
  directories processed and the queue empty, and every thread is at its end, asleep, or (thread 0
  only) joining the others. With a single thread, it has run to its end.
\<close>
theorem workers_stop_when_finished:
  assumes "reachable n root s" "0 < n" "stuck s"
  shows "\<not> running s \<and> queue s = [] \<and> processed s = all_dirs root \<and>
    (\<forall>t p. at_pc t p s \<longrightarrow> p = Done \<or> p = Sleeping \<or> p = Join \<and> t = 0) \<and> (n = 1 \<longrightarrow> pcs s = [Done])"
proof -
  have inv: "invariant root s" and main: "inv_main s" and stopped: "\<not> running s"
    using reachable_invariant [OF assms(1,2)] reachable_main [OF assms(1)] stuck_stopped [OF assms] .
  have ends: "p = Done \<or> p = Sleeping \<or> p = Join \<and> t = 0" if "at_pc t p s" for t p
    using stuck_threads [OF inv main assms(3) that] main that in_destructor_simps(3) unfolding inv_main_def by blast
  have "pcs s = [Done]" if one: "n = 1"
  proof -
    obtain p where p: "pcs s = [p]" using reachable_threads [OF assms(1)] one by (cases "pcs s") auto
    then have at: "at_pc 0 p s" by (simp add: at_pc_def)
    have "p \<noteq> Join" using step.join [of s] assms(3) at p by (auto simp: stuck_def at_pc_def)
    then show ?thesis using ends [OF at] alone(2) [OF assms(1) one at] p by simp
  qed
  then show ?thesis using stopped stopped_all_processed [OF inv stopped] ends by blast
qed

theorem workers_stop_when_finished_witness:
  "\<not> running small_end \<and> queue small_end = [] \<and> processed small_end = all_dirs small_tree \<and> pcs small_end = [Done]"
  using workers_stop_when_finished [OF small_reachable _ small_stuck] by simp

text \<open>
  C25. The last wake-up can be lost. \<^verbatim>\<open>running_\<close> is cleared and \<^verbatim>\<open>notify_all\<close> is called without the
  mutex, so both can fall between the main thread's evaluation of the predicate and its going to
  sleep: with two threads and an empty directory, a schedule of 14 steps reaches a state where all
  work is done and the other thread has ended, and the main thread sleeps with nobody left to
  wake it.
\<close>
theorem last_wake_up_can_be_lost:
  "\<exists>s. reachable 2 (Dir 3 []) s \<and> stuck s \<and> \<not> running s \<and> pcs s = [Sleeping, Done]"
proof (intro exI conjI)
  show "reachable 2 (Dir 3 []) unlucky_end" by (rule play_reachable [OF unlucky_run])
  show "stuck unlucky_end"
    by (rule stuck_if_no_turn) (auto simp: unlucky_end_def turn_def less_Suc_eq)
qed (simp_all add: unlucky_end_def)

end
