(* ===== verification/Processor_Walk.thy ===== *)
theory Processor_Walk
  imports Processor
begin

section \<open>The workers as a walk over the tree\<close>

text \<open>
  What \<^verbatim>\<open>impl::Processor\<close> promises, without threads, mutex, condition variable and counter: a walk
  keeps the directories that wait, in the order in which they were found, those that are in work
  with the batches they have still to hand over, and those that are finished, and it is over when
  nothing waits and nothing is in work. Every step of the workers, whatever the interleaving, is
  one step of the walk or none.
\<close>

record walk =
  waiting :: "dir list"
  working :: "(dir \<times> dir list list) multiset"
  finished :: "dir multiset"
  over :: bool

definition walk_start :: "dir \<Rightarrow> walk" where
  "walk_start root = \<lparr>waiting = [root], working = {#}, finished = {#}, over = False\<rparr>"

inductive walk_step :: "walk \<Rightarrow> walk \<Rightarrow> bool" where
  take: "waiting w = d # ds \<Longrightarrow> \<not> over w \<Longrightarrow>
    walk_step w (w\<lparr>working := add_mset (d, batches d) (working w), waiting := ds\<rparr>)"
| hand_over: "working w = add_mset (d, b # bs) m \<Longrightarrow>
    walk_step w (w\<lparr>working := add_mset (d, bs) m, waiting := waiting w @ b\<rparr>)"
| complete: "working w = add_mset (d, []) m \<Longrightarrow>
    walk_step w (w\<lparr>working := m, finished := add_mset d (finished w)\<rparr>)"
| close: "waiting w = [] \<Longrightarrow> working w = {#} \<Longrightarrow> \<not> over w \<Longrightarrow> walk_step w (w\<lparr>over := True\<rparr>)"

inductive_cases walk_stepE: "walk_step w w'"

subsection \<open>Refinement maps\<close>

text \<open>
  A refinement map takes the states of a detailed machine to those of an abstract one, such that
  from states with the invariant every detailed step is an abstract step or leaves the abstract
  state as it is.
\<close>

locale refinement_map =
  fixes detailed :: "'c \<Rightarrow> 'c \<Rightarrow> bool" and good :: "'c \<Rightarrow> bool"
    and abstracted :: "'c \<Rightarrow> 'a" and abstract :: "'a \<Rightarrow> 'a \<Rightarrow> bool"
  assumes good_kept: "good s \<Longrightarrow> detailed s s' \<Longrightarrow> good s'"
    and simulated: "good s \<Longrightarrow> detailed s s' \<Longrightarrow> abstracted s' = abstracted s \<or> abstract (abstracted s) (abstracted s')"
begin

lemma runs_simulated: "detailed\<^sup>*\<^sup>* s s' \<Longrightarrow> good s \<Longrightarrow> good s' \<and> abstract\<^sup>*\<^sup>* (abstracted s) (abstracted s')"
proof (induction rule: rtranclp_induct)
  case (step s' s'')
  then have "good s'" "abstract\<^sup>*\<^sup>* (abstracted s) (abstracted s')" by simp_all
  then show ?case
    using good_kept simulated step.hyps(2) rtranclp.rtrancl_into_rtrancl by metis
qed simp

text \<open>What the abstract machine keeps holds of the abstraction of every detailed run.\<close>

lemma invariant_transfer:
  assumes "detailed\<^sup>*\<^sup>* s s'" "good s" "\<And>a a'. I a \<Longrightarrow> abstract a a' \<Longrightarrow> I a'" "I (abstracted s)"
  shows "I (abstracted s')"
proof -
  have "abstract\<^sup>*\<^sup>* (abstracted s) (abstracted s')" using runs_simulated [OF assms(1,2)] by blast
  then show ?thesis using assms(4) by (induction rule: rtranclp_induct) (auto intro: assms(3))
qed

end

subsection \<open>The map\<close>

fun underway :: "pc \<Rightarrow> (dir \<times> dir list list) multiset" where
  "underway (Scan d bs) = {#(d, bs)#}"
| "underway (Publish d b bs) = {#(d, b # bs)#}"
| "underway (Notify d bs) = {#(d, bs)#}"
| "underway (Closing d) = {#(d, [])#}"
| "underway _ = {#}"

definition walk_of :: "proc \<Rightarrow> walk" where
  "walk_of s = \<lparr>waiting = queue s, working = sum_list (map underway (pcs s)),
     finished = processed s, over = (\<not> running s)\<rparr>"

definition any_move :: "proc \<Rightarrow> proc \<Rightarrow> bool" where
  "any_move s s' \<longleftrightarrow> step s s' \<or> spurious s s'"

lemma underway_wake [simp]: "underway \<circ> wake = underway"
  by (auto simp: wake_def fun_eq_iff)

lemma underway_update:
  "t < length ps \<Longrightarrow> underway (ps ! t) = underway q \<Longrightarrow> sum_list (map underway (ps[t := q])) = sum_list (map underway ps)"
  by (metis (no_types) list_update_id map_update)

lemma goto_stutters:
  assumes "at_pc t p s" "underway p = underway q"
  shows "walk_of (goto t q s) = walk_of s"
  using assms underway_update [of t "pcs s" q] by (simp add: walk_of_def at_pc_def)

lemma walk_of_record [simp]:
  "walk_of (s\<lparr>mutex := l\<rparr>) = walk_of s" "walk_of (s\<lparr>pending := k\<rparr>) = walk_of s"
  "walk_of (s\<lparr>queue := x\<rparr>) = (walk_of s)\<lparr>waiting := x\<rparr>"
  "walk_of (s\<lparr>processed := m\<rparr>) = (walk_of s)\<lparr>finished := m\<rparr>"
  "walk_of (s\<lparr>running := r\<rparr>) = (walk_of s)\<lparr>over := \<not> r\<rparr>"
  "walk_of (s\<lparr>pcs := map wake (pcs s)\<rparr>) = walk_of s"
  by (simp_all add: walk_of_def)

lemma walk_of_simps [simp]:
  "waiting (walk_of s) = queue s" "finished (walk_of s) = processed s" "over (walk_of s) \<longleftrightarrow> \<not> running s"
  by (simp_all add: walk_of_def)

text \<open>A thread that changes what it has in work: the rest of the work stays.\<close>

lemma goto_works:
  assumes "at_pc t p s"
  obtains R where "working (walk_of s) = underway p + R"
    "\<And>q. walk_of (goto t q s) = (walk_of s)\<lparr>working := underway q + R\<rparr>"
proof -
  obtain R where R: "sum_list (map underway (pcs s)) = underway p + R"
    "\<forall>q. sum_list (map underway ((pcs s)[t := q])) = underway q + R"
    by (rule thread_sum [OF assms, of underway])
  show thesis by (rule that [of R]) (use R in \<open>simp_all add: walk_of_def\<close>)
qed

lemma nothing_in_work:
  assumes "inv_count s" "pending s = 0"
  shows "queue s = []" "working (walk_of s) = {#}"
proof -
  have sum: "int (length (queue s)) + sum_list (map counted (pcs s)) = 0" using assms by (simp add: inv_count_def)
  then have "int (length (queue s)) = 0" using sum_counted_nonneg [of "pcs s"] by linarith
  then show q: "queue s = []" by simp
  have "underway p = {#}" if mem: "p \<in> set (pcs s)" for p
  proof -
    obtain t where "at_pc t p s" using mem unfolding at_pc_def in_set_conv_nth by blast
    then have "counted p = 0" using counted_le [of t p s] sum q counted_nonneg [of p] by (simp add: antisym)
    then show ?thesis by (cases p) simp_all
  qed
  then have "map underway (pcs s) = map (\<lambda>p. {#}) (pcs s)" by simp
  then show "working (walk_of s) = {#}" by (simp only: walk_of_def sum_list_0 walk.simps)
qed

subsection \<open>Every step is simulated\<close>

lemma pop_simulated:
  assumes "at_pc t Decide s" "running s" "queue s = d # q"
  shows "walk_step (walk_of s) (walk_of (goto t (Scan d (batches d)) (s\<lparr>queue := q, mutex := None\<rparr>)))"
proof -
  obtain R where R: "working (walk_of s) = underway Decide + R"
    "\<And>q. walk_of (goto t q s) = (walk_of s)\<lparr>working := underway q + R\<rparr>"
    by (rule goto_works [OF assms(1)]) blast
  show ?thesis
    using walk_step.take [of "walk_of s" d q] assms(2,3) R by (simp add: goto_update)
qed

lemma append_simulated:
  assumes "at_pc t (Publish d b bs) s"
  shows "walk_step (walk_of s) (walk_of (goto t (Notify d bs) (s\<lparr>queue := queue s @ b\<rparr>)))"
proof -
  obtain R where R: "working (walk_of s) = underway (Publish d b bs) + R"
    "\<And>q. walk_of (goto t q s) = (walk_of s)\<lparr>working := underway q + R\<rparr>"
    by (rule goto_works [OF assms(1)]) blast
  show ?thesis
    using walk_step.hand_over [of "walk_of s" d b bs R] R by (simp add: goto_update)
qed

lemma fetch_sub_simulated:
  assumes "at_pc t (Closing d) s"
  shows "walk_step (walk_of s) (walk_of (goto t (if pending s = 1 then Stop_All else Top)
    (s\<lparr>pending := pending s - 1, processed := processed s + {#d#}\<rparr>)))"
proof -
  obtain R where R: "working (walk_of s) = underway (Closing d) + R"
    "\<And>q. walk_of (goto t q s) = (walk_of s)\<lparr>working := underway q + R\<rparr>"
    by (rule goto_works [OF assms(1)]) blast
  show ?thesis
    using walk_step.complete [of "walk_of s" d R] R by (simp add: goto_update)
qed

lemma stop_all_simulated:
  assumes "invariant root s" "at_pc t Stop_All s"
  shows "walk_step (walk_of s) (walk_of (goto t Broadcast (s\<lparr>running := False\<rparr>)))"
proof -
  have inv: "inv_count s" "inv_stop s" using assms(1) by (simp_all add: invariant_def)
  have "pending s = 0" "running s" using inv_stopD(3,4) [OF inv(2) assms(2)] by simp_all
  moreover have "walk_of (goto t Broadcast s) = walk_of s" by (rule goto_stutters [OF assms(2)]) simp
  ultimately show ?thesis
    using walk_step.close [of "walk_of s"] nothing_in_work [OF inv(1)] by (simp add: goto_update)
qed

lemma destroy_stutters:
  assumes "invariant root s" "at_pc 0 Destroy s"
  shows "walk_of (goto 0 Destroy_Notify (s\<lparr>running := False\<rparr>)) = walk_of s"
proof -
  have "\<not> running s" using assms past_loop_stopped [of s 0 Destroy] by (simp add: invariant_def)
  then have "s\<lparr>running := False\<rparr> = s" by simp
  then show ?thesis using goto_stutters [OF assms(2), of Destroy_Notify] by simp
qed

lemma step_simulated:
  assumes "step s s'" "invariant root s"
  shows "walk_of s' = walk_of s \<or> walk_step (walk_of s) (walk_of s')"
  using assms
proof (induction rule: step.induct)
  case (notify_one t d bs s u)
  have "at_pc t (Notify d bs) (goto u Acquire s)" by (rule other_at [OF notify_one(1,2)]) simp
  then show ?case using goto_stutters [of t _ "goto u Acquire s" "Scan d bs"] goto_stutters [OF notify_one(2), of Acquire] by simp
next
  case (broadcast t s)
  then show ?case using goto_stutters [OF woken_at [OF broadcast(1)], of Top] by simp
next
  case (destroy_notify s)
  then show ?case using goto_stutters [OF woken_at [OF destroy_notify(1)], of Join] by simp
qed (blast intro: pop_simulated append_simulated fetch_sub_simulated stop_all_simulated destroy_stutters
  | use goto_stutters in \<open>fastforce simp: goto_update\<close>)+

lemma spurious_stutters: "spurious s s' \<Longrightarrow> walk_of s' = walk_of s"
  by (induction rule: spurious.induct) (rule goto_stutters [where p = Sleeping], simp_all)

interpretation pool: refinement_map any_move "invariant root" walk_of walk_step for root
proof
  show "invariant root s \<Longrightarrow> any_move s s' \<Longrightarrow> invariant root s'" for s s'
    using invariant_step invariant_spurious unfolding any_move_def by blast
  show "invariant root s \<Longrightarrow> any_move s s' \<Longrightarrow> walk_of s' = walk_of s \<or> walk_step (walk_of s) (walk_of s')" for s s'
    using step_simulated spurious_stutters unfolding any_move_def by blast
qed

lemma reachable_any_move: "reachable n root s \<Longrightarrow> any_move\<^sup>*\<^sup>* (start n root) s"
  by (induction rule: reachable.induct) (auto simp: any_move_def intro: rtranclp.rtrancl_into_rtrancl)

lemma walk_of_start: "walk_of (start n root) = walk_start root"
  by (simp add: walk_of_def walk_start_def start_def sum_replicate_zero)

lemma walk_over: "waiting w = [] \<Longrightarrow> working w = {#} \<Longrightarrow> over w \<Longrightarrow> \<not> walk_step w w'"
  by (auto elim: walk_stepE)

section \<open>Properties\<close>

text \<open>
  C6. The workers refine the walk: from every state they can reach, each step of any thread, spurious
  wake-ups included, leaves the walk as it is or is one step of it (the front directory is taken,
  a batch is put behind those that wait, a directory is finished, or, when nothing waits and
  nothing is in work, the walk is over); the states reached are states of the walk from the root;
  and when no thread can go on, neither can the walk, which is over.
\<close>
theorem workers_refine_the_walk:
  assumes "reachable n root s" "0 < n"
  shows "walk_step\<^sup>*\<^sup>* (walk_start root) (walk_of s) \<and>
    (\<forall>s'. step s s' \<or> spurious s s' \<longrightarrow> walk_of s' = walk_of s \<or> walk_step (walk_of s) (walk_of s')) \<and>
    (stuck s \<longrightarrow> over (walk_of s) \<and> (\<forall>w. \<not> walk_step (walk_of s) w))"
proof (intro conjI impI allI)
  have inv: "invariant root s" by (rule reachable_invariant [OF assms])
  show "walk_step\<^sup>*\<^sup>* (walk_start root) (walk_of s)"
    using pool.runs_simulated [OF reachable_any_move [OF assms(1)] invariant_start [OF assms(2)]]
    by (simp add: walk_of_start)
  show "walk_of s' = walk_of s \<or> walk_step (walk_of s) (walk_of s')" if "step s s' \<or> spurious s s'" for s'
    using pool.simulated [OF inv] that by (simp add: any_move_def)
  assume "stuck s"
  then have stopped: "\<not> running s" by (rule stuck_stopped [OF assms])
  then show "over (walk_of s)" by simp
  show "\<not> walk_step (walk_of s) w" for w
    using walk_over [of "walk_of s"] stopped nothing_in_work [of s] stopped_all_processed [OF inv stopped] inv
    by (simp add: invariant_def)
qed

theorem workers_refine_the_walk_witness:
  "walk_step\<^sup>*\<^sup>* (walk_start small_tree) (walk_of small_end) \<and> over (walk_of small_end) \<and>
    finished (walk_of small_end) = {#Dir 4 [], small_tree#}"
  using workers_refine_the_walk [OF small_reachable] small_stuck by (simp add: small_end_def)

end
