(* ===== verification/Grep_Parallel.thy ===== *)
theory Grep_Parallel
  imports Grep_File Processor
begin

section \<open>What the workers print together\<close>

text \<open>
  The worker threads of \<^verbatim>\<open>commands/grep.h\<close> with their output: the state machine of \<open>Processor\<close> together with
  every worker's pipeline. While a worker has a \<^verbatim>\<open>getdents64\<close> buffer in work (\<open>Scan d (b # bs)\<close>) it runs the files
  of that buffer through its pipeline before it publishes the directories. \<open>chunks d i\<close> are
  the chunks its reads return for the files of the buffer \<open>i\<close> of the directory \<open>d\<close>, one file after the other. The
  scanner cuts a chunk into \<open>pieces\<close>, which go to the worker's own \<^verbatim>\<open>Batch\<close> one by one;
  what the batch hands on goes to \<^verbatim>\<open>Write\<close>, whose mutex is held during the whole call, so that one piece is one step.
  Steps of different workers interleave freely. A scan or a write that fails ends the program
  with an exception of its thread: such runs are not continued here. The output is what goes through \<^verbatim>\<open>Write\<close>; the lines
  \<^verbatim>\<open>starting thread\<close> that \<^verbatim>\<open>run\<close> prints through the buffer of \<^verbatim>\<open>stdout\<close> are not part of it.
\<close>

definition match_pieces :: "(bytes \<Rightarrow> int \<times> (nat \<times> nat) list) \<Rightarrow> bytes \<Rightarrow> bytes list" where
  "match_pieces hs_scan c = concat (map (\<lambda>m. [match_line c (snd m), [newline]]) (snd (hs_scan c)))"

definition block_pieces ::
  "(bytes \<Rightarrow> int \<times> (nat \<times> nat) list) \<Rightarrow> (dir \<Rightarrow> nat \<Rightarrow> bytes list) \<Rightarrow> dir \<times> nat \<Rightarrow> bytes list" where
  "block_pieces hs_scan chunks x = concat (map (match_pieces hs_scan) (chunks (fst x) (snd x)))"

definition scans_well ::
  "(bytes \<Rightarrow> int \<times> (nat \<times> nat) list) \<Rightarrow> (dir \<Rightarrow> nat \<Rightarrow> bytes list) \<Rightarrow> dir \<times> nat \<Rightarrow> bool" where
  "scans_well hs_scan chunks x \<longleftrightarrow> list_all (\<lambda>c. fst (hs_scan c) = 0) (chunks (fst x) (snd x))"

record 'w workers_state =
  procs :: proc
  todo :: "bytes list list"              \<comment> \<open>per worker: pieces of the buffer in work not yet handed to the batch\<close>
  bufs :: "string list"                  \<comment> \<open>per worker: \<^verbatim>\<open>buffer_\<close> of its batch\<close>
  world :: 'w
  written :: "(nat \<times> bytes) list"       \<comment> \<open>history: the texts given to \<^verbatim>\<open>Write\<close>, and by whom\<close>
  taken :: "(nat \<times> dir \<times> nat) list"    \<comment> \<open>history: the buffers worked through, and by whom\<close>

definition workers_start :: "nat \<Rightarrow> dir \<Rightarrow> 'w \<Rightarrow> 'w workers_state" where
  "workers_start n root w = \<lparr>procs = start n root, todo = replicate n [], bufs = replicate n [], world = w,
     written = [], taken = []\<rparr>"

text \<open>The number of a buffer, when \<open>bs\<close> are the batches not yet published, this one included.\<close>

definition buffer_no :: "dir \<Rightarrow> dir list list \<Rightarrow> nat" where
  "buffer_no d bs = length (batches d) - length bs"

text \<open>The system calls of a worker besides its writes; what they return is in the trees and the chunks.\<close>

definition other_call :: "'w os \<Rightarrow> 'w \<Rightarrow> 'w \<Rightarrow> bool" where
  "other_call os w w' \<longleftrightarrow>
     (\<exists>dir name fl. w' = snd (sys_openat os dir name fl w)) \<or> (\<exists>fd sz. w' = snd (sys_getdents64 os fd sz w)) \<or>
     (\<exists>fd cnt off. w' = snd (sys_pread os fd cnt off w)) \<or> (\<exists>fd. w' = sys_close os fd w)"

inductive workers_step ::
  "'w os \<Rightarrow> (bytes \<Rightarrow> int \<times> (nat \<times> nat) list) \<Rightarrow> (dir \<Rightarrow> nat \<Rightarrow> bytes list) \<Rightarrow> 'w workers_state \<Rightarrow> 'w workers_state \<Rightarrow> bool"
  for os hs_scan chunks where
  other: "step (procs s) p \<Longrightarrow>
    \<forall>t d b bs. at_pc t (Scan d (b # bs)) p \<longleftrightarrow> at_pc t (Scan d (b # bs)) (procs s) \<Longrightarrow>
    \<forall>t. at_pc t Flushing (procs s) \<longrightarrow> at_pc t Flushing p \<Longrightarrow>
    workers_step os hs_scan chunks s (s\<lparr>procs := p\<rparr>)"
| read_buffer: "step (procs s) p \<Longrightarrow> at_pc t (Scan d (b # bs)) p \<Longrightarrow> \<not> at_pc t (Scan d (b # bs)) (procs s) \<Longrightarrow>
    scans_well hs_scan chunks (d, buffer_no d (b # bs)) \<Longrightarrow>
    workers_step os hs_scan chunks s
      (s\<lparr>procs := p, todo := (todo s)[t := block_pieces hs_scan chunks (d, buffer_no d (b # bs))],
         taken := taken s @ [(t, d, buffer_no d (b # bs))]\<rparr>)"
| put_piece: "at_pc t (Scan d (b # bs)) (procs s) \<Longrightarrow> todo s ! t = x # xs \<Longrightarrow>
    batch_node (write_node os) x (bufs s ! t, world s) = Some (Inr k, buf', w') \<Longrightarrow>
    workers_step os hs_scan chunks s
      (s\<lparr>todo := (todo s)[t := xs], bufs := (bufs s)[t := buf'], world := w',
         written := written s @ (if size_of (bufs s ! t @ x) \<ge> buffer_size then [(t, bufs s ! t @ x)] else [])\<rparr>)"
| publish: "at_pc t (Scan d (b # bs)) (procs s) \<Longrightarrow> todo s ! t = [] \<Longrightarrow>
    step (procs s) p \<Longrightarrow> \<not> at_pc t (Scan d (b # bs)) p \<Longrightarrow>
    workers_step os hs_scan chunks s (s\<lparr>procs := p\<rparr>)"
| last_flush: "at_pc t Flushing (procs s) \<Longrightarrow> grep_flush os (bufs s ! t, world s) = Some (Inr k, buf', w') \<Longrightarrow>
    step (procs s) p \<Longrightarrow> \<not> at_pc t Flushing p \<Longrightarrow>
    workers_step os hs_scan chunks s
      (s\<lparr>procs := p, bufs := (bufs s)[t := []], world := w', written := written s @ [(t, bufs s ! t)]\<rparr>)"
| call: "other_call os (world s) w' \<Longrightarrow> workers_step os hs_scan chunks s (s\<lparr>world := w'\<rparr>)"
| woken: "spurious (procs s) p \<Longrightarrow> workers_step os hs_scan chunks s (s\<lparr>procs := p\<rparr>)"

inductive workers_reach ::
  "'w os \<Rightarrow> (bytes \<Rightarrow> int \<times> (nat \<times> nat) list) \<Rightarrow> (dir \<Rightarrow> nat \<Rightarrow> bytes list) \<Rightarrow> nat \<Rightarrow> dir \<Rightarrow> 'w \<Rightarrow> 'w workers_state \<Rightarrow> bool"
  for os hs_scan chunks n root w where
  begins: "workers_reach os hs_scan chunks n root w (workers_start n root w)"
| goes_on: "workers_reach os hs_scan chunks n root w s \<Longrightarrow> workers_step os hs_scan chunks s s' \<Longrightarrow>
    workers_reach os hs_scan chunks n root w s'"

section \<open>The pieces are what the pipeline hands to its batch\<close>

lemma report_snd: "report ms ctx = ctx @ map snd ms"
  by (induction ms ctx rule: report.induct) (simp_all add: on_match_def)

lemma vectorscan_loop_feed:
  "vectorscan_loop nxt c ms s =
     (case feed nxt (concat (map (\<lambda>m. [match_line c m, [newline]]) ms)) acc s of
        None \<Rightarrow> None
      | Some (Inl e, s') \<Rightarrow> Some (Inl e, s')
      | Some (Inr k, s') \<Rightarrow> Some (Inr (), s'))"
proof (induction ms arbitrary: s acc)
  case (Cons m ms)
  have step: "vectorscan_loop nxt c ms s'' =
      (case feed nxt (concat (map (\<lambda>m. [match_line c m, [newline]]) ms)) (acc + k + k') s'' of
        None \<Rightarrow> None
      | Some (Inl e, s') \<Rightarrow> Some (Inl e, s')
      | Some (Inr k, s') \<Rightarrow> Some (Inr (), s'))" for k k' s''
    by (rule Cons.IH)
  show ?case
  proof (cases "nxt (match_line c m) s")
    case (Some r)
    obtain v s1 where r: "r = (v, s1)" by fastforce
    show ?thesis
    proof (cases v)
      case (Inr k)
      then show ?thesis
        using Some r step [of _ k] by (cases "nxt [newline] s1") (auto simp: emit_line_def split: sum.splits)
    qed (simp add: Some r emit_line_def)
  qed (simp add: emit_line_def)
qed simp

lemma vectorscan_pieces:
  "vectorscan_node hs_scan nxt c s =
     (if fst (hs_scan c) \<noteq> 0 then Some (Inl ''failed to parse input'', s)
      else
        (case feed nxt (match_pieces hs_scan c) 0 s of
           None \<Rightarrow> None
         | Some (Inl e, s') \<Rightarrow> Some (Inl e, s')
         | Some (Inr k, s') \<Rightarrow> Some (Inr (size_of (snd (hs_scan c))), s')))"
  by (cases "hs_scan c")
    (auto simp: vectorscan_node_def match_pieces_def report_snd comp_def size_of_def Let_def
      vectorscan_loop_feed [where acc = 0] split: option.splits sum.splits)

lemma concat_match_pieces: "concat (match_pieces hs_scan c) = scan_output hs_scan [c]"
proof -
  have "concat (concat (map (\<lambda>m. [match_line c (snd m), [newline]]) ms)) = print_lines (map (match_line c) (map snd ms))"
    for ms :: "(nat \<times> nat) list"
    by (induction ms) simp_all
  then show ?thesis by (simp add: match_pieces_def scan_output_def)
qed

section \<open>Every buffer is worked through once\<close>

text \<open>The last \<open>k\<close> buffers of a directory, all buffers of some directories, and those a thread will still hand out.\<close>

definition last_buffers :: "dir \<Rightarrow> nat \<Rightarrow> (dir \<times> nat) multiset" where
  "last_buffers d k = mset (map (Pair d) [length (batches d) - k ..< length (batches d)])"

definition buffers_of :: "dir multiset \<Rightarrow> (dir \<times> nat) multiset" where
  "buffers_of M = (\<Sum>d \<in># M. last_buffers d (length (batches d)))"

fun ahead :: "pc \<Rightarrow> (dir \<times> nat) multiset" where
  "ahead (Scan d []) = {#}"
| "ahead (Scan d (b # bs)) = last_buffers d (length bs) + buffers_of (all_of b + all_of (concat bs))"
| "ahead (Publish d b bs) = last_buffers d (length bs) + buffers_of (all_of b + all_of (concat bs))"
| "ahead (Notify d bs) = last_buffers d (length bs) + buffers_of (all_of (concat bs))"
| "ahead _ = {#}"

definition left_to_read :: "proc \<Rightarrow> (dir \<times> nat) multiset" where
  "left_to_read p = buffers_of (all_of (queue p)) + sum_list (map ahead (pcs p))"

text \<open>Batches not yet published are the last ones of their directory.\<close>

fun batches_left :: "pc \<Rightarrow> bool" where
  "batches_left (Scan d bs) = suffix bs (batches d)"
| "batches_left (Publish d b bs) = suffix (b # bs) (batches d)"
| "batches_left (Notify d bs) = suffix bs (batches d)"
| "batches_left _ = True"

lemma last_buffers_0 [simp]: "last_buffers d 0 = {#}"
  by (simp add: last_buffers_def)

lemma last_buffers_Suc:
  "suffix (b # bs) (batches d) \<Longrightarrow>
     last_buffers d (length (b # bs)) = add_mset (d, buffer_no d (b # bs)) (last_buffers d (length bs))"
proof -
  assume "suffix (b # bs) (batches d)"
  then have "Suc (length bs) \<le> length (batches d)" by (auto dest: suffix_length_le)
  then have "[length (batches d) - Suc (length bs) ..< length (batches d)] =
      (length (batches d) - Suc (length bs)) # [length (batches d) - length bs ..< length (batches d)]"
    by (simp add: upt_conv_Cons Suc_diff_Suc)
  then show ?thesis by (simp add: last_buffers_def buffer_no_def)
qed

lemma buffers_of_simps [simp]:
  "buffers_of {#} = {#}" "buffers_of (add_mset d M) = last_buffers d (length (batches d)) + buffers_of M"
  "buffers_of (M + N) = buffers_of M + buffers_of N"
  by (simp_all add: buffers_of_def)

lemma batches_left_step: "step p p' \<Longrightarrow> \<forall>q \<in> set (pcs p). batches_left q \<Longrightarrow> \<forall>q \<in> set (pcs p'). batches_left q"
proof (induction rule: step.induct)
  case (notify_one t d bs s u)
  then show ?case
    by (auto dest!: in_set_update) (auto simp: at_pc_def all_set_conv_all_nth)
next
  case (append t d b bs s)
  then have "batches_left (Publish d b bs)" by (metis at_pc_def nth_mem)
  then show ?case using append(3) by (auto dest!: in_set_update dest: suffix_ConsD)
qed (auto simp: at_pc_def wake_def dest!: in_set_update nth_mem dest: suffix_ConsD)

lemma ahead_wake [simp]: "ahead (wake q) = ahead q" "ahead \<circ> wake = ahead"
  by (auto simp: wake_def fun_eq_iff)

lemma ahead_update:
  "t < length ps \<Longrightarrow> ahead (ps ! t) = ahead q \<Longrightarrow> sum_list (map ahead (ps[t := q])) = sum_list (map ahead ps)"
  by (metis (no_types) list_update_id map_update)

text \<open>A step hands out at most one buffer, to the thread that then has it in work.\<close>

definition handed :: "dir \<Rightarrow> dir list list \<Rightarrow> (dir \<times> nat) multiset" where
  "handed d bs = (if bs = [] then {#} else {#(d, buffer_no d bs)#})"

lemma ahead_scan:
  "suffix bs (batches d) \<Longrightarrow> ahead (Scan d bs) + handed d bs = last_buffers d (length bs) + buffers_of (all_of (concat bs))"
  using last_buffers_Suc [of _ _ d] by (cases bs) (simp_all add: handed_def)

text \<open>The buffer a thread has in work: its directory and the batches not yet published, this one's included.\<close>

fun in_work :: "pc \<Rightarrow> (dir \<times> dir list list) option" where
  "in_work (Scan d (b # bs)) = Some (d, b # bs)"
| "in_work _ = None"

definition work_on :: "proc \<Rightarrow> nat \<Rightarrow> (dir \<times> dir list list) option" where
  "work_on p t = (if t < length (pcs p) then in_work (pcs p ! t) else None)"

lemma in_work_Some [simp]: "in_work q = Some (d, bs) \<longleftrightarrow> (\<exists>b bs'. bs = b # bs' \<and> q = Scan d bs)"
  by (cases q rule: in_work.cases) auto

lemma at_scan: "at_pc t (Scan d (b # bs)) p \<longleftrightarrow> work_on p t = Some (d, b # bs)"
  by (auto simp: at_pc_def work_on_def)

lemma in_work_wake [simp]: "in_work (wake q) = in_work q"
  by (simp add: wake_def)

lemma work_on_goto: "at_pc t q p \<Longrightarrow> work_on (goto t q' p) = (work_on p)(t := in_work q')"
  by (auto simp: work_on_def at_pc_def nth_list_update fun_eq_iff)

lemma work_on_fields [simp]:
  "work_on (p\<lparr>queue := x\<rparr>) = work_on p" "work_on (p\<lparr>mutex := l\<rparr>) = work_on p" "work_on (p\<lparr>running := r\<rparr>) = work_on p"
  "work_on (p\<lparr>pending := k\<rparr>) = work_on p" "work_on (p\<lparr>processed := m\<rparr>) = work_on p"
  "work_on (p\<lparr>pcs := map wake (pcs p)\<rparr>) = work_on p"
  by (auto simp: work_on_def fun_eq_iff)

lemma work_on_same: "at_pc t q p \<Longrightarrow> in_work q = in_work q' \<Longrightarrow> work_on (goto t q' p) = work_on p"
  by (auto simp: work_on_goto work_on_def at_pc_def fun_eq_iff)

lemma left_fields [simp]:
  "left_to_read (p\<lparr>mutex := l\<rparr>) = left_to_read p" "left_to_read (p\<lparr>running := r\<rparr>) = left_to_read p"
  "left_to_read (p\<lparr>pending := k\<rparr>) = left_to_read p" "left_to_read (p\<lparr>processed := m\<rparr>) = left_to_read p"
  "left_to_read (p\<lparr>pcs := map wake (pcs p)\<rparr>) = left_to_read p"
  by (simp_all add: left_to_read_def)

lemma left_same: "at_pc t q p \<Longrightarrow> ahead q = ahead q' \<Longrightarrow> left_to_read (goto t q' p) = left_to_read p"
  by (simp add: left_to_read_def at_pc_def ahead_update)

lemma left_pop:
  assumes "at_pc t Decide p" "queue p = d # q"
  shows "left_to_read (goto t (Scan d (batches d)) (p\<lparr>queue := q, mutex := None\<rparr>)) + handed d (batches d) = left_to_read p"
proof -
  obtain R where R: "sum_list (map ahead (pcs p)) = ahead Decide + R"
    "\<forall>q. sum_list (map ahead ((pcs p)[t := q])) = ahead q + R"
    by (rule thread_sum [OF assms(1), of ahead])
  have "ahead (Scan d (batches d)) + handed d (batches d) =
      last_buffers d (length (batches d)) + buffers_of (all_of (concat (batches d)))"
    by (rule ahead_scan) simp
  then show ?thesis using R assms(2) by (simp add: left_to_read_def all_dirs_unfold [of d] ac_simps)
qed

lemma left_notify:
  assumes "at_pc t (Notify d bs) p" "suffix bs (batches d)"
  shows "left_to_read (goto t (Scan d bs) p) + handed d bs = left_to_read p"
proof -
  obtain R where R: "sum_list (map ahead (pcs p)) = ahead (Notify d bs) + R"
    "\<forall>q. sum_list (map ahead ((pcs p)[t := q])) = ahead q + R"
    by (rule thread_sum [OF assms(1), of ahead])
  then show ?thesis using ahead_scan [OF assms(2)] by (simp add: left_to_read_def ac_simps)
qed

lemma left_append:
  assumes "at_pc t (Publish d b bs) p"
  shows "left_to_read (goto t (Notify d bs) (p\<lparr>queue := queue p @ b\<rparr>)) = left_to_read p"
proof -
  obtain R where R: "sum_list (map ahead (pcs p)) = ahead (Publish d b bs) + R"
    "\<forall>q. sum_list (map ahead ((pcs p)[t := q])) = ahead q + R"
    by (rule thread_sum [OF assms(1), of ahead])
  then show ?thesis by (simp add: left_to_read_def ac_simps)
qed

definition moves :: "proc \<Rightarrow> proc \<Rightarrow> bool" where
  "moves p p' \<longleftrightarrow>
     (\<exists>t d bs. work_on p t = None \<and> t < length (pcs p) \<and> work_on p' = (work_on p)(t := in_work (Scan d bs)) \<and>
        left_to_read p' + handed d bs = left_to_read p) \<or>
     (\<exists>t d bs. work_on p t = Some (d, bs) \<and> work_on p' = (work_on p)(t := None) \<and> left_to_read p' = left_to_read p) \<or>
     work_on p' = work_on p \<and> left_to_read p' = left_to_read p"

lemma moves_same:
  "at_pc t q r \<Longrightarrow> in_work q = in_work q' \<Longrightarrow> ahead q = ahead q' \<Longrightarrow> work_on r = work_on p \<Longrightarrow> left_to_read r = left_to_read p \<Longrightarrow>
     moves p (goto t q' r)"
  by (simp add: moves_def left_same work_on_same)

lemma moves_idle:
  assumes "at_pc t q p" "in_work q = None" "in_work q' = None" "ahead q = {#}" "ahead q' = {#}"
  shows "moves p (goto t q' p)" "moves p (goto t q' (p\<lparr>mutex := l\<rparr>))" "moves p (goto t q' (p\<lparr>running := r\<rparr>))"
  by (rule moves_same [of t q]; simp add: assms)+

lemma moves_takes:
  "work_on p t = None \<Longrightarrow> t < length (pcs p) \<Longrightarrow> work_on p' = (work_on p)(t := in_work (Scan d bs)) \<Longrightarrow>
     left_to_read p' + handed d bs = left_to_read p \<Longrightarrow> moves p p'"
  unfolding moves_def by blast

lemma moves_leaves:
  "work_on p t = Some (d, bs) \<Longrightarrow> work_on p' = (work_on p)(t := None) \<Longrightarrow> left_to_read p' = left_to_read p \<Longrightarrow> moves p p'"
  unfolding moves_def by blast

lemma at_pc_batches: "\<forall>q \<in> set (pcs p). batches_left q \<Longrightarrow> at_pc t q p \<Longrightarrow> batches_left q"
  by (auto simp: at_pc_def)

lemma step_moves: "step p p' \<Longrightarrow> \<forall>q \<in> set (pcs p). batches_left q \<Longrightarrow> moves p p'"
proof (induction rule: step.induct)
  case (pop t s d q)
  have "work_on (goto t (Scan d (batches d)) (s\<lparr>queue := q, mutex := None\<rparr>)) =
      (work_on s)(t := in_work (Scan d (batches d)))"
    using pop(1) by (subst work_on_goto [of _ Decide]) simp_all
  then show ?case
    using left_pop [OF pop(1,3)] pop(1) by (intro moves_takes [of s t]) (simp_all add: work_on_def at_pc_def)
next
  case (fetch_add t d b bs s)
  let ?s = "s\<lparr>pending := pending s + int (length b)\<rparr>"
  have at: "at_pc t (Scan d (b # bs)) ?s" using fetch_add(1) by simp
  then show ?case
    using left_same [OF at, of "Publish d b bs"] work_on_goto [OF at, of "Publish d b bs"]
    by (intro moves_leaves [of s t d "b # bs"]) (simp_all add: at_scan)
next
  case (append t d b bs s)
  have at: "at_pc t (Publish d b bs) (s\<lparr>queue := queue s @ b\<rparr>)" using append(1) by simp
  show ?case
    using left_append [OF append(1)] work_on_same [OF at, of "Notify d bs"] by (simp add: moves_def)
next
  case (notify_one t d bs s u)
  have u: "left_to_read (goto u Acquire s) = left_to_read s" "work_on (goto u Acquire s) = work_on s"
    using left_same [OF notify_one(2), of Acquire] work_on_same [OF notify_one(2), of Acquire] by simp_all
  have at: "at_pc t (Notify d bs) (goto u Acquire s)" using notify_one(1,2) by (auto simp: at_pc_def nth_list_update)
  have "suffix bs (batches d)" using at_pc_batches [OF notify_one(3,1)] by simp
  from left_notify [OF at this] show ?case
    using notify_one(1) work_on_goto [OF at, of "Scan d bs"] u
    by (intro moves_takes [of s t _ d bs]) (simp_all add: work_on_def at_pc_def)
next
  case (notify_none t d bs s)
  have "suffix bs (batches d)" using at_pc_batches [OF notify_none(3,1)] by simp
  from left_notify [OF notify_none(1) this] show ?case
    using notify_none(1) work_on_goto [OF notify_none(1), of "Scan d bs"]
    by (intro moves_takes [of s t _ d bs]) (simp_all add: work_on_def at_pc_def)
next
  case (broadcast t s)
  show ?case by (rule moves_same [OF woken_at [OF broadcast(1)]]) simp_all
next
  case (destroy_notify s)
  show ?case by (rule moves_same [OF woken_at [OF destroy_notify(1)]]) simp_all
next
  case (fetch_sub t d s)
  show ?case by (rule moves_same [of t "Closing d"]) (use fetch_sub(1) in simp_all)
next
  case (flush t s)
  show ?case by (rule moves_same [OF flush(1)]) simp_all
qed (erule moves_idle; simp)+

text \<open>A thread is past its flush only after it was at it.\<close>

fun past_flush :: "pc \<Rightarrow> bool" where
  "past_flush q \<longleftrightarrow> q = Destroy \<or> q = Destroy_Notify \<or> q = Join \<or> q = Done"

definition flushed :: "proc \<Rightarrow> nat \<Rightarrow> bool" where
  "flushed p t \<longleftrightarrow> t < length (pcs p) \<and> past_flush (pcs p ! t)"

lemma step_flushed:
  assumes "step p p'" "flushed p' t"
  shows "flushed p t \<or> at_pc t Flushing p \<and> \<not> at_pc t Flushing p'"
  using assms
  by (induction rule: step.induct) (auto simp: flushed_def at_pc_def nth_list_update wake_def split: if_splits)

lemma flushed_stays:
  assumes "step p p'" "flushed p t"
  shows "flushed p' t"
  using assms
  by (induction rule: step.induct) (auto simp: flushed_def at_pc_def nth_list_update wake_def split: if_splits)

lemma step_length: "step p p' \<Longrightarrow> length (pcs p') = length (pcs p)"
  by (induction rule: step.induct) simp_all

lemma spurious_same:
  assumes "spurious p p'"
  shows "work_on p' = work_on p" "left_to_read p' = left_to_read p" "flushed p' = flushed p"
    "length (pcs p') = length (pcs p)" "\<forall>q \<in> set (pcs p). batches_left q \<Longrightarrow> \<forall>q \<in> set (pcs p'). batches_left q"
  using assms
  by (auto elim!: spurious.cases simp: left_same work_on_same flushed_def at_pc_def nth_list_update fun_eq_iff
      dest!: in_set_update split: if_splits)

lemma flush_step:
  assumes "step p p'" "at_pc t Flushing p" "\<not> at_pc t Flushing p'"
  shows "p' = goto t (if t = 0 then Destroy else Done) p"
  using assms
  by (induction rule: step.induct) (auto simp: at_pc_def nth_list_update wake_def split: if_splits)

lemma flush_step_rest:
  assumes "step p p'" "at_pc t Flushing p" "\<not> at_pc t Flushing p'"
  shows "work_on p' = work_on p" "left_to_read p' = left_to_read p" "u \<noteq> t \<Longrightarrow> flushed p' u = flushed p u"
  using assms(2)
  by (auto simp: flush_step [OF assms] left_same work_on_same flushed_def at_pc_def nth_list_update)

lemma flushed_cases:
  assumes "step p p'" "work_on p' \<noteq> work_on p" "flushed p' t"
  shows "flushed p t"
  using step_flushed [OF assms(1,3)] flush_step_rest(1) [OF assms(1), of t] assms(2) by auto

lemma work_on_scans: "(\<And>d b bs. at_pc t (Scan d (b # bs)) p' \<longleftrightarrow> at_pc t (Scan d (b # bs)) p) \<Longrightarrow> work_on p' t = work_on p t"
proof -
  assume same: "\<And>d b bs. at_pc t (Scan d (b # bs)) p' \<longleftrightarrow> at_pc t (Scan d (b # bs)) p"
  have "\<exists>d b bs. work_on q t = Some (d, b # bs)" if "work_on q t \<noteq> None" for q
    using that by (auto simp: work_on_def split: if_splits)
  then show ?thesis using same unfolding at_scan by (metis option.exhaust)
qed

lemma moves_no_work: "moves p p' \<Longrightarrow> work_on p' = work_on p \<Longrightarrow> left_to_read p' = left_to_read p"
  unfolding moves_def
proof (elim disjE exE conjE)
  fix t d bs
  assume *: "work_on p' = work_on p" "work_on p t = None" "work_on p' = (work_on p)(t := in_work (Scan d bs))"
    "left_to_read p' + handed d bs = left_to_read p"
  then have "in_work (Scan d bs) = None" by (metis fun_upd_same)
  then have "bs = []" by (cases bs) auto
  then show ?thesis using *(4) by (simp add: handed_def)
qed auto

lemma moves_to_work:
  assumes "moves p p'" "work_on p' t = Some (d, bs)" "work_on p t \<noteq> Some (d, bs)"
  shows "work_on p t = None" "u \<noteq> t \<Longrightarrow> work_on p' u = work_on p u" "add_mset (d, buffer_no d bs) (left_to_read p') = left_to_read p"
proof -
  obtain t' d' bs' where *: "work_on p t' = None" "work_on p' = (work_on p)(t' := in_work (Scan d' bs'))"
      "left_to_read p' + handed d' bs' = left_to_read p"
    using assms unfolding moves_def by (auto split: if_splits)
  have t: "t' = t" using *(2) assms(2,3) by (auto split: if_splits)
  have "in_work (Scan d' bs') = Some (d, bs)" using *(2) assms(2) t by simp
  then have "bs' = bs" "d' = d" "bs \<noteq> []" by auto
  then show "work_on p t = None" "u \<noteq> t \<Longrightarrow> work_on p' u = work_on p u" "add_mset (d, buffer_no d bs) (left_to_read p') = left_to_read p"
    using * t by (simp_all add: handed_def)
qed

lemma moves_from_work:
  assumes "moves p p'" "work_on p t = Some (d, bs)" "work_on p' t \<noteq> Some (d, bs)"
  shows "work_on p' = (work_on p)(t := None)" "left_to_read p' = left_to_read p"
  using assms unfolding moves_def by (auto split: if_splits)

section \<open>The output is made of the workers' texts\<close>

definition of_worker :: "nat \<Rightarrow> (nat \<times> 'a) list \<Rightarrow> 'a list" where
  "of_worker t l = map snd (filter (\<lambda>x. fst x = t) l)"

lemma of_worker_simps [simp]:
  "of_worker t [] = []" "of_worker t (l @ l') = of_worker t l @ of_worker t l'"
  "of_worker t ((u, x) # l) = (if u = t then x # of_worker t l else of_worker t l)"
  by (simp_all add: of_worker_def)

text \<open>What a worker has to account for: its texts, its buffer and its pieces are the buffers it took, in order.\<close>

definition worker_ok :: "(dir \<times> nat \<Rightarrow> bytes list) \<Rightarrow> 'w workers_state \<Rightarrow> nat \<Rightarrow> bool" where
  "worker_ok pieces s t \<longleftrightarrow>
     length (bufs s ! t) < unat buffer_size \<and> (\<forall>x \<in> set (todo s ! t). length x \<le> 2 ^ 62) \<and>
     (work_on (procs s) t = None \<longrightarrow> todo s ! t = []) \<and> (flushed (procs s) t \<longrightarrow> bufs s ! t = []) \<and>
     concat (of_worker t (written s)) @ bufs s ! t @ concat (todo s ! t) = concat (map (\<lambda>x. concat (pieces x)) (of_worker t (taken s)))"

definition workers_inv ::
  "('w \<Rightarrow> bytes) \<Rightarrow> ('w \<Rightarrow> bool) \<Rightarrow> (dir \<times> nat \<Rightarrow> bytes list) \<Rightarrow> nat \<Rightarrow> dir \<Rightarrow> 'w \<Rightarrow> 'w workers_state \<Rightarrow> bool" where
  "workers_inv out good pieces n root w s \<longleftrightarrow>
     reachable n root (procs s) \<and> (\<forall>q \<in> set (pcs (procs s)). batches_left q) \<and>
     length (todo s) = n \<and> length (bufs s) = n \<and> good (world s) \<and>
     out (world s) = out w @ concat (map snd (written s)) \<and>
     mset (map snd (taken s)) + left_to_read (procs s) = buffers_of (all_dirs root) \<and>
     (\<forall>t < n. worker_ok pieces s t)"

locale workers_kernel = stdout_writer os out good
  for os :: "'w os" and out :: "'w \<Rightarrow> bytes" and good :: "'w \<Rightarrow> bool" +
  assumes call_law: "good w \<Longrightarrow> other_call os w w' \<Longrightarrow> good w' \<and> out w' = out w"
begin

lemma batch_write_cases:
  assumes "good w" "length (b :: string) < unat buffer_size" "length x \<le> 2 ^ 62"
    "batch_node (write_node os) x (b, w) = Some (Inr k, b', w')"
  shows "good w' \<and>
    (if size_of (b @ x) \<ge> buffer_size then b' = [] \<and> out w' = out w @ b @ x
     else b' = b @ x \<and> out w' = out w \<and> length (b @ x) < unat buffer_size)"
proof -
  have len: "length (b @ x) < 2 ^ 63" using assms(2,3) by simp
  then have sz: "unat (size_of (b @ x)) = length (b @ x)" by (simp add: size_simps)
  show ?thesis
  proof (cases "size_of (b @ x) \<ge> buffer_size")
    case True
    from assms(1) len show ?thesis
      by (cases rule: wr.put_False_cases) (use True assms(4) in \<open>auto simp: batch_node_def Let_def\<close>)
  next
    case False
    then have "length (b @ x) < unat buffer_size" using sz by (simp add: not_le word_less_nat_alt)
    then show ?thesis using False assms(1,4) by (auto simp: batch_node_def Let_def)
  qed
qed

lemma worker_frame:
  assumes "worker_ok pieces s t" "todo s' ! t = todo s ! t" "bufs s' ! t = bufs s ! t"
    "of_worker t (written s') = of_worker t (written s)" "of_worker t (taken s') = of_worker t (taken s)"
    "work_on (procs s') t = None \<Longrightarrow> work_on (procs s) t = None \<or> todo s ! t = []"
    "flushed (procs s') t \<Longrightarrow> flushed (procs s) t \<or> bufs s ! t = []"
  shows "worker_ok pieces s' t"
  using assms unfolding worker_ok_def by auto

lemma invD:
  assumes "workers_inv out good pieces n root w s"
  shows "reachable n root (procs s)" "\<forall>q \<in> set (pcs (procs s)). batches_left q" "length (todo s) = n" "length (bufs s) = n"
    "good (world s)" "out (world s) = out w @ concat (map snd (written s))"
    "mset (map snd (taken s)) + left_to_read (procs s) = buffers_of (all_dirs root)"
    "t < n \<Longrightarrow> worker_ok pieces s t"
  using assms by (simp_all add: workers_inv_def)

text \<open>A step of the threads with the rest of the state unchanged.\<close>

lemma inv_threads:
  assumes "workers_inv out good pieces n root w s" "reachable n root p" "\<forall>q \<in> set (pcs p). batches_left q"
    "left_to_read p = left_to_read (procs s)"
    "\<And>t. t < n \<Longrightarrow> work_on p t = None \<Longrightarrow> work_on (procs s) t = None \<or> todo s ! t = []"
    "\<And>t. t < n \<Longrightarrow> flushed p t \<Longrightarrow> flushed (procs s) t"
  shows "workers_inv out good pieces n root w (s\<lparr>procs := p\<rparr>)"
proof -
  have "worker_ok pieces (s\<lparr>procs := p\<rparr>) t" if "t < n" for t
    by (rule worker_frame [OF invD(8) [OF assms(1) that]]) (use assms(5,6) that in simp_all)
  then show ?thesis using invD(3-7) [OF assms(1)] assms(2-4) by (simp add: workers_inv_def)
qed

lemma inv_read_buffer:
  assumes inv: "workers_inv out good pieces n root w s" and step: "step (procs s) p"
    and at: "at_pc t (Scan d (b # bs)) p" "\<not> at_pc t (Scan d (b # bs)) (procs s)"
    and small: "\<And>y. y \<in> set (pieces (d, buffer_no d (b # bs))) \<Longrightarrow> length y \<le> 2 ^ 62"
  shows "workers_inv out good pieces n root w
    (s\<lparr>procs := p, todo := (todo s)[t := pieces (d, buffer_no d (b # bs))], taken := taken s @ [(t, d, buffer_no d (b # bs))]\<rparr>)"
    (is "workers_inv _ _ _ _ _ _ ?s")
proof -
  note moved = moves_to_work [OF step_moves [OF step invD(2) [OF inv]] at(1) [unfolded at_scan] at(2) [unfolded at_scan]]
  have p: "reachable n root p" "\<forall>q \<in> set (pcs p). batches_left q"
    by (rule reachable.step [OF invD(1) [OF inv] step]) (rule batches_left_step [OF step invD(2) [OF inv]])
  have work: "work_on p \<noteq> work_on (procs s)" using at unfolding at_scan by metis
  have t: "t < n" using at(1) reachable_threads [OF p(1)] by (simp add: at_pc_def)
  have "worker_ok pieces ?s u" if "u < n" for u
  proof (cases "u = t")
    case False
    show ?thesis
      by (rule worker_frame [OF invD(8) [OF inv that]])
        (use False moved(2) [OF False] flushed_cases [OF step work, of u] in simp_all)
  next
    case True
    have ok: "worker_ok pieces s t" by (rule invD(8) [OF inv t])
    have "\<not> flushed p t" using at(1) by (simp add: flushed_def at_pc_def)
    moreover have "work_on p t \<noteq> None" using at(1) by (simp add: at_scan)
    moreover have "todo s ! t = []" using ok moved(1) by (simp add: worker_ok_def)
    ultimately show ?thesis
      using ok small t invD(3) [OF inv] by (auto simp: worker_ok_def True)
  qed
  moreover have "mset (map snd (taken s)) + add_mset (d, buffer_no d (b # bs)) (left_to_read p) = buffers_of (all_dirs root)"
    using invD(7) [OF inv] moved(3) by simp
  ultimately show ?thesis using invD(3-6) [OF inv] p by (simp add: workers_inv_def)
qed

lemma inv_put_piece:
  assumes inv: "workers_inv out good pieces n root w s" and at: "at_pc t (Scan d (b # bs)) (procs s)"
    and todo: "todo s ! t = x # xs" and put: "batch_node (write_node os) x (bufs s ! t, world s) = Some (Inr k, buf', w')"
  shows "workers_inv out good pieces n root w
    (s\<lparr>todo := (todo s)[t := xs], bufs := (bufs s)[t := buf'], world := w',
       written := written s @ (if size_of (bufs s ! t @ x) \<ge> buffer_size then [(t, bufs s ! t @ x)] else [])\<rparr>)"
    (is "workers_inv _ _ _ _ _ _ ?s")
proof -
  have t: "t < n" using at reachable_threads [OF invD(1) [OF inv]] by (simp add: at_pc_def)
  have ok: "worker_ok pieces s t" by (rule invD(8) [OF inv t])
  have small: "length (bufs s ! t) < unat buffer_size" "length x \<le> 2 ^ 62" using ok todo by (simp_all add: worker_ok_def)
  note batch = batch_write_cases [OF invD(5) [OF inv] small put]
  have work: "work_on (procs s) t \<noteq> None" "\<not> flushed (procs s) t"
    using at by (simp add: at_scan) (use at in \<open>simp add: flushed_def at_pc_def\<close>)
  have len: "t < length (todo s)" "t < length (bufs s)" using t invD(3,4) [OF inv] by simp_all
  have "worker_ok pieces ?s u" if "u < n" for u
  proof (cases "u = t")
    case False
    show ?thesis by (rule worker_frame [OF invD(8) [OF inv that]]) (use False in simp_all)
  next
    case True
    show ?thesis
      using ok batch work len todo by (auto simp: worker_ok_def True split: if_splits)
  qed
  then show ?thesis using invD [OF inv] batch by (auto simp: workers_inv_def split: if_splits)
qed

lemma inv_last_flush:
  assumes inv: "workers_inv out good pieces n root w s" and at: "at_pc t Flushing (procs s)" "\<not> at_pc t Flushing p"
    and flush: "grep_flush os (bufs s ! t, world s) = Some (Inr k, buf', w')" and step: "step (procs s) p"
  shows "workers_inv out good pieces n root w
    (s\<lparr>procs := p, bufs := (bufs s)[t := []], world := w', written := written s @ [(t, bufs s ! t)]\<rparr>)"
    (is "workers_inv _ _ _ _ _ _ ?s")
proof -
  have t: "t < n" using at(1) reachable_threads [OF invD(1) [OF inv]] by (simp add: at_pc_def)
  have ok: "worker_ok pieces s t" by (rule invD(8) [OF inv t])
  note rest = flush_step_rest [OF step at]
  have batch: "batch_good good (bufs s ! t, world s)" using ok invD(5) [OF inv] by (simp add: worker_ok_def batch_obs)
  have new: "good w'" "out w' = out (world s) @ bufs s ! t"
    using flush unfolding grep_flush_def by (cases rule: wr.batch_flush_cases [OF batch]; simp)+
  have p: "reachable n root p" "\<forall>q \<in> set (pcs p). batches_left q"
    by (rule reachable.step [OF invD(1) [OF inv] step]) (rule batches_left_step [OF step invD(2) [OF inv]])
  have idle: "work_on (procs s) t = None" using at(1) by (simp add: work_on_def at_pc_def)
  have "worker_ok pieces ?s u" if "u < n" for u
  proof (cases "u = t")
    case False
    show ?thesis by (rule worker_frame [OF invD(8) [OF inv that]]) (use False rest in simp_all)
  next
    case True
    show ?thesis using ok idle t invD(4) [OF inv] by (auto simp: worker_ok_def True)
  qed
  then show ?thesis using invD(3-7) [OF inv] p rest(2) new by (simp add: workers_inv_def)
qed

lemma inv_step:
  assumes step: "workers_step os hs_scan chunks s s'" and inv: "workers_inv out good (block_pieces hs_scan chunks) n root w s"
    and small: "\<And>x y. y \<in> set (block_pieces hs_scan chunks x) \<Longrightarrow> length y \<le> 2 ^ 62"
  shows "workers_inv out good (block_pieces hs_scan chunks) n root w s'"
  using step
proof cases
  case (other p)
  note threads = reachable.step [OF invD(1) [OF inv] other(2)] batches_left_step [OF other(2) invD(2) [OF inv]]
  have work: "work_on p = work_on (procs s)" by (rule ext, rule work_on_scans) (simp add: other(3))
  have "flushed (procs s) t" if "flushed p t" for t
    using step_flushed [OF other(2) that] other(4) by auto
  then show ?thesis
    unfolding other(1) using work moves_no_work [OF step_moves [OF other(2) invD(2) [OF inv]] work]
    by (intro inv_threads [OF inv threads]) simp_all
next
  case (read_buffer p t d b bs)
  show ?thesis unfolding read_buffer(1) by (rule inv_read_buffer [OF inv read_buffer(2-4) small])
next
  case (put_piece t d b bs x xs k buf' w')
  show ?thesis unfolding put_piece(1) by (rule inv_put_piece [OF inv put_piece(2-4)])
next
  case (publish t d b bs p)
  note threads = reachable.step [OF invD(1) [OF inv] publish(4)] batches_left_step [OF publish(4) invD(2) [OF inv]]
  note moved = moves_from_work [OF step_moves [OF publish(4) invD(2) [OF inv]] publish(2) [unfolded at_scan] publish(5) [unfolded at_scan]]
  have "work_on p \<noteq> work_on (procs s)" using publish(2,5) unfolding at_scan by metis
  then show ?thesis
    unfolding publish(1) using moved publish(3) flushed_cases [OF publish(4)]
    by (intro inv_threads [OF inv threads]) (auto split: if_splits)
next
  case (last_flush t k buf' w' p)
  show ?thesis unfolding last_flush(1) by (rule inv_last_flush [OF inv last_flush(2,5,3,4)])
next
  case (call w')
  then have "good w'" "out w' = out (world s)" using call_law [OF invD(5) [OF inv]] by simp_all
  moreover have "worker_ok (block_pieces hs_scan chunks) (s\<lparr>world := w'\<rparr>) t" if "t < n" for t
    by (rule worker_frame [OF invD(8) [OF inv that]]) simp_all
  ultimately show ?thesis unfolding call(1) using invD [OF inv] by (simp add: workers_inv_def)
next
  case (woken p)
  note same = spurious_same [OF woken(2)]
  show ?thesis
    unfolding woken(1)
    by (rule inv_threads [OF inv reachable.spurious [OF invD(1) [OF inv] woken(2)] same(5) [OF invD(2) [OF inv]]])
      (simp_all add: same)
qed

lemma inv_start:
  assumes "good w"
  shows "workers_inv out good pieces n root w (workers_start n root w)"
proof -
  have "sum_list (map ahead (replicate n Top)) = {#}" by (induction n) simp_all
  then have "left_to_read (start n root) = buffers_of (all_dirs root)" by (simp add: left_to_read_def start_def)
  moreover have "\<not> flushed (start n root) t" for t by (simp add: flushed_def start_def)
  moreover have "work_on (start n root) t = None" for t by (simp add: work_on_def start_def)
  ultimately show ?thesis
    using assms reachable.init [of n root]
    by (auto simp: workers_inv_def worker_ok_def workers_start_def) (simp add: start_def)
qed

lemma reach_inv:
  assumes "workers_reach os hs_scan chunks n root w s" "good w"
    "\<And>x y. y \<in> set (block_pieces hs_scan chunks x) \<Longrightarrow> length y \<le> 2 ^ 62"
  shows "workers_inv out good (block_pieces hs_scan chunks) n root w s"
  using assms(1)
proof induction
  case begins
  show ?case by (rule inv_start [OF assms(2)])
next
  case (goes_on s s')
  then show ?case using inv_step assms(3) by blast
qed

text \<open>
  When the workers have stopped and no thread goes on, everything has been read, and what a worker found is
  in its texts but for its batch, which is empty unless the thread was left asleep.
\<close>

lemma stopped_output:
  assumes "workers_inv out good pieces n root w s" "0 < n" "\<not> running (procs s)"
    "\<forall>q \<in> set (pcs (procs s)). q = Done \<or> q = Join \<or> q = Sleeping"
  shows "out (world s) = out w @ concat (map snd (written s))" "mset (map snd (taken s)) = buffers_of (all_dirs root)"
    "t < n \<Longrightarrow> concat (of_worker t (written s)) @ bufs s ! t = concat (map (\<lambda>x. concat (pieces x)) (of_worker t (taken s)))"
    "t < n \<Longrightarrow> bufs s ! t = [] \<or> at_pc t Sleeping (procs s)"
proof -
  note inv = invD [OF assms(1)]
  have len: "length (pcs (procs s)) = n" by (rule reachable_threads [OF inv(1)])
  have "queue (procs s) = []"
    by (rule stopped_all_processed(1) [OF reachable_invariant [OF inv(1) assms(2)] assms(3)])
  moreover have "sum_list (map ahead ps) = {#}" if "\<forall>q \<in> set ps. q = Done \<or> q = Join \<or> q = Sleeping" for ps
    using that by (induction ps) auto
  ultimately have "left_to_read (procs s) = {#}" using assms(4) by (simp add: left_to_read_def)
  then show "out (world s) = out w @ concat (map snd (written s))" "mset (map snd (taken s)) = buffers_of (all_dirs root)"
    using inv(6,7) by simp_all
  assume t: "t < n"
  then consider "pcs (procs s) ! t = Done" | "pcs (procs s) ! t = Join" | "pcs (procs s) ! t = Sleeping"
    using assms(4) len nth_mem by blast
  then have "work_on (procs s) t = None" "flushed (procs s) t \<or> at_pc t Sleeping (procs s)"
    using t len by (cases, simp_all add: work_on_def flushed_def at_pc_def)+
  then show "concat (of_worker t (written s)) @ bufs s ! t = concat (map (\<lambda>x. concat (pieces x)) (of_worker t (taken s)))"
    "bufs s ! t = [] \<or> at_pc t Sleeping (procs s)"
    using inv(8) [OF t] by (auto simp: worker_ok_def)
qed

lemma finished_output:
  assumes "workers_inv out good pieces n root w s" "0 < n" "\<forall>q \<in> set (pcs (procs s)). q = Done"
  shows "out (world s) = out w @ concat (map snd (written s))" "mset (map snd (taken s)) = buffers_of (all_dirs root)"
    "t < n \<Longrightarrow> concat (of_worker t (written s)) = concat (map (\<lambda>x. concat (pieces x)) (of_worker t (taken s)))"
proof -
  note inv = invD(1) [OF assms(1)]
  have len: "length (pcs (procs s)) = n" by (rule reachable_threads [OF inv])
  have "at_pc 0 Done (procs s)" using assms(2,3) len by (auto simp: at_pc_def)
  moreover have "inv_stop (procs s)" using reachable_invariant [OF inv assms(2)] by (simp add: invariant_def)
  ultimately have "\<not> running (procs s)" using past_loop_stopped by simp
  note ends = stopped_output [OF assms(1,2) this]
  show "out (world s) = out w @ concat (map snd (written s))" "mset (map snd (taken s)) = buffers_of (all_dirs root)"
    using ends(1,2) assms(3) by simp_all
  assume t: "t < n"
  then have "pcs (procs s) ! t = Done" using assms(3) len nth_mem by blast
  then have "\<not> at_pc t Sleeping (procs s)" by (simp add: at_pc_def)
  then show "concat (of_worker t (written s)) = concat (map (\<lambda>x. concat (pieces x)) (of_worker t (taken s)))"
    using ends(3,4) [OF _ t] assms(3) by simp
qed

end

lemma length_match_line: "length (match_line c m) \<le> length c"
  by (simp add: match_line_def sv_substr_def Let_def)

lemma block_pieces_small:
  assumes "\<And>d i c. c \<in> set (chunks d i) \<Longrightarrow> length c \<le> unat read_file_max_size" "y \<in> set (block_pieces hs_scan chunks x)"
  shows "length y \<le> 2 ^ 62"
proof -
  obtain c where c: "c \<in> set (chunks (fst x) (snd x))" "y \<in> set (match_pieces hs_scan c)"
    using assms(2) by (auto simp: block_pieces_def)
  have "length y \<le> max (length c) 1" using c(2) length_match_line [of c] by (auto simp: match_pieces_def max_def intro: order_trans)
  then show ?thesis using assms(1) [OF c(1)] by (simp add: max_def split: if_splits)
qed

lemma concat_block_pieces: "concat (block_pieces hs_scan chunks (d, i)) = scan_output hs_scan (chunks d i)"
proof -
  have "concat (concat (map (match_pieces hs_scan) cs)) = scan_output hs_scan cs" for cs
    by (induction cs) (simp_all add: concat_match_pieces, simp_all add: scan_output_def)
  then show ?thesis by (simp add: block_pieces_def)
qed

lemma sim_pread_out: "sim_out (snd (sim_do_pread fd cnt off w)) = sim_out w"
proof -
  obtain r bs w' where call: "sim_do_pread fd cnt off w = ((r, bs), w')" by (metis prod.exhaust)
  then show ?thesis using sim_pread_law [OF call] by auto
qed

lemma sim_getdents_out: "sim_out (snd (sim_do_getdents fd k w)) = sim_out w"
  by (simp add: sim_do_getdents_def split: list.split)

interpretation sim_workers: workers_kernel sim_os sim_out "\<lambda>w. True"
proof
  fix w w' :: sim
  assume "other_call sim_os w w'"
  then show "True \<and> sim_out w' = sim_out w"
    unfolding other_call_def by (auto simp: sim_getdents_out sim_pread_out)
qed

section \<open>Schedules\<close>

text \<open>What a given thread does next, for runs that can be computed.\<close>

definition thread_turn ::
  "'w os \<Rightarrow> (bytes \<Rightarrow> int \<times> (nat \<times> nat) list) \<Rightarrow> (dir \<Rightarrow> nat \<Rightarrow> bytes list) \<Rightarrow> nat \<Rightarrow> proc \<Rightarrow> 'w workers_state \<Rightarrow>
   'w workers_state option" where
  "thread_turn os hs_scan chunks t p s =
     (if pcs (procs s) ! t = Flushing then
        (case grep_flush os (bufs s ! t, world s) of
           Some (Inr k, buf', w') \<Rightarrow>
             Some (s\<lparr>procs := p, bufs := (bufs s)[t := []], world := w', written := written s @ [(t, bufs s ! t)]\<rparr>)
         | _ \<Rightarrow> None)
      else
        (case work_on p t of
           Some (d, bs) \<Rightarrow>
             (if scans_well hs_scan chunks (d, buffer_no d bs) then
                Some (s\<lparr>procs := p, todo := (todo s)[t := block_pieces hs_scan chunks (d, buffer_no d bs)],
                  taken := taken s @ [(t, d, buffer_no d bs)]\<rparr>)
              else None)
         | None \<Rightarrow> Some (s\<lparr>procs := p\<rparr>)))"

definition workers_turn ::
  "'w os \<Rightarrow> (bytes \<Rightarrow> int \<times> (nat \<times> nat) list) \<Rightarrow> (dir \<Rightarrow> nat \<Rightarrow> bytes list) \<Rightarrow> nat \<Rightarrow> 'w workers_state \<Rightarrow>
   'w workers_state option" where
  "workers_turn os hs_scan chunks t s =
     (if work_on (procs s) t \<noteq> None \<and> todo s ! t \<noteq> [] then
        (case batch_node (write_node os) (hd (todo s ! t)) (bufs s ! t, world s) of
           Some (Inr k, buf', w') \<Rightarrow>
             Some (s\<lparr>todo := (todo s)[t := tl (todo s ! t)], bufs := (bufs s)[t := buf'], world := w',
               written := written s @ (if size_of (bufs s ! t @ hd (todo s ! t)) \<ge> buffer_size
                 then [(t, bufs s ! t @ hd (todo s ! t))] else [])\<rparr>)
         | _ \<Rightarrow> None)
      else Option.bind (turn t (procs s)) (\<lambda>p. thread_turn os hs_scan chunks t p s))"

fun workers_play ::
  "'w os \<Rightarrow> (bytes \<Rightarrow> int \<times> (nat \<times> nat) list) \<Rightarrow> (dir \<Rightarrow> nat \<Rightarrow> bytes list) \<Rightarrow> nat list \<Rightarrow> 'w workers_state \<Rightarrow>
   'w workers_state option" where
  "workers_play os hs_scan chunks [] s = Some s"
| "workers_play os hs_scan chunks (t # ts) s =
     Option.bind (workers_turn os hs_scan chunks t s) (workers_play os hs_scan chunks ts)"

lemma turn_others:
  assumes "turn t p = Some p'" "u \<noteq> t"
  shows "work_on p' u = work_on p u" "at_pc u Flushing p \<Longrightarrow> at_pc u Flushing p'"
proof -
  have t: "t < length (pcs p)" using assms(1) by (auto simp: turn_def split: if_splits)
  have "(\<exists>q. pcs p' = (pcs p)[t := q]) \<or> (\<exists>q. pcs p' = (map wake (pcs p))[t := q]) \<or>
      (\<exists>q. at_pc (sleeper p) Sleeping p \<and> pcs p' = (pcs p)[sleeper p := Acquire, t := q])"
    using assms(1) t sleeper_at [of p]
    by (cases "pcs p ! t") (auto simp: turn_def split: if_splits list.splits)
  then show "work_on p' u = work_on p u" "at_pc u Flushing p \<Longrightarrow> at_pc u Flushing p'"
    using assms(2) t by (auto simp: work_on_def at_pc_def nth_list_update wake_def split: if_splits)
qed

lemma work_on_shape: "work_on p t = Some x \<Longrightarrow> \<exists>d b bs. x = (d, b # bs)"
  by (cases x) (auto simp: work_on_def split: if_splits)

text \<open>A turn that puts a piece into the batch, and a turn of the thread itself.\<close>

lemma put_turn_step:
  assumes "work_on (procs s) t \<noteq> None" "todo s ! t \<noteq> []" "workers_turn os hs_scan chunks t s = Some s'"
  shows "workers_step os hs_scan chunks s s'"
proof -
  obtain d b bs x xs where work: "work_on (procs s) t = Some (d, b # bs)" and todo: "todo s ! t = x # xs"
    using assms(1,2) work_on_shape by (metis neq_Nil_conv option.exhaust)
  obtain k buf' w' where put: "batch_node (write_node os) x (bufs s ! t, world s) = Some (Inr k, buf', w')"
    using assms(3) work todo by (auto simp: workers_turn_def split: option.splits sum.splits)
  have s': "s' = s\<lparr>todo := (todo s)[t := xs], bufs := (bufs s)[t := buf'], world := w',
      written := written s @ (if size_of (bufs s ! t @ x) \<ge> buffer_size then [(t, bufs s ! t @ x)] else [])\<rparr>"
    using assms(3) by (auto simp: workers_turn_def work todo put)
  show ?thesis unfolding s' by (rule put_piece [OF _ todo put]) (simp add: at_scan work)
qed

lemma thread_turn_step:
  assumes "turn t (procs s) = Some p" "thread_turn os hs_scan chunks t p s = Some s'"
    "work_on (procs s) t = None \<or> todo s ! t = []"
  shows "workers_step os hs_scan chunks s s'"
proof -
  note new = assms(2) [unfolded thread_turn_def] and others = turn_others [OF assms(1)] and step = turn_step [OF assms(1)]
  have t: "t < length (pcs (procs s))" using assms(1) by (auto simp: turn_def split: if_splits)
  consider (flush) "pcs (procs s) ! t = Flushing"
    | (read) d b bs where "pcs (procs s) ! t \<noteq> Flushing" "work_on p t = Some (d, b # bs)"
    | (idle) "pcs (procs s) ! t \<noteq> Flushing" "work_on p t = None" "work_on (procs s) t = None"
    | (publish) d b bs where "pcs (procs s) ! t \<noteq> Flushing" "work_on p t = None" "work_on (procs s) t = Some (d, b # bs)"
    using work_on_shape by (metis option.exhaust)
  then show ?thesis
  proof cases
    case flush
    then have "pcs p ! t \<noteq> Flushing" using assms(1) t by (auto simp: turn_def split: if_splits)
    then show ?thesis
      using flush new t step by (auto simp: at_pc_def split: option.splits sum.splits intro!: last_flush)
  next
    case (read d b bs)
    have "work_on (procs s) t \<noteq> Some (d, b # bs)"
      using assms(1) t read(2) by (cases "pcs (procs s) ! t") (auto simp: turn_def work_on_def split: if_splits list.splits)
    then show ?thesis
      using read new step by (auto simp: at_scan intro!: read_buffer split: if_splits)
  next
    case idle
    then have s': "s' = s\<lparr>procs := p\<rparr>" and "work_on p = work_on (procs s)" using new others(1) by (simp, metis ext)
    moreover have "at_pc u Flushing p" if "at_pc u Flushing (procs s)" for u
      using others(2) [of u] that idle(1) by (cases "u = t") (auto simp: at_pc_def)
    ultimately show ?thesis unfolding s' by (intro other [OF step]) (simp_all add: at_scan)
  next
    case (publish d b bs)
    then have s': "s' = s\<lparr>procs := p\<rparr>" using new by simp
    show ?thesis unfolding s' using publish assms(3) step by (intro workers_step.publish) (auto simp: at_scan)
  qed
qed

lemma workers_turn_step:
  assumes "workers_turn os hs_scan chunks t s = Some s'"
  shows "workers_step os hs_scan chunks s s'"
proof (cases "work_on (procs s) t \<noteq> None \<and> todo s ! t \<noteq> []")
  case True
  then show ?thesis using put_turn_step assms by blast
next
  case False
  then have "Option.bind (turn t (procs s)) (\<lambda>p. thread_turn os hs_scan chunks t p s) = Some s'"
    using assms unfolding workers_turn_def if_not_P [OF False] by simp
  then obtain p where "turn t (procs s) = Some p" "thread_turn os hs_scan chunks t p s = Some s'"
    by (auto simp: bind_eq_Some_conv)
  then show ?thesis by (rule thread_turn_step) (use False in blast)
qed

lemma workers_play_reach:
  "workers_play os hs_scan chunks ts s = Some s' \<Longrightarrow> workers_reach os hs_scan chunks n root w s \<Longrightarrow>
     workers_reach os hs_scan chunks n root w s'"
proof (induction ts arbitrary: s)
  case (Cons t ts)
  then obtain s1 where turn: "workers_turn os hs_scan chunks t s = Some s1" "workers_play os hs_scan chunks ts s1 = Some s'"
    by (auto simp: bind_eq_Some_conv)
  show ?case by (rule Cons.IH [OF turn(2) goes_on [OF Cons.prems(2) workers_turn_step [OF turn(1)]]])
qed simp

text \<open>A tree with a file in the root and one in a directory, found by the second buffer of the root.\<close>

definition two_files :: dir where
  "two_files = Dir 3 [[], [Dir 4 [[]]]]"

definition some_chunks :: "dir \<Rightarrow> nat \<Rightarrow> bytes list" where
  "some_chunks d i = (if dir_fd d = 3 then if i = 0 then [''a''] else [] else [''b''])"

definition first_char :: "bytes \<Rightarrow> int \<times> (nat \<times> nat) list" where
  "first_char c = (0, [(0, 1)])"

lemma size_short: "length xs < 65536 \<Longrightarrow> \<not> buffer_size \<le> size_of xs"
  by (simp add: not_le word_less_nat_alt unat_size_of)

lemma batch_short: "length (b @ x) < 65536 \<Longrightarrow> batch_node put x (b, w) = Some (Inr 0, b @ x, w)"
  using size_short [of "b @ x"] by (simp add: batch_node_def Let_def)

lemma sim_write_all:
  assumes "sim_script w = []" "length d < 2 ^ 63"
  shows "write_node sim_os d False w = Some (Inr (size_of d), w\<lparr>sim_out := sim_out w @ d\<rparr>)"
proof (cases "d = []")
  case True
  then show ?thesis by (simp add: write_node_def write_loop.simps)
next
  case False
  have size: "unat (size_of d) = length d" using assms(2) by (simp add: size_simps)
  then have "0 < size_of d" using False by (simp add: word_less_nat_alt)
  moreover have "word_of_int (int (length d)) = size_of d" by (simp add: size_of_def)
  ultimately show ?thesis
    using assms(1)
    by (simp add: write_node_def write_loop.simps [of _ _ 0] sim_do_write_def sim_grant_def write_loop.simps [of _ _ "size_of d"])
qed

lemma sim_flush_all:
  "sim_script w = [] \<Longrightarrow> length b < 2 ^ 63 \<Longrightarrow>
     grep_flush sim_os (b, w) = Some (Inr (size_of b), b, w\<lparr>sim_out := sim_out w @ b\<rparr>)"
  by (simp add: grep_flush_def batch_flush_def sim_write_all)

definition both_work :: "nat list" where
  "both_work = [0, 0, 1, 0, 0, 0, 0, 0, 1, 1, 1, 0, 0, 0, 1, 1, 1, 0, 0, 0, 1, 1, 1, 0,
     0, 0, 1, 1, 1, 0, 0, 1, 1, 1, 1, 0, 0, 0, 1, 1, 1, 0, 0, 0, 1, 0, 0, 0, 0]"

lemma short_texts:
  assumes "length b \<le> Suc (Suc (Suc 0))"
  shows "\<not> 65536 \<le> size_of b"
    "sim_script w = [] \<Longrightarrow> grep_flush sim_os (b, w) = Some (Inr (size_of b), b, w\<lparr>sim_out := sim_out w @ b\<rparr>)"
  using size_short [of b] sim_flush_all [of w b] assms by simp_all

lemma short_pieces: "length (b @ x) \<le> Suc (Suc (Suc 0)) \<Longrightarrow> batch_node put x (b, w) = Some (Inr 0, b @ x, w)"
  by (rule batch_short) simp

lemma sim0_fields: "sim_script sim0 = []" "sim_out sim0 = []"
  by (simp_all add: sim0_def)

lemmas workers_play_simps = workers_start_def workers_turn_def thread_turn_def turn_def start_def goto_def wake_def
  sleeper_def work_on_def two_files_def block_pieces_def match_pieces_def scans_well_def some_chunks_def first_char_def buffer_no_def
  match_line_def sv_substr_def sv_find_last_of_def sv_find_def Let_def short_texts short_pieces numeral_2_eq_2 sim0_fields

definition both_end :: "sim workers_state" where
  "both_end = \<lparr>procs = \<lparr>queue = [], mutex = None, running = False, pending = 0, pcs = [Done, Done],
       processed = {#two_files, Dir 4 [[]]#}\<rparr>,
     todo = [[], []], bufs = [[], []], world = sim0\<lparr>sim_out := ''b'' @ [newline] @ ''a'' @ [newline]\<rparr>,
     written = [(1, ''b'' @ [newline]), (0, ''a'' @ [newline])],
     taken = [(0, two_files, 0), (0, two_files, 1), (1, Dir 4 [[]], 0)]\<rparr>"

lemma both_run: "workers_play sim_os first_char some_chunks both_work (workers_start 2 two_files sim0) = Some both_end"
  by (simp add: both_work_def both_end_def workers_play_simps)

section \<open>Lines of different workers\<close>

text \<open>The same tree where the file in the root is one line as long as a batch.\<close>

definition long_line :: bytes where
  "long_line = replicate 65536 (CHR ''a'')"

definition long_chunks :: "dir \<Rightarrow> nat \<Rightarrow> bytes list" where
  "long_chunks d i = (if dir_fd d = 3 then if i = 0 then [long_line] else [] else [''b''])"

lemma long_line_facts: "length long_line = 65536" "newline \<notin> set long_line" "long_line \<noteq> []"
  by (simp_all add: long_line_def)

lemma long_size: "65536 \<le> size_of long_line"
  by (simp add: word_le_nat_alt unat_size_of long_line_facts)

lemma match_line_whole: "newline \<notin> set c \<Longrightarrow> k \<le> length c \<Longrightarrow> match_line c k = c"
proof -
  assume "newline \<notin> set c" "k \<le> length c"
  then obtain pre post where c: "c = pre @ match_line c k @ post"
      "pre = [] \<or> last pre = newline" "post = [] \<or> hd post = newline"
    using match_line_spec [of k c] by auto
  with \<open>newline \<notin> set c\<close> have "pre = []" "post = []"
    by (metis Un_iff last_in_set set_append, metis Un_iff hd_in_set set_append)
  with c(1) show "match_line c k = c" by simp
qed

lemma long_piece:
  "sim_script w = [] \<Longrightarrow>
     batch_node (write_node sim_os) long_line ([], w) = Some (Inr (size_of long_line), [], w\<lparr>sim_out := sim_out w @ long_line\<rparr>)"
  using sim_write_all [of w long_line] long_size by (simp add: batch_node_def Let_def long_line_facts)

lemma long_pieces: "match_pieces first_char long_line = [long_line, [newline]]" "match_pieces first_char ''b'' = [''b'', [newline]]"
  using match_line_whole [of long_line 1] match_line_whole [of "''b''" 1]
  by (simp_all add: match_pieces_def first_char_def long_line_facts)

lemma long_scans: "fst (first_char c) = 0"
  by (simp add: first_char_def)

definition joined_end :: "sim workers_state" where
  "joined_end = \<lparr>procs = \<lparr>queue = [], mutex = None, running = False, pending = 0, pcs = [Done, Done],
       processed = {#two_files, Dir 4 [[]]#}\<rparr>,
     todo = [[], []], bufs = [[], []], world = sim0\<lparr>sim_out := long_line @ ''b'' @ [newline] @ [newline]\<rparr>,
     written = [(0, long_line), (1, ''b'' @ [newline]), (0, [newline])],
     taken = [(0, two_files, 0), (0, two_files, 1), (1, Dir 4 [[]], 0)]\<rparr>"

lemma joined_run: "workers_play sim_os first_char long_chunks both_work (workers_start 2 two_files sim0) = Some joined_end"
  by (simp add: both_work_def joined_end_def workers_start_def workers_turn_def thread_turn_def turn_def start_def goto_def wake_def
  sleeper_def work_on_def two_files_def block_pieces_def scans_well_def long_chunks_def buffer_no_def
  Let_def short_texts short_pieces numeral_2_eq_2 sim0_fields long_size long_piece long_pieces long_scans)

section \<open>Properties\<close>

text \<open>
  C4. Everything is printed, once, under every interleaving of the workers. When all threads have ended and no write
  has failed: the output is made of whole texts given to \<^verbatim>\<open>Write\<close>, uncut; the \<^verbatim>\<open>getdents64\<close> buffers of all directories of the
  tree have been worked through, each by one worker and once; and the texts of a worker, put together,
  are the lines of all matches in the files of the buffers it took, in order.
\<close>

theorem workers_print_everything:
  assumes "workers_kernel os out good" "workers_reach os hs_scan chunks n root w s" "good w" "0 < n"
    "\<And>d i c. c \<in> set (chunks d i) \<Longrightarrow> length c \<le> unat read_file_max_size"
    "\<forall>q \<in> set (pcs (procs s)). q = Done"
  shows "out (world s) = out w @ concat (map snd (written s)) \<and> mset (map snd (taken s)) = buffers_of (all_dirs root) \<and>
    (\<forall>t < n. concat (of_worker t (written s)) =
       concat (map (\<lambda>(d, i). scan_output hs_scan (chunks d i)) (of_worker t (taken s))))"
proof -
  have "workers_inv out good (block_pieces hs_scan chunks) n root w s"
    by (rule workers_kernel.reach_inv [OF assms(1-3)]) (rule block_pieces_small [OF assms(5)])
  note ends = workers_kernel.finished_output [OF assms(1) this assms(4,6)]
  have "(\<lambda>x. concat (block_pieces hs_scan chunks x)) = (\<lambda>(d, i). scan_output hs_scan (chunks d i))"
    by (auto simp: concat_block_pieces)
  then show ?thesis using ends by simp
qed

theorem workers_print_everything_witness:
  "sim_out (world both_end) = concat (map snd (written both_end)) \<and>
   mset (map snd (taken both_end)) = buffers_of (all_dirs two_files) \<and>
   concat (of_worker 1 (written both_end)) = scan_output first_char (some_chunks (Dir 4 [[]]) 0)"
proof -
  have reach: "workers_reach sim_os first_char some_chunks 2 two_files sim0 both_end"
    by (rule workers_play_reach [OF both_run workers_reach.begins])
  have small: "length c \<le> unat read_file_max_size" if "c \<in> set (some_chunks d i)" for d i c
    using that by (auto simp: some_chunks_def split: if_splits)
  have all: "\<forall>q \<in> set (pcs (procs both_end)). q = Done" by (simp add: both_end_def)
  from workers_print_everything [OF sim_workers.workers_kernel_axioms reach _ _ small all]
  show ?thesis by (simp add: sim0_fields) (simp add: both_end_def)
qed

text \<open>
  C9. Lines of different workers can be joined. \<^verbatim>\<open>VectorScan\<close> hands a line and its newline to \<^verbatim>\<open>Batch\<close> in two calls, and
  the batch is written as soon as it is full, which may be between the two. Another worker may write there: here two
  workers search two files, a line of 64 KiB and the line \<open>b\<close>; all goes well, and what is printed is the first
  line with the \<open>b\<close> at its end and then an empty line.
\<close>

theorem lines_of_workers_can_join:
  "workers_reach sim_os first_char long_chunks 2 two_files sim0 joined_end \<and>
   pcs (procs joined_end) = [Done, Done] \<and>
   scan_output first_char [long_line] = long_line @ [newline] \<and> scan_output first_char [''b''] = ''b'' @ [newline] \<and>
   sim_out (world joined_end) = (long_line @ ''b'') @ [newline] @ [] @ [newline]"
  using workers_play_reach [OF joined_run workers_reach.begins]
    concat_match_pieces [of first_char long_line] concat_match_pieces [of first_char "''b''"]
  unfolding long_pieces by (simp add: joined_end_def)

end
