(* ===== verification/Grep_Progress.thy ===== *)
theory Grep_Progress
  imports Grep_Parallel
begin

section \<open>The workers finish\<close>

text \<open>
  Total correctness of the workers of \<^verbatim>\<open>commands/grep.h\<close> with their output, on a kernel whose writes do not fail
  (they may be short): a step of a worker is paid for by what is left to do, and as long as the threads
  are not all at their end, asleep or joining, one of them can take a step. System calls other than
  writes happen between the steps and are not counted; spurious wake-ups are left out, as they could go on for ever.
\<close>

definition busy_step ::
  "'w os \<Rightarrow> (bytes \<Rightarrow> int \<times> (nat \<times> nat) list) \<Rightarrow> (dir \<Rightarrow> nat \<Rightarrow> bytes list) \<Rightarrow> 'w workers_state \<Rightarrow> 'w workers_state \<Rightarrow> bool" where
  "busy_step os hs_scan chunks s s' \<longleftrightarrow>
     workers_step os hs_scan chunks s s' \<and> (procs s' = procs s \<or> step (procs s) (procs s')) \<and>
     (procs s' \<noteq> procs s \<or> todo s' \<noteq> todo s)"

inductive busy_run ::
  "'w os \<Rightarrow> (bytes \<Rightarrow> int \<times> (nat \<times> nat) list) \<Rightarrow> (dir \<Rightarrow> nat \<Rightarrow> bytes list) \<Rightarrow> nat \<Rightarrow> dir \<Rightarrow> 'w \<Rightarrow> nat \<Rightarrow> 'w workers_state \<Rightarrow> bool"
  for os hs_scan chunks n root w where
  begins: "busy_run os hs_scan chunks n root w 0 (workers_start n root w)"
| busy: "busy_run os hs_scan chunks n root w k s \<Longrightarrow> busy_step os hs_scan chunks s s' \<Longrightarrow>
    busy_run os hs_scan chunks n root w (Suc k) s'"
| calls: "busy_run os hs_scan chunks n root w k s \<Longrightarrow> other_call os (world s) w' \<Longrightarrow>
    busy_run os hs_scan chunks n root w k (s\<lparr>world := w'\<rparr>)"

lemma busy_run_reach: "busy_run os hs_scan chunks n root w k s \<Longrightarrow> workers_reach os hs_scan chunks n root w s"
proof (induction rule: busy_run.induct)
  case (busy k s s')
  then show ?case by (auto simp: busy_step_def intro: workers_reach.goes_on)
next
  case (calls k s w')
  then show ?case by (blast intro: workers_reach.goes_on workers_step.call)
qed (rule workers_reach.begins)

section \<open>What is left to do\<close>

definition load :: "(dir \<times> nat \<Rightarrow> bytes list) \<Rightarrow> 'w workers_state \<Rightarrow> nat" where
  "load pieces s = effort_left (procs s) + sum_list (map length (todo s)) +
     (\<Sum>x \<in># left_to_read (procs s). length (pieces x))"

lemma length_todo_update:
  "t < length xs \<Longrightarrow> sum_list (map length (xs[t := y])) + length (xs ! t) = sum_list (map length xs) + length y"
  by (rule effort_update)

lemma load_thread_step:
  assumes "step (procs s) p" "invariant root (procs s)" "left_to_read p = left_to_read (procs s)"
    "procs s' = p" "todo s' = todo s"
  shows "load pieces s' < load pieces s"
  using step_effort [OF assms(1,2)] assms(3-5) by (simp add: load_def)

lemma load_read_buffer:
  assumes "workers_inv out good pieces n root w s" "0 < n" "step (procs s) p"
    "at_pc t (Scan d (b # bs)) p" "\<not> at_pc t (Scan d (b # bs)) (procs s)"
    "procs s' = p" "todo s' = (todo s)[t := pieces (d, buffer_no d (b # bs))]"
  shows "load pieces s' < load pieces s"
proof -
  have inv: "reachable n root (procs s)" "\<forall>q \<in> set (pcs (procs s)). batches_left q" "length (todo s) = n"
      "t < n \<Longrightarrow> worker_ok pieces s t"
    using assms(1) by (simp_all add: workers_inv_def)
  note moved = moves_to_work [OF step_moves [OF assms(3) inv(2)] assms(4) [unfolded at_scan] assms(5) [unfolded at_scan]]
  have t: "t < n" using assms(4) reachable_threads [OF reachable.step [OF inv(1) assms(3)]] by (simp add: at_pc_def)
  then have "todo s ! t = []" using inv(4) moved(1) by (simp add: worker_ok_def)
  then have "sum_list (map length (todo s')) = sum_list (map length (todo s)) + length (pieces (d, buffer_no d (b # bs)))"
    using length_todo_update [of t "todo s" "pieces (d, buffer_no d (b # bs))"] t inv(3) assms(7) by simp
  moreover have "(\<Sum>x \<in># left_to_read (procs s). length (pieces x)) =
      length (pieces (d, buffer_no d (b # bs))) + (\<Sum>x \<in># left_to_read p. length (pieces x))"
    unfolding moved(3) [symmetric] by simp
  ultimately show ?thesis
    using step_effort [OF assms(3) reachable_invariant [OF inv(1) assms(2)]] assms(6) by (simp add: load_def)
qed

lemma busy_step_load:
  assumes "workers_inv out good (block_pieces hs_scan chunks) n root w s" "0 < n" "busy_step os hs_scan chunks s s'"
  shows "load (block_pieces hs_scan chunks) s' < load (block_pieces hs_scan chunks) s"
proof -
  have inv: "reachable n root (procs s)" "\<forall>q \<in> set (pcs (procs s)). batches_left q" "length (todo s) = n"
    using assms(1) by (simp_all add: workers_inv_def)
  note threads = load_thread_step [OF _ reachable_invariant [OF inv(1) assms(2)]]
  have s': "workers_step os hs_scan chunks s s'" "procs s' = procs s \<or> step (procs s) (procs s')"
      "procs s' \<noteq> procs s \<or> todo s' \<noteq> todo s"
    using assms(3) by (simp_all add: busy_step_def)
  from s'(1) show ?thesis
  proof cases
    case (other p)
    have "work_on p = work_on (procs s)" using work_on_scans [of _ p "procs s"] other(3) by (intro ext) blast
    then show ?thesis
      using moves_no_work [OF step_moves [OF other(2) inv(2)]] other by (intro threads [of p]) simp_all
  next
    case (read_buffer p t d b bs)
    then show ?thesis by (intro load_read_buffer [OF assms(1,2) read_buffer(2-4)]) simp_all
  next
    case (put_piece t d b bs x xs k buf' w')
    have "t < length (todo s)" using put_piece(2) inv(3) reachable_threads [OF inv(1)] by (simp add: at_pc_def)
    then show ?thesis using length_todo_update [of t "todo s" xs] put_piece(1,3) by (simp add: load_def)
  next
    case (publish t d b bs p)
    note moved = moves_from_work [OF step_moves [OF publish(4) inv(2)] publish(2) [unfolded at_scan] publish(5) [unfolded at_scan]]
    then show ?thesis using publish by (intro threads [of p]) simp_all
  next
    case (last_flush t k buf' w' p)
    then show ?thesis
      using flush_step_rest(2) [OF last_flush(4,2,5)] by (intro threads [of p]) simp_all
  next
    case (call w')
    then show ?thesis using s'(3) by simp
  next
    case (woken p)
    then show ?thesis using s'(2,3) spurious_same(2) [OF woken(2)] by (intro threads [of p]) auto
  qed
qed

section \<open>Somebody can go on\<close>

text \<open>Writes may be short but do not fail.\<close>

locale willing_workers = workers_kernel +
  assumes write_succeeds: "good w \<Longrightarrow> fst (sys_write os STDOUT_FILENO bs w) \<noteq> -1"
begin

lemma write_returns:
  assumes "good w" "length d < 2 ^ 63"
  shows "\<exists>k w'. write_node os d False w = Some (Inr k, w')"
proof -
  have ok: "fst (sys_write os STDOUT_FILENO bs v) \<noteq> -1 \<and> good (snd (sys_write os STDOUT_FILENO bs v))" if "good v" for bs v
    using write_succeeds [OF that] write_law [OF that, of bs "fst (sys_write os STDOUT_FILENO bs v)"] by simp
  obtain r w' where run: "write_node os d False w = Some (r, w')" using write_node_law [OF assms, of False] by blast
  then show ?thesis using write_node_no_error_in [of good, OF ok assms(1) run] by blast
qed

lemma batch_returns:
  assumes "good w" "length (b @ x) < 2 ^ 63"
  shows "\<exists>k b' w'. batch_node (write_node os) x (b, w) = Some (Inr k, b', w')"
    "\<exists>k b' w'. grep_flush os (b, w) = Some (Inr k, b', w')"
proof -
  show "\<exists>k b' w'. batch_node (write_node os) x (b, w) = Some (Inr k, b', w')"
    using write_returns [OF assms] by (auto simp: batch_node_def Let_def)
  have "length b < 2 ^ 63" using assms(2) by simp
  from write_returns [OF assms(1) this] show "\<exists>k b' w'. grep_flush os (b, w) = Some (Inr k, b', w')"
    by (auto simp: grep_flush_def batch_flush_def)
qed

lemma turn_possible:
  assumes "workers_inv out good pieces n root w s" "turn t (procs s) = Some p" "\<And>x. scans_well hs_scan chunks x"
  shows "workers_turn os hs_scan chunks t s \<noteq> None"
proof -
  have "t < n" using assms(2) reachable_threads [OF invD(1) [OF assms(1)]] by (auto simp: turn_def split: if_splits)
  then have ok: "worker_ok pieces s t" by (rule invD(8) [OF assms(1)])
  have world: "good (world s)" by (rule invD(5) [OF assms(1)])
  show ?thesis
  proof (cases "work_on (procs s) t \<noteq> None \<and> todo s ! t \<noteq> []")
    case True
    then have "length (hd (todo s ! t)) \<le> 2 ^ 62" "length (bufs s ! t) < unat buffer_size"
      using ok by (simp_all add: worker_ok_def)
    then have "length (bufs s ! t @ hd (todo s ! t)) < 2 ^ 63" by simp
    from batch_returns(1) [OF world this] show ?thesis using True by (auto simp: workers_turn_def)
  next
    case False
    have "length (bufs s ! t @ []) < 2 ^ 63" using ok by (simp add: worker_ok_def)
    from batch_returns(2) [OF world this]
    have "thread_turn os hs_scan chunks t p s \<noteq> None"
      using assms(3) by (auto simp: thread_turn_def split: option.splits)
    then show ?thesis using assms(2) unfolding workers_turn_def if_not_P [OF False] by simp
  qed
qed

lemma turn_is_busy:
  assumes "workers_inv out good pieces n root w s" "0 < n" "workers_turn os hs_scan chunks t s = Some s'"
  shows "busy_step os hs_scan chunks s s'"
proof (cases "work_on (procs s) t \<noteq> None \<and> todo s ! t \<noteq> []")
  case True
  then obtain buf' w' ws where s': "s' = s\<lparr>todo := (todo s)[t := tl (todo s ! t)], bufs := buf', world := w', written := ws\<rparr>"
    using assms(3) by (auto simp: workers_turn_def split: option.splits sum.splits prod.splits)
  have "t < length (todo s)"
    using True invD(3) [OF assms(1)] reachable_threads [OF invD(1) [OF assms(1)]] by (auto simp: work_on_def split: if_splits)
  moreover have "tl (todo s ! t) \<noteq> todo s ! t" using True by (cases "todo s ! t") auto
  ultimately have "todo s' \<noteq> todo s" by (simp add: s' list_update_same_conv)
  then show ?thesis using workers_turn_step [OF assms(3)] s' by (simp add: busy_step_def)
next
  case False
  then obtain p where turn: "turn t (procs s) = Some p" "thread_turn os hs_scan chunks t p s = Some s'"
    using assms(3) unfolding workers_turn_def if_not_P [OF False] by (auto simp: bind_eq_Some_conv)
  have "procs s' = p" using turn(2) by (auto simp: thread_turn_def split: option.splits sum.splits if_splits)
  moreover have "effort_left p < effort_left (procs s)"
    by (rule step_effort [OF turn_step [OF turn(1)] reachable_invariant [OF invD(1) [OF assms(1)] assms(2)]])
  ultimately show ?thesis using workers_turn_step [OF assms(3)] turn_step [OF turn(1)] by (auto simp: busy_step_def)
qed

lemma progress:
  assumes "workers_inv out good pieces n root w s" "0 < n" "\<not> stuck (procs s)" "\<And>x. scans_well hs_scan chunks x"
  shows "\<exists>s'. busy_step os hs_scan chunks s s'"
proof -
  obtain t where "turn t (procs s) \<noteq> None" using assms(3) step_turn unfolding stuck_def by blast
  then obtain p where "turn t (procs s) = Some p" by blast
  from turn_possible [OF assms(1) this assms(4)] show ?thesis using turn_is_busy [OF assms(1,2)] by blast
qed

lemma stuck_output:
  assumes "workers_inv out good pieces n root w s" "0 < n" "stuck (procs s)"
  shows "\<not> running (procs s)" "\<forall>q \<in> set (pcs (procs s)). q = Done \<or> q = Join \<or> q = Sleeping"
proof -
  note reach = invD(1) [OF assms(1)]
  show "\<not> running (procs s)" by (rule stuck_stopped [OF reach assms(2,3)])
  show "\<forall>q \<in> set (pcs (procs s)). q = Done \<or> q = Join \<or> q = Sleeping"
  proof
    fix q assume "q \<in> set (pcs (procs s))"
    then obtain t where "at_pc t q (procs s)" unfolding at_pc_def in_set_conv_nth by blast
    from stuck_threads [OF reachable_invariant [OF reach assms(2)] reachable_main [OF reach] assms(3) this]
    show "q = Done \<or> q = Join \<or> q = Sleeping" by blast
  qed
qed

lemma busy_run_load:
  assumes "busy_run os hs_scan chunks n root w k s" "good w" "0 < n"
    "\<And>x y. y \<in> set (block_pieces hs_scan chunks x) \<Longrightarrow> length y \<le> 2 ^ 62"
  shows "load (block_pieces hs_scan chunks) s + k \<le> load (block_pieces hs_scan chunks) (workers_start n root w)"
  using assms(1)
proof induction
  case (busy k s s')
  have "workers_inv out good (block_pieces hs_scan chunks) n root w s"
    by (rule reach_inv [OF busy_run_reach [OF busy(1)] assms(2,4)])
  from busy_step_load [OF this assms(3) busy(2)] show ?case using busy(3) by simp
qed (simp_all add: load_def)

lemma play_busy:
  assumes "workers_play os hs_scan chunks ts s = Some s'" "busy_run os hs_scan chunks n root w k s" "good w" "0 < n"
    "\<And>x y. y \<in> set (block_pieces hs_scan chunks x) \<Longrightarrow> length y \<le> 2 ^ 62"
  shows "busy_run os hs_scan chunks n root w (k + length ts) s'"
  using assms(1,2)
proof (induction ts arbitrary: k s)
  case (Cons t ts)
  then obtain s1 where turn: "workers_turn os hs_scan chunks t s = Some s1" "workers_play os hs_scan chunks ts s1 = Some s'"
    by (auto simp: bind_eq_Some_conv)
  have "workers_inv out good (block_pieces hs_scan chunks) n root w s"
    by (rule reach_inv [OF busy_run_reach [OF Cons.prems(2)] assms(3,5)])
  from busy_run.busy [OF Cons.prems(2) turn_is_busy [OF this assms(4) turn(1)]]
  show ?case using Cons.IH [OF turn(2), of "Suc k"] by simp
qed simp

end

lemma load_start:
  "0 < n \<Longrightarrow> load pieces (workers_start n root w) =
     work root + 13 * n + 5 + (\<Sum>x \<in># buffers_of (all_dirs root). length (pieces x))"
proof -
  assume "0 < n"
  moreover have "sum_list (map ahead (replicate n Top)) = {#}" by (induction n) simp_all
  then have "left_to_read (start n root) = buffers_of (all_dirs root)" by (simp add: left_to_read_def start_def)
  moreover have "sum_list (map length (replicate n [])) = 0" by (simp add: sum_list_replicate)
  ultimately show ?thesis by (simp add: load_def workers_start_def effort_start)
qed

lemma sim_pread_script: "sim_script w = [] \<Longrightarrow> sim_script (snd (sim_do_pread fd cnt off w)) = []"
  by (simp add: sim_do_pread_def sim_grant_def Let_def)

lemma sim_getdents_script: "sim_script (snd (sim_do_getdents fd k w)) = sim_script w"
  by (simp add: sim_do_getdents_def split: list.split)

interpretation sim_willing: willing_workers sim_os sim_out "\<lambda>w. sim_script w = []"
proof
  fix w w' :: sim
  show "sim_script w' = [] \<and> (r = -1 \<and> sim_out w' = sim_out w \<or>
       0 \<le> r \<and> nat r \<le> length bs \<and> sim_out w' = sim_out w @ take (nat r) bs \<and> (bs \<noteq> [] \<longrightarrow> 0 < r))"
    if "sim_script w = []" "sys_write sim_os STDOUT_FILENO bs w = (r, w')" for bs r
    using that by (auto simp: sim_do_write_def sim_grant_def split: if_splits)
  show "sim_script w' = [] \<and> sim_out w' = sim_out w" if "sim_script w = []" "other_call sim_os w w'"
    using that unfolding other_call_def by (auto simp: sim_getdents_out sim_pread_out sim_getdents_script sim_pread_script)
  show "fst (sys_write sim_os STDOUT_FILENO bs w) \<noteq> -1" if "sim_script w = []" for bs
    using that by (simp add: sim_do_write_def sim_grant_def)
qed

section \<open>Properties\<close>

text \<open>
  C5. The workers finish, for any number of them, every interleaving and every kernel whose writes do not fail: no run takes more
  steps than a number that is linear in the directories, the \<^verbatim>\<open>getdents64\<close> buffers and the matches of the tree; and a state
  that a run has reached either allows a further step, or everything has been printed: the output is the texts given to
  \<^verbatim>\<open>Write\<close>, every buffer of every directory was worked through once, and the texts of a worker with what its batch
  still holds are the lines of all matches in the buffers it took, where only the batch of a thread that was left asleep
  holds anything.
\<close>
theorem workers_always_finish:
  assumes "willing_workers os out good" "busy_run os hs_scan chunks n root w k s" "good w" "0 < n"
    "\<And>d i c. c \<in> set (chunks d i) \<Longrightarrow> length c \<le> unat read_file_max_size"
    "\<And>x. scans_well hs_scan chunks x"
  shows "k \<le> work root + 13 * n + 5 + (\<Sum>x \<in># buffers_of (all_dirs root). length (block_pieces hs_scan chunks x)) \<and>
    ((\<exists>s'. busy_step os hs_scan chunks s s') \<or>
     out (world s) = out w @ concat (map snd (written s)) \<and> mset (map snd (taken s)) = buffers_of (all_dirs root) \<and>
     (\<forall>t < n. concat (of_worker t (written s)) @ bufs s ! t =
          concat (map (\<lambda>(d, i). scan_output hs_scan (chunks d i)) (of_worker t (taken s))) \<and>
        (bufs s ! t = [] \<or> at_pc t Sleeping (procs s))))"
proof (intro conjI)
  have small: "length y \<le> 2 ^ 62" if "y \<in> set (block_pieces hs_scan chunks x)" for x y
    by (rule block_pieces_small [OF _ that]) (rule assms(5))
  have kernel: "workers_kernel os out good" using assms(1) by (simp add: willing_workers_def)
  show "k \<le> work root + 13 * n + 5 + (\<Sum>x \<in># buffers_of (all_dirs root). length (block_pieces hs_scan chunks x))"
    unfolding load_start [OF assms(4), symmetric, where w = w]
    by (rule add_leD2, rule willing_workers.busy_run_load [OF assms(1-4)], rule small)
  have inv: "workers_inv out good (block_pieces hs_scan chunks) n root w s"
    by (rule workers_kernel.reach_inv [OF kernel busy_run_reach [OF assms(2)] assms(3)]) (rule small)
  have pieces: "(\<lambda>x. concat (block_pieces hs_scan chunks x)) = (\<lambda>(d, i). scan_output hs_scan (chunks d i))"
    by (auto simp: concat_block_pieces)
  show "(\<exists>s'. busy_step os hs_scan chunks s s') \<or>
     out (world s) = out w @ concat (map snd (written s)) \<and> mset (map snd (taken s)) = buffers_of (all_dirs root) \<and>
     (\<forall>t < n. concat (of_worker t (written s)) @ bufs s ! t =
          concat (map (\<lambda>(d, i). scan_output hs_scan (chunks d i)) (of_worker t (taken s))) \<and>
        (bufs s ! t = [] \<or> at_pc t Sleeping (procs s)))"
  proof (cases "stuck (procs s)")
    case False
    then have "\<exists>s'. busy_step os hs_scan chunks s s'"
      by (intro willing_workers.progress [OF assms(1) inv assms(4)] assms(6))
    then show ?thesis by blast
  next
    case True
    note stopped = willing_workers.stuck_output [OF assms(1) inv assms(4) True]
    show ?thesis using workers_kernel.stopped_output [OF kernel inv assms(4) stopped] unfolding pieces by blast
  qed
qed

theorem workers_always_finish_witness:
  "length both_work \<le> work two_files + 13 * 2 + 5 + (\<Sum>x \<in># buffers_of (all_dirs two_files). length (block_pieces first_char some_chunks x)) \<and>
   ((\<exists>s'. busy_step sim_os first_char some_chunks both_end s') \<or>
    sim_out (world both_end) = concat (map snd (written both_end)) \<and>
    concat (of_worker 1 (written both_end)) = scan_output first_char (some_chunks (Dir 4 [[]]) 0))"
proof -
  have small: "length c \<le> unat read_file_max_size" if "c \<in> set (some_chunks d i)" for d i c
    using that by (auto simp: some_chunks_def split: if_splits)
  have pieces: "length y \<le> 2 ^ 62" if "y \<in> set (block_pieces first_char some_chunks x)" for x y
    by (rule block_pieces_small [OF _ that]) (rule small)
  have "busy_run sim_os first_char some_chunks 2 two_files sim0 (0 + length both_work) both_end"
    by (rule sim_willing.play_busy [OF both_run busy_run.begins]) (simp add: sim0_fields, simp, rule pieces)
  then have run: "busy_run sim_os first_char some_chunks 2 two_files sim0 (length both_work) both_end" by simp
  have scans: "scans_well first_char some_chunks x" for x by (simp add: scans_well_def first_char_def list_all_iff)
  have "length both_work \<le> work two_files + 13 * 2 + 5 +
        (\<Sum>x \<in># buffers_of (all_dirs two_files). length (block_pieces first_char some_chunks x)) \<and>
      ((\<exists>s'. busy_step sim_os first_char some_chunks both_end s') \<or>
       sim_out (world both_end) = sim_out sim0 @ concat (map snd (written both_end)) \<and>
       mset (map snd (taken both_end)) = buffers_of (all_dirs two_files) \<and>
       (\<forall>t < 2. concat (of_worker t (written both_end)) @ bufs both_end ! t =
            concat (map (\<lambda>(d, i). scan_output first_char (some_chunks d i)) (of_worker t (taken both_end))) \<and>
          (bufs both_end ! t = [] \<or> at_pc t Sleeping (procs both_end))))"
    by (rule workers_always_finish [OF sim_willing.willing_workers_axioms run])
      (simp add: sim0_fields, simp, rule small, assumption, rule scans)
  moreover have "bufs both_end ! 1 = []" "of_worker 1 (taken both_end) = [(Dir 4 [[]], 0)]" by (simp_all add: both_end_def)
  ultimately show ?thesis by (elim conjE disjE) (auto simp: sim0_fields dest!: spec [of _ 1])
qed

end
