(* ===== verification/Directory_Traverse.thy ===== *)
theory Directory_Traverse
  imports Sim_Kernel Auto_Release
begin

section \<open>The directory traversal source\<close>

text \<open>
  \<^verbatim>\<open>source/directory_traverse_source.h\<close>. \<^verbatim>\<open>std::filesystem\<close> is a record of functions over the world, with
  \<open>None\<close> where the C++ function throws; the operator is \<^verbatim>\<open>noexcept\<close>, so an exception ends the program.
  \<open>'i\<close> is the state of the \<^verbatim>\<open>recursive_directory_iterator\<close>; \<open>fs_entry\<close> answers no path at the end.
\<close>

record ('i, 'w) filesystem =
  fs_exists :: "string \<Rightarrow> 'w \<Rightarrow> bool option"
  fs_is_directory :: "string \<Rightarrow> 'w \<Rightarrow> bool option"
  fs_begin :: "string \<Rightarrow> 'w \<Rightarrow> 'i option"
  fs_entry :: "'i \<Rightarrow> 'w \<Rightarrow> string option"
  fs_increment :: "'i \<Rightarrow> 'w \<Rightarrow> 'i option"
  fs_is_regular_file :: "string \<Rightarrow> 'w \<Rightarrow> bool option"
  fs_file_size :: "string \<Rightarrow> 'w \<Rightarrow> size_t option"

text \<open>One regular file: opened, handed to the next stage with its size, closed.\<close>

definition traverse_file ::
  "'w os \<Rightarrow> ('i, 'w) filesystem \<Rightarrow> (int \<Rightarrow> size_t \<Rightarrow> 'w \<Rightarrow> (size_t expected \<times> 'w) option) \<Rightarrow> string \<Rightarrow> 'w \<Rightarrow>
   (size_t expected outcome \<times> 'w) option" where
  "traverse_file os fs next path w =
     (case sys_openat os AT_FDCWD path O_RDONLY w of
        (r, w1) \<Rightarrow>
          (let fd = ar_make r in
           if \<not> ar_bool (- 1) fd then
             Some (Returned (Inl (''failed to open file: '' @ path)), fd_destroy os fd w1)
           else
             (case fs_file_size fs path w1 of
                None \<Rightarrow> Some (Terminated, w1)
              | Some sz \<Rightarrow>
                  (case next (ar_get fd) sz w1 of
                     None \<Rightarrow> None
                   | Some (processed, w2) \<Rightarrow> Some (Returned processed, fd_destroy os fd w2)))))"

partial_function (option) traverse_loop ::
  "'w os \<Rightarrow> ('i, 'w) filesystem \<Rightarrow> (int \<Rightarrow> size_t \<Rightarrow> 'w \<Rightarrow> (size_t expected \<times> 'w) option) \<Rightarrow> 'i \<Rightarrow> size_t \<Rightarrow> 'w \<Rightarrow>
   (size_t expected outcome \<times> 'w) option" where
  "traverse_loop os fs next it matches w =
     (case fs_entry fs it w of
        None \<Rightarrow> Some (Returned (Inr matches), w)
      | Some path \<Rightarrow>
          (case fs_is_regular_file fs path w of
             None \<Rightarrow> Some (Terminated, w)
           | Some regular \<Rightarrow>
               (case (if regular then traverse_file os fs next path w else Some (Returned (Inr 0), w)) of
                  None \<Rightarrow> None
                | Some (Returned (Inr n), w') \<Rightarrow>
                    (case fs_increment fs it w' of
                       None \<Rightarrow> Some (Terminated, w')
                     | Some it' \<Rightarrow> traverse_loop os fs next it' (matches + n) w')
                | Some (r, w') \<Rightarrow> Some (r, w'))))"

definition directory_traverse_node ::
  "'w os \<Rightarrow> ('i, 'w) filesystem \<Rightarrow> (int \<Rightarrow> size_t \<Rightarrow> 'w \<Rightarrow> (size_t expected \<times> 'w) option) \<Rightarrow> string \<Rightarrow> 'w \<Rightarrow>
   (size_t expected outcome \<times> 'w) option" where
  "directory_traverse_node os fs next dir w =
     (case fs_exists fs dir w of
        None \<Rightarrow> Some (Terminated, w)
      | Some False \<Rightarrow> Some (Returned (Inl (dir @ '' not a directory'')), w)
      | Some True \<Rightarrow>
          (case fs_is_directory fs dir w of
             None \<Rightarrow> Some (Terminated, w)
           | Some False \<Rightarrow> Some (Returned (Inl (dir @ '' not a directory'')), w)
           | Some True \<Rightarrow>
               (case fs_begin fs dir w of
                  None \<Rightarrow> Some (Terminated, w)
                | Some it \<Rightarrow> traverse_loop os fs next it 0 w)))"

section \<open>What a traversal does\<close>

text \<open>
  The reference: the regular files one after the other; the first that cannot be opened or whose
  next stage fails ends the run.
\<close>

fun visit ::
  "'w os \<Rightarrow> (int \<Rightarrow> size_t \<Rightarrow> 'w \<Rightarrow> (size_t expected \<times> 'w) option) \<Rightarrow> (string \<Rightarrow> size_t) \<Rightarrow> string list \<Rightarrow> size_t \<Rightarrow> 'w \<Rightarrow>
   (size_t expected \<times> 'w) option" where
  "visit os next size_of_file [] acc w = Some (Inr acc, w)"
| "visit os next size_of_file (p # ps) acc w =
     (case sys_openat os AT_FDCWD p O_RDONLY w of
        (fd, w1) \<Rightarrow>
          (if fd = - 1 then Some (Inl (''failed to open file: '' @ p), w1)
           else
             (case next fd (size_of_file p) w1 of
                None \<Rightarrow> None
              | Some (Inl e, w2) \<Rightarrow> Some (Inl e, sys_close os fd w2)
              | Some (Inr n, w2) \<Rightarrow> visit os next size_of_file ps (acc + n) (sys_close os fd w2))))"

text \<open>
  A tree that does not change while it is traversed: the iterator goes through the positions
  \<open>it 0\<close>, \<open>it 1\<close>, ... with the given paths, and nothing throws.
\<close>

locale still_tree =
  fixes fs :: "('i, 'w) filesystem" and dir :: string and paths :: "string list" and it :: "nat \<Rightarrow> 'i"
    and regular :: "string \<Rightarrow> bool" and size_of_file :: "string \<Rightarrow> size_t"
  assumes root: "fs_exists fs dir w = Some True" "fs_is_directory fs dir w = Some True" "fs_begin fs dir w = Some (it 0)"
    and entries: "fs_entry fs (it i) w = (if i < length paths then Some (paths ! i) else None)"
    and increments: "fs_increment fs (it i) w = Some (it (Suc i))"
    and kinds: "fs_is_regular_file fs p w = Some (regular p)"
    and sizes: "fs_file_size fs p w = Some (size_of_file p)"
begin

lemma loop_visits:
  "traverse_loop os fs next (it i) acc w =
     map_option (apfst Returned) (visit os next size_of_file (filter regular (drop i paths)) acc w)"
proof (induction "length paths - i" arbitrary: i acc w)
  case 0
  then show ?case by (subst traverse_loop.simps) (simp add: entries)
next
  case (Suc n)
  then have i: "i < length paths" and rest: "drop i paths = paths ! i # drop (Suc i) paths"
    by (simp_all add: Cons_nth_drop_Suc)
  have IH: "traverse_loop os fs next (it (Suc i)) acc w =
      map_option (apfst Returned) (visit os next size_of_file (filter regular (drop (Suc i) paths)) acc w)" for acc w
    using Suc by (intro Suc(1)) simp
  obtain fd w1 where opened: "sys_openat os AT_FDCWD (paths ! i) O_RDONLY w = (fd, w1)" by fastforce
  show ?case
  proof (cases "regular (paths ! i)")
    case False
    then show ?thesis by (subst traverse_loop.simps) (simp add: entries kinds increments i rest IH)
  next
    case True
    then show ?thesis
      by (subst traverse_loop.simps)
        (auto simp: entries kinds increments sizes i rest IH traverse_file_def Let_def opened ar_bool_def ar_make_def
          ar_get_def fd_destroy_def ar_destroy_def fd_closer_def split: option.splits sum.splits)
  qed
qed

lemma traverse_visits:
  "directory_traverse_node os fs next dir w =
     map_option (apfst Returned) (visit os next size_of_file (filter regular paths) 0 w)"
  by (simp add: directory_traverse_node_def root loop_visits)

end

section \<open>Properties\<close>

text \<open>A tree with a directory between two files, for an example.\<close>

definition sim_tree :: "(nat, sim) filesystem" where
  "sim_tree = \<lparr>fs_exists = (\<lambda>p w. Some True), fs_is_directory = (\<lambda>p w. Some True), fs_begin = (\<lambda>p w. Some 0),
     fs_entry = (\<lambda>i w. if i < length [''a'', ''d'', ''d/b''] then Some ([''a'', ''d'', ''d/b''] ! i) else None),
     fs_increment = (\<lambda>i w. Some (Suc i)), fs_is_regular_file = (\<lambda>p w. Some (p \<noteq> ''d'')), fs_file_size = (\<lambda>p w. Some 5)\<rparr>"

interpretation sim_tree: still_tree sim_tree "''.''" "[''a'', ''d'', ''d/b'']" "\<lambda>i. i" "\<lambda>p. p \<noteq> ''d''" "\<lambda>p. 5"
  by unfold_locales (simp_all add: sim_tree_def)

text \<open>
  C28. Traversing a directory that does not change hands every regular file of the tree, and nothing else, to the
  next stage, in the order of the iterator, each opened before and closed after; the counts
  are added up; the first file that cannot be opened and the first error of the next stage
  end the run, and nothing is left open then.
\<close>

theorem traverse_visits_regular_files:
  assumes "still_tree fs dir paths it regular size_of_file"
  shows "directory_traverse_node os fs next dir w =
     map_option (apfst Returned) (visit os next size_of_file (filter regular paths) 0 w)"
  by (rule still_tree.traverse_visits [OF assms])

theorem traverse_visits_regular_files_witness:
  "directory_traverse_node sim_os sim_tree (\<lambda>fd sz w. Some (Inr sz, w)) ''.'' (sim0\<lparr>sim_paths := (\<lambda>p. 3)\<rparr>) =
     Some (Returned (Inr 10), sim0\<lparr>sim_paths := (\<lambda>p. 3), sim_closed := [3, 3]\<rparr>)"
  using traverse_visits_regular_files [OF sim_tree.still_tree_axioms, of sim_os "\<lambda>fd sz w. Some (Inr sz, w)"
      "sim0\<lparr>sim_paths := (\<lambda>p. 3)\<rparr>"]
  by (simp add: sim0_def)

end
