(* ===== verification/Request_Pool.thy ===== *)
theory Request_Pool
  imports Posix
begin

section \<open>Pools of io\_uring requests\<close>

text \<open>
  \<^verbatim>\<open>utils/request_pool.h\<close>. A pool owns its requests in two containers whose elements never
  move, \<^verbatim>\<open>pool_\<close> with \<open>N\<close> elements and \<^verbatim>\<open>pool_overflow_\<close>, which only grows; a pointer to a request
  is an index into one of them, and \<open>requests\<close> is the store behind the pointers. The lists of
  pointers are as in the code: the back of a list is its last element. The base class of the
  requests is a record that the request types extend.

  liburing is not part of the repository: \<open>'q uring\<close> is its interface over an abstract ring \<open>'q\<close>. A
  submission entry is a slot number, \<^verbatim>\<open>io_uring_prep_*\<close> writes the operation into the slot and
  \<^verbatim>\<open>io_uring_sqe_set_data\<close> the pointer that comes back with the completion. Such a pointer says
  in which pool the request lives and where.
\<close>

datatype Op = OPENAT | CLOSE | READ | WRITE

datatype addr = In_Pool nat | In_Overflow nat

datatype req_ptr = Req (ptr_pool: Op) (ptr_addr: addr)

text \<open>
  The prepared operations. A read names its request's buffer by its length; a write names the part
  of its request's buffer it will read, from the offset, with the length, and the file offset.
\<close>

datatype prepared =
    Prep_Openat int string flags
  | Prep_Close int
  | Prep_Read int nat size_t
  | Prep_Write int bytes size_t nat int

record cqe =
  user_data :: "req_ptr option"
  cqe_res :: int
  cqe_bytes :: bytes

record 'q uring =
  u_get_sqe :: "'q \<Rightarrow> nat option \<times> 'q"
  u_prep :: "nat \<Rightarrow> prepared \<Rightarrow> 'q \<Rightarrow> 'q"
  u_set_data :: "nat \<Rightarrow> req_ptr \<Rightarrow> 'q \<Rightarrow> 'q"
  u_submit :: "'q \<Rightarrow> int \<times> 'q"
  u_peek :: "'q \<Rightarrow> int"
  u_wait :: "'q \<Rightarrow> 'q option"
  u_cqe :: "nat \<Rightarrow> 'q \<Rightarrow> cqe option"
  u_advance :: "nat \<Rightarrow> 'q \<Rightarrow> 'q"

subsection \<open>The requests\<close>

record base_request =
  op :: Op
  sqe :: "nat option"

record open_at_request = base_request +
  path :: string
  oa_fd :: int
  oa_flags :: flags
  is_file :: bool
  parent_fd :: int

record close_request = base_request +
  cl_fd :: int

record read_request = base_request +
  rd_fd :: int
  rd_offset :: size_t
  rd_buffer :: bytes
  rd_res :: size_t

record write_request = base_request +
  wr_fd :: int
  wr_offset :: size_t
  wr_buffer :: bytes

definition open_at_reset :: "int \<Rightarrow> string \<Rightarrow> flags \<Rightarrow> open_at_request \<Rightarrow> open_at_request" where
  "open_at_reset pfd p fl r =
     r\<lparr>path := p, parent_fd := pfd, oa_flags := fl, is_file := (fl AND O_DIRECTORY = 0)\<rparr>"

definition open_at_prep :: "open_at_request \<Rightarrow> prepared" where
  "open_at_prep r = Prep_Openat (parent_fd r) (path r) (oa_flags r)"

definition close_reset :: "int \<Rightarrow> close_request \<Rightarrow> close_request" where
  "close_reset fd r = r\<lparr>cl_fd := fd\<rparr>"

definition close_prep :: "close_request \<Rightarrow> prepared" where
  "close_prep r = Prep_Close (cl_fd r)"

definition read_reset :: "int \<Rightarrow> size_t \<Rightarrow> read_request \<Rightarrow> read_request" where
  "read_reset fd off r = r\<lparr>rd_fd := fd, rd_offset := off\<rparr>"

definition read_prep :: "read_request \<Rightarrow> prepared" where
  "read_prep r = Prep_Read (rd_fd r) (length (rd_buffer r)) (rd_offset r)"

definition write_reset :: "int \<Rightarrow> bytes \<Rightarrow> size_t \<Rightarrow> write_request \<Rightarrow> write_request" where
  "write_reset fd buf off r = r\<lparr>wr_fd := fd, wr_offset := off, wr_buffer := buf\<rparr>"

definition write_prep :: "write_request \<Rightarrow> prepared" where
  "write_prep r = Prep_Write (wr_fd r) (wr_buffer r) (wr_offset r) (length (wr_buffer r)) (- 1)"

text \<open>The requests as the pools create them; value initialisation makes \<^verbatim>\<open>op\<close> the first enumerator.\<close>

definition open_at_fresh :: open_at_request where
  "open_at_fresh = \<lparr>op = OPENAT, sqe = None, path = [], oa_fd = - 1, oa_flags = 0, is_file = False, parent_fd = - 1\<rparr>"

definition close_fresh :: close_request where
  "close_fresh = \<lparr>op = OPENAT, sqe = None, cl_fd = - 1\<rparr>"

definition read_fresh :: read_request where
  "read_fresh = \<lparr>op = OPENAT, sqe = None, rd_fd = - 1, rd_offset = 0,
     rd_buffer = replicate (64 * 1024) (CHR 0x00), rd_res = 0\<rparr>"

definition write_fresh :: write_request where
  "write_fresh = \<lparr>op = OPENAT, sqe = None, wr_fd = - 1, wr_offset = 0, wr_buffer = []\<rparr>"

subsection \<open>The pool\<close>

record 'a request_pool =
  pool_op :: Op
  pool_size :: nat
  requests :: "addr \<Rightarrow> 'a base_request_scheme"
  free_list :: "addr list"
  sqe_overflow :: "addr list"
  overflow_size :: nat
  pool_overflow_free_list :: "addr list"

definition make_request_pool :: "Op \<Rightarrow> nat \<Rightarrow> 'a base_request_scheme \<Rightarrow> 'a request_pool" where
  "make_request_pool O' N fresh = \<lparr>pool_op = O', pool_size = N, requests = (\<lambda>_. fresh\<lparr>op := O'\<rparr>),
     free_list = map In_Pool [0..<N], sqe_overflow = [], overflow_size = 0, pool_overflow_free_list = []\<rparr>"

text \<open>What is done with a request once a submission entry is there: link, prepare, set the data, count.\<close>

definition enter_ring ::
  "'q uring \<Rightarrow> ('a base_request_scheme \<Rightarrow> prepared) \<Rightarrow> addr \<Rightarrow> nat \<Rightarrow>
   'a request_pool \<times> 'q \<times> size_t \<Rightarrow> 'a request_pool \<times> 'q \<times> size_t" where
  "enter_ring u prep nxt slot s =
     (case s of (p, q, in_flight) \<Rightarrow>
        (let p' = p\<lparr>requests := (requests p)(nxt := (requests p nxt)\<lparr>sqe := Some slot\<rparr>)\<rparr>;
             q1 = u_prep u slot (prep (requests p' nxt)) q;
             q2 = u_set_data u slot (Req (pool_op p) nxt) q1
         in (p', q2, in_flight + 1)))"

definition pool_try_pop_overflow ::
  "'q uring \<Rightarrow> ('a base_request_scheme \<Rightarrow> prepared) \<Rightarrow>
   'a request_pool \<times> 'q \<times> size_t \<Rightarrow> bool \<times> 'a request_pool \<times> 'q \<times> size_t" where
  "pool_try_pop_overflow u prep s =
     (case s of (p, q, in_flight) \<Rightarrow>
        (case sqe_overflow p of
           [] \<Rightarrow> (False, s)
         | nxt # rest \<Rightarrow>
             (case u_get_sqe u q of
                (None, q') \<Rightarrow> (False, p, q', in_flight)
              | (Some slot, q') \<Rightarrow> (True, enter_ring u prep nxt slot (p\<lparr>sqe_overflow := rest\<rparr>, q', in_flight)))))"

text \<open>The request \<^verbatim>\<open>next\<close> takes: from a free list, or a new one at the end of \<^verbatim>\<open>pool_overflow_\<close>.\<close>

definition take_request :: "'a base_request_scheme \<Rightarrow> 'a request_pool \<Rightarrow> addr \<times> 'a request_pool" where
  "take_request fresh p =
     (if free_list p \<noteq> [] then (last (free_list p), p\<lparr>free_list := butlast (free_list p)\<rparr>)
      else if pool_overflow_free_list p \<noteq> [] then
        (last (pool_overflow_free_list p),
         p\<lparr>pool_overflow_free_list := butlast (pool_overflow_free_list p)\<rparr>)
      else
        (In_Overflow (overflow_size p),
         p\<lparr>overflow_size := overflow_size p + 1,
           requests := (requests p)(In_Overflow (overflow_size p) := fresh\<lparr>op := pool_op p\<rparr>)\<rparr>))"

definition pool_next ::
  "'q uring \<Rightarrow> ('a base_request_scheme \<Rightarrow> prepared) \<Rightarrow> 'a base_request_scheme \<Rightarrow>
   ('a base_request_scheme \<Rightarrow> 'a base_request_scheme) \<Rightarrow>
   'a request_pool \<times> 'q \<times> size_t \<Rightarrow> 'a request_pool \<times> 'q \<times> size_t" where
  "pool_next u prep fresh reset s =
     (case s of (p, q, in_flight) \<Rightarrow>
        (case take_request fresh p of (nxt, p1) \<Rightarrow>
           (let p2 = p1\<lparr>requests := (requests p1)(nxt := reset (requests p1 nxt))\<rparr>
            in case u_get_sqe u q of
                 (None, q') \<Rightarrow> (p2\<lparr>sqe_overflow := sqe_overflow p2 @ [nxt]\<rparr>, q', in_flight)
               | (Some slot, q') \<Rightarrow> enter_ring u prep nxt slot (p2, q', in_flight))))"

text \<open>
  \<^verbatim>\<open>unchecked_push_back\<close> on a full \<^verbatim>\<open>inplace_vector\<close> is undefined. The test on the addresses is the test
  whether the pointer points into \<^verbatim>\<open>pool_\<close>.
\<close>

definition pool_free :: "addr \<Rightarrow> 'a request_pool \<times> size_t \<Rightarrow> ('a request_pool \<times> size_t) outcome" where
  "pool_free req s =
     (case s of (p, in_flight) \<Rightarrow>
        (case req of
           In_Pool i \<Rightarrow>
             (if length (free_list p) < pool_size p
              then Returned (p\<lparr>free_list := free_list p @ [req]\<rparr>, in_flight - 1)
              else Undefined)
         | In_Overflow i \<Rightarrow>
             Returned (p\<lparr>pool_overflow_free_list := pool_overflow_free_list p @ [req]\<rparr>, in_flight - 1)))"

section \<open>Every request is in one place\<close>

text \<open>
  The contract of the ring, as far as the pools use it. \<open>infl q\<close> are the pointers of the requests
  that were entered and whose completions have not been passed by \<^verbatim>\<open>io_uring_cq_advance\<close>. A
  submission entry that was handed out and filled adds its request; there is none only when the
  submission queue is full, so not when the ring is idle. Completions may become visible at
  any call, carry the pointer that was set, and stay until they are passed.
\<close>

definition reaped :: "'q uring \<Rightarrow> 'q \<Rightarrow> nat \<Rightarrow> req_ptr multiset" where
  "reaped u q k = mset (map (\<lambda>i. the (user_data (the (u_cqe u i q)))) [0..<k])"

definition visible :: "'q uring \<Rightarrow> 'q \<Rightarrow> nat \<Rightarrow> bool" where
  "visible u q k \<longleftrightarrow> (\<forall>i < k. u_cqe u i q \<noteq> None)"

definition keeps_cqes :: "'q uring \<Rightarrow> 'q \<Rightarrow> 'q \<Rightarrow> bool" where
  "keeps_cqes u q q' \<longleftrightarrow> (\<forall>i c. u_cqe u i q = Some c \<longrightarrow> u_cqe u i q' = Some c)"

text \<open>What happens to the ring while completions are being handled: requests are added, completions stay.\<close>

definition later :: "'q uring \<Rightarrow> ('q \<Rightarrow> req_ptr multiset) \<Rightarrow> 'q \<Rightarrow> 'q \<Rightarrow> bool" where
  "later u infl q q' \<longleftrightarrow> keeps_cqes u q q' \<and> infl q \<subseteq># infl q'"

lemma later_refl [simp]: "later u infl q q"
  by (simp add: later_def keeps_cqes_def)

lemma later_trans: "later u infl q q' \<Longrightarrow> later u infl q' q'' \<Longrightarrow> later u infl q q''"
  by (auto simp: later_def keeps_cqes_def)

locale ring_contract =
  fixes u :: "'q uring" and infl :: "'q \<Rightarrow> req_ptr multiset"
  assumes entered: "u_get_sqe u q = (Some slot, q') \<Longrightarrow>
      infl (u_set_data u slot x (u_prep u slot y q')) = add_mset x (infl q) \<and>
      keeps_cqes u q (u_set_data u slot x (u_prep u slot y q'))"
    and full: "u_get_sqe u q = (None, q') \<Longrightarrow> infl q' = infl q \<and> infl q \<noteq> {#} \<and> keeps_cqes u q q'"
    and submitted: "u_submit u q = (r, q') \<Longrightarrow> infl q' = infl q"
    and waited: "u_wait u q = Some q' \<Longrightarrow> infl q' = infl q"
    and completed: "visible u q k \<Longrightarrow> (\<forall>i < k. user_data (the (u_cqe u i q)) \<noteq> None) \<and> reaped u q k \<subseteq># infl q"
    and advanced: "visible u q k \<Longrightarrow> infl (u_advance u k q) = infl q - reaped u q k"

lemma reaped_0 [simp]: "reaped u q 0 = {#}"
  by (simp add: reaped_def)

lemma reaped_Suc: "u_cqe u k q = Some c \<Longrightarrow> reaped u q (Suc k) = add_mset (the (user_data c)) (reaped u q k)"
  by (simp add: reaped_def)

lemma visible_0 [simp]: "visible u q 0"
  by (simp add: visible_def)

lemma visible_Suc: "visible u q (Suc k) \<longleftrightarrow> visible u q k \<and> u_cqe u k q \<noteq> None"
  by (auto simp: visible_def less_Suc_eq)

lemma keeps_cqes_refl [simp]: "keeps_cqes u q q"
  by (simp add: keeps_cqes_def)

lemma keeps_cqes_trans: "keeps_cqes u q q' \<Longrightarrow> keeps_cqes u q' q'' \<Longrightarrow> keeps_cqes u q q''"
  by (simp add: keeps_cqes_def)

lemma keeps_visible: "keeps_cqes u q q' \<Longrightarrow> visible u q k \<Longrightarrow> visible u q' k"
  unfolding keeps_cqes_def visible_def by (metis not_None_eq)

lemma keeps_reaped: "keeps_cqes u q q' \<Longrightarrow> visible u q k \<Longrightarrow> reaped u q' k = reaped u q k"
proof -
  assume "keeps_cqes u q q'" "visible u q k"
  then have "u_cqe u i q' = u_cqe u i q" if "i < k" for i
    using that unfolding keeps_cqes_def visible_def by (metis not_None_eq)
  then have "map (\<lambda>i. the (user_data (the (u_cqe u i q')))) [0..<k] = map (\<lambda>i. the (user_data (the (u_cqe u i q)))) [0..<k]"
    by simp
  then show ?thesis unfolding reaped_def by (rule arg_cong)
qed

text \<open>
  A pool with the requests that are out: every request of the two containers is in the free
  lists, waits for a submission entry, or is out, exactly once; the free lists hold requests of
  their own container; every request carries the pool's tag.
\<close>

definition all_requests :: "'a request_pool \<Rightarrow> addr multiset" where
  "all_requests p = mset (map In_Pool [0..<pool_size p]) + mset (map In_Overflow [0..<overflow_size p])"

definition in_lists :: "'a request_pool \<Rightarrow> addr multiset" where
  "in_lists p = mset (free_list p) + mset (pool_overflow_free_list p) + mset (sqe_overflow p)"

fun in_pool :: "addr \<Rightarrow> bool" where
  "in_pool (In_Pool i) = True"
| "in_pool (In_Overflow i) = False"

definition pool_ok :: "Op \<Rightarrow> nat \<Rightarrow> 'a request_pool \<Rightarrow> addr multiset \<Rightarrow> bool" where
  "pool_ok O' N p out \<longleftrightarrow>
     pool_op p = O' \<and> pool_size p = N \<and> in_lists p + out = all_requests p \<and>
     (\<forall>a \<in># all_requests p. op (requests p a) = O') \<and>
     (\<forall>a \<in> set (free_list p). in_pool a) \<and> (\<forall>a \<in> set (pool_overflow_free_list p). \<not> in_pool a)"

lemma request_pool_ok: "pool_ok O' N (make_request_pool O' N fresh) {#}"
  by (auto simp: pool_ok_def make_request_pool_def in_lists_def all_requests_def)

lemma distinct_requests: "count (all_requests p) a \<le> 1"
proof -
  have "distinct (map In_Pool [0..<pool_size p] @ map In_Overflow [0..<overflow_size p])"
    by (auto simp: distinct_map inj_on_def)
  moreover have "all_requests p = mset (map In_Pool [0..<pool_size p] @ map In_Overflow [0..<overflow_size p])"
    by (simp add: all_requests_def)
  ultimately show ?thesis unfolding distinct_count_atmost_1 by (metis (no_types) count_eq_zero_iff le_eq_less_or_eq less_one nat_le_linear set_mset_mset)
qed

lemma pool_ok_tag: "pool_ok O' N p out \<Longrightarrow> a \<in># out \<Longrightarrow> op (requests p a) = O'"
  unfolding pool_ok_def by (metis union_iff)

text \<open>The free list never outgrows its capacity: its elements are distinct elements of \<^verbatim>\<open>pool_\<close>.\<close>

lemma pool_ok_capacity:
  assumes "pool_ok O' N p (add_mset (In_Pool i) out)"
  shows "length (free_list p) < pool_size p"
proof -
  have part: "in_lists p + add_mset (In_Pool i) out = all_requests p"
    and free: "\<forall>a \<in> set (free_list p). in_pool a" using assms by (simp_all add: pool_ok_def)
  have "filter_mset in_pool (all_requests p) = mset (map In_Pool [0..<pool_size p])"
    by (simp add: all_requests_def filter_mset_image_mset)
  moreover have "filter_mset in_pool (mset (free_list p)) = mset (free_list p)"
    using free by (metis filter_True mset_filter)
  moreover have "filter_mset in_pool (all_requests p) =
      filter_mset in_pool (mset (free_list p)) + (filter_mset in_pool (mset (pool_overflow_free_list p)) +
        filter_mset in_pool (mset (sqe_overflow p)) + add_mset (In_Pool i) (filter_mset in_pool out))"
    unfolding part [symmetric] in_lists_def by simp
  ultimately have "mset (map In_Pool [0..<pool_size p]) = mset (free_list p) +
      (filter_mset in_pool (mset (pool_overflow_free_list p)) +
        filter_mset in_pool (mset (sqe_overflow p)) + add_mset (In_Pool i) (filter_mset in_pool out))"
    by simp
  from arg_cong [OF this, of size] show ?thesis by simp
qed

text \<open>\<^verbatim>\<open>free\<close> takes a request that is out and puts it back.\<close>

lemma pool_free_ok:
  assumes "pool_ok O' N p (add_mset a out)"
  obtains p' where "pool_free a (p, n) = Returned (p', n - 1)" "pool_ok O' N p' out" "requests p' = requests p"
    "sqe_overflow p' = sqe_overflow p"
proof (cases a)
  case (In_Pool i)
  let ?p = "p\<lparr>free_list := free_list p @ [a]\<rparr>"
  have "pool_free a (p, n) = Returned (?p, n - 1)"
    using pool_ok_capacity [OF assms [unfolded In_Pool]] by (simp add: pool_free_def In_Pool)
  moreover have "pool_ok O' N ?p out"
    using assms In_Pool by (auto simp: pool_ok_def in_lists_def all_requests_def)
  ultimately show thesis by (intro that [of ?p]) simp_all
next
  case (In_Overflow i)
  let ?p = "p\<lparr>pool_overflow_free_list := pool_overflow_free_list p @ [a]\<rparr>"
  have "pool_free a (p, n) = Returned (?p, n - 1)"
    by (simp add: pool_free_def In_Overflow)
  moreover have "pool_ok O' N ?p out"
    using assms In_Overflow by (auto simp: pool_ok_def in_lists_def all_requests_def)
  ultimately show thesis by (intro that [of ?p]) simp_all
qed

text \<open>A request whose fields change, but not its tag.\<close>

lemma pool_ok_write:
  "pool_ok O' N p out \<Longrightarrow> op r = op (requests p a) \<Longrightarrow> pool_ok O' N (p\<lparr>requests := (requests p)(a := r)\<rparr>) out"
  by (auto simp: pool_ok_def in_lists_def all_requests_def)

lemma mset_butlast: "xs \<noteq> [] \<Longrightarrow> add_mset (last xs) (mset (butlast xs)) = mset xs"
  by (metis append_butlast_last_id mset.simps(2) mset_append add_mset_add_single mset.simps(1))

lemma take_request_ok:
  assumes "pool_ok O' N p out" "take_request fresh p = (a, p')"
  shows "pool_ok O' N p' (add_mset a out)" "sqe_overflow p' = sqe_overflow p"
    "a \<notin># out" "b \<in># out \<Longrightarrow> requests p' b = requests p b"
proof -
  have fresh_out: "In_Overflow (overflow_size p) \<notin># out"
  proof
    assume "In_Overflow (overflow_size p) \<in># out"
    then have "In_Overflow (overflow_size p) \<in># all_requests p"
      using assms(1) unfolding pool_ok_def by (metis union_iff)
    then show False by (auto simp: all_requests_def)
  qed
  consider "free_list p \<noteq> []" "a = last (free_list p)" "p' = p\<lparr>free_list := butlast (free_list p)\<rparr>"
    | "free_list p = []" "pool_overflow_free_list p \<noteq> []" "a = last (pool_overflow_free_list p)"
      "p' = p\<lparr>pool_overflow_free_list := butlast (pool_overflow_free_list p)\<rparr>"
    | "free_list p = []" "pool_overflow_free_list p = []" "a = In_Overflow (overflow_size p)"
      "p' = p\<lparr>overflow_size := overflow_size p + 1,
           requests := (requests p)(In_Overflow (overflow_size p) := fresh\<lparr>op := pool_op p\<rparr>)\<rparr>"
    using assms(2) by (auto simp: take_request_def split: if_splits)
  then show ok: "pool_ok O' N p' (add_mset a out)"
  proof cases
    case 1
    then show ?thesis using assms(1) mset_butlast [OF 1(1)]
      by (auto simp: pool_ok_def in_lists_def all_requests_def dest: in_set_butlastD simp flip: add_mset_add_single)
        (metis add.assoc add.commute union_mset_add_mset_left)
  next
    case 2
    then show ?thesis using assms(1) mset_butlast [OF 2(2)]
      by (auto simp: pool_ok_def in_lists_def all_requests_def dest: in_set_butlastD simp flip: add_mset_add_single)
        (metis add.assoc add.commute union_mset_add_mset_left)
  next
    case 3
    then show ?thesis using assms(1) by (auto simp: pool_ok_def in_lists_def all_requests_def)
  qed
  show "sqe_overflow p' = sqe_overflow p" using assms(2) by (auto simp: take_request_def split: if_splits)
  show "b \<in># out \<Longrightarrow> requests p' b = requests p b"
    using assms(2) fresh_out by (auto simp: take_request_def split: if_splits)
  have "count (in_lists p' + add_mset a out) a \<le> 1"
    using ok distinct_requests [of p' a] unfolding pool_ok_def by simp
  then show "a \<notin># out" by (simp add: not_in_iff)
qed

text \<open>A request that was taken waits for a submission entry, and one that waited is out.\<close>

lemma pool_ok_wait: "pool_ok O' N p (add_mset a out) \<Longrightarrow> pool_ok O' N (p\<lparr>sqe_overflow := sqe_overflow p @ [a]\<rparr>) out"
  by (auto simp: pool_ok_def in_lists_def all_requests_def)

lemma pool_ok_leave:
  "pool_ok O' N p out \<Longrightarrow> sqe_overflow p = a # rest \<Longrightarrow> pool_ok O' N (p\<lparr>sqe_overflow := rest\<rparr>) (add_mset a out)"
  by (auto simp: pool_ok_def in_lists_def all_requests_def)

context ring_contract
begin

lemma enter_ring_ok:
  assumes "u_get_sqe u q = (Some slot, q1)" "pool_ok O' N p out"
    "enter_ring u prep a slot (p, q1, n) = (p', q', n')"
  shows "infl q' = add_mset (Req O' a) (infl q)" "keeps_cqes u q q'" "n' = n + 1" "pool_ok O' N p' out"
    "sqe_overflow p' = sqe_overflow p" "b \<noteq> a \<Longrightarrow> requests p' b = requests p b"
proof -
  have O': "pool_op p = O'" using assms(2) by (simp add: pool_ok_def)
  let ?p = "p\<lparr>requests := (requests p)(a := (requests p a)\<lparr>sqe := Some slot\<rparr>)\<rparr>"
  have eq: "p' = ?p" "q' = u_set_data u slot (Req O' a) (u_prep u slot (prep (requests p' a)) q1)" "n' = n + 1"
    using assms(3) O' by (auto simp: enter_ring_def Let_def)
  show "infl q' = add_mset (Req O' a) (infl q)" "keeps_cqes u q q'"
    unfolding eq(2) using entered [OF assms(1)] by simp_all
  show "n' = n + 1" by (rule eq)
  show "pool_ok O' N p' out" unfolding eq(1) by (rule pool_ok_write [OF assms(2)]) simp
  show "sqe_overflow p' = sqe_overflow p" "b \<noteq> a \<Longrightarrow> requests p' b = requests p b"
    unfolding eq(1) by simp_all
qed

text \<open>
  \<^verbatim>\<open>next\<close> puts a request that was not out into the ring and counts it, or, when the submission
  queue is full, at the end of the overflow; it leaves the requests that are out as they are.
\<close>

lemma pool_next_ok:
  assumes "pool_ok O' N p out" "\<And>r. op (reset r) = op r" "pool_next u prep fresh reset (p, q, n) = (p', q', n')"
  shows "keeps_cqes u q q'" "\<And>b. b \<in># out \<Longrightarrow> requests p' b = requests p b"
    "(\<exists>a. infl q' = add_mset (Req O' a) (infl q) \<and> pool_ok O' N p' (add_mset a out) \<and> n' = n + 1 \<and>
        sqe_overflow p' = sqe_overflow p) \<or>
     infl q' = infl q \<and> infl q \<noteq> {#} \<and> pool_ok O' N p' out \<and> n' = n \<and>
     (\<exists>a. sqe_overflow p' = sqe_overflow p @ [a])"
proof -
  obtain a p1 where take: "take_request fresh p = (a, p1)" by fastforce
  let ?p = "p1\<lparr>requests := (requests p1)(a := reset (requests p1 a))\<rparr>"
  note t = take_request_ok [OF assms(1) take]
  have ok: "pool_ok O' N ?p (add_mset a out)" by (rule pool_ok_write [OF t(1)]) (rule assms(2))
  have same: "b \<in># out \<Longrightarrow> requests ?p b = requests p b" for b using t(3,4) by auto
  have "keeps_cqes u q q' \<and> (\<forall>b. b \<in># out \<longrightarrow> requests p' b = requests p b) \<and>
    ((\<exists>a. infl q' = add_mset (Req O' a) (infl q) \<and> pool_ok O' N p' (add_mset a out) \<and> n' = n + 1 \<and>
        sqe_overflow p' = sqe_overflow p) \<or>
     infl q' = infl q \<and> infl q \<noteq> {#} \<and> pool_ok O' N p' out \<and> n' = n \<and>
     (\<exists>a. sqe_overflow p' = sqe_overflow p @ [a]))"
  proof (cases "u_get_sqe u q")
    case (Pair r q1)
    show ?thesis
    proof (cases r)
      case None
      then have "p' = ?p\<lparr>sqe_overflow := sqe_overflow ?p @ [a]\<rparr>" "q' = q1" "n' = n"
        using assms(3) Pair take by (auto simp: pool_next_def Let_def)
      then show ?thesis using full [OF Pair [unfolded None]] pool_ok_wait [OF ok] same t(2) by auto
    next
      case (Some slot)
      then have e: "enter_ring u prep a slot (?p, q1, n) = (p', q', n')"
        using assms(3) Pair take by (auto simp: pool_next_def Let_def)
      note en = enter_ring_ok [OF Pair [unfolded Some] ok e]
      have "requests p' b = requests p b" if "b \<in># out" for b
        using en(6) [of b] same [OF that] t(3) that by metis
      then show ?thesis using en(1-5) t(2) by auto
    qed
  qed
  then show "keeps_cqes u q q'" "\<And>b. b \<in># out \<Longrightarrow> requests p' b = requests p b"
    "(\<exists>a. infl q' = add_mset (Req O' a) (infl q) \<and> pool_ok O' N p' (add_mset a out) \<and> n' = n + 1 \<and>
        sqe_overflow p' = sqe_overflow p) \<or>
     infl q' = infl q \<and> infl q \<noteq> {#} \<and> pool_ok O' N p' out \<and> n' = n \<and>
     (\<exists>a. sqe_overflow p' = sqe_overflow p @ [a])" by blast+
qed

lemma try_pop_ok:
  assumes "pool_ok O' N p out" "pool_try_pop_overflow u prep (p, q, n) = (b, p', q', n')"
  shows "if b
    then (\<exists>a. infl q' = add_mset (Req O' a) (infl q) \<and> pool_ok O' N p' (add_mset a out) \<and> n' = n + 1 \<and>
        sqe_overflow p = a # sqe_overflow p')
    else infl q' = infl q \<and> p' = p \<and> n' = n \<and> (sqe_overflow p = [] \<or> infl q \<noteq> {#})"
proof (cases "sqe_overflow p")
  case Nil
  then show ?thesis using assms(2) by (auto simp: pool_try_pop_overflow_def)
next
  case (Cons a rest)
  obtain r q1 where get: "u_get_sqe u q = (r, q1)" by fastforce
  show ?thesis
  proof (cases r)
    case None
    then show ?thesis using assms(2) Cons get full [of q q1] by (auto simp: pool_try_pop_overflow_def)
  next
    case (Some slot)
    then have e: "b" "enter_ring u prep a slot (p\<lparr>sqe_overflow := rest\<rparr>, q1, n) = (p', q', n')"
      using assms(2) Cons get by (auto simp: pool_try_pop_overflow_def)
    note en = enter_ring_ok [OF get [unfolded Some] pool_ok_leave [OF assms(1) Cons] e(2)]
    then show ?thesis using Cons e(1) by auto
  qed
qed

end

end
