(* ===== verification/Event_Loop.thy ===== *)
theory Event_Loop
  imports Request_Pool Dirents
begin

section \<open>The event loop\<close>

text \<open>
  \<^verbatim>\<open>utils/event_loop.h\<close>: the loop that turns openat, close, read and write into io\_uring requests and
  calls a handler for every completion. The handlers are template parameters; all they can do
  to the loop is to call its \<^verbatim>\<open>queue_*\<close> functions, which return nothing, so a handler is a function
  of its arguments and its own state \<open>'h\<close> that answers the calls it makes, in order. What the
  kernel writes into the buffer of a read is delivered with the completion: nothing looks
  into the buffer earlier. \<^verbatim>\<open>free_read_request\<close> is called by other threads; the loop looks at that
  queue once per round, so such calls are steps between the rounds. Lines printed on
  standard error are not modelled.
\<close>

definition queue_size :: nat where "queue_size = 4096"
definition safe_min :: size_t where "safe_min = 524288"

definition max_fd :: "'w os \<Rightarrow> 'w \<Rightarrow> size_t \<times> 'w" where
  "max_fd os w =
     (case sys_getrlimit os w of
        ((rc, rlim), w') \<Rightarrow> (if rc \<noteq> 0 then safe_min else min (rlim_cur rlim) safe_min, w'))"

record 'q event_loop =
  ring :: 'q
  in_flight :: size_t
  openat_request_pool :: "unit open_at_request_ext request_pool"
  close_request_pool :: "unit close_request_ext request_pool"
  read_request_pool :: "unit read_request_ext request_pool"
  write_request_pool :: "unit write_request_ext request_pool"
  getdents_queue :: "int list"
  dir_ref_count :: "int \<rightharpoonup> size_t"
  read_free_queue :: "addr list"

definition make_event_loop :: "(nat \<Rightarrow> int \<times> 'q) \<Rightarrow> 'q event_loop outcome" where
  "make_event_loop queue_init =
     (case queue_init queue_size of
        (rc, q) \<Rightarrow>
          (if rc \<noteq> 0 then Threw (Runtime_Error ''failed to initialise queue'')
           else Returned \<lparr>ring = q, in_flight = 0,
             openat_request_pool = make_request_pool OPENAT queue_size open_at_fresh,
             close_request_pool = make_request_pool CLOSE queue_size close_fresh,
             read_request_pool = make_request_pool READ queue_size read_fresh,
             write_request_pool = make_request_pool WRITE queue_size write_fresh,
             getdents_queue = [], dir_ref_count = Map.empty, read_free_queue = []\<rparr>))"

subsection \<open>Queueing\<close>

definition next_openat :: "'q uring \<Rightarrow> int \<Rightarrow> string \<Rightarrow> flags \<Rightarrow> 'q event_loop \<Rightarrow> 'q event_loop" where
  "next_openat u pfd p fl e =
     (case pool_next u open_at_prep open_at_fresh (open_at_reset pfd p fl) (openat_request_pool e, ring e, in_flight e) of
        (p', q', n') \<Rightarrow> e\<lparr>openat_request_pool := p', ring := q', in_flight := n'\<rparr>)"

definition queue_close :: "'q uring \<Rightarrow> int \<Rightarrow> 'q event_loop \<Rightarrow> 'q event_loop" where
  "queue_close u fd e =
     (case pool_next u close_prep close_fresh (close_reset fd) (close_request_pool e, ring e, in_flight e) of
        (p', q', n') \<Rightarrow> e\<lparr>close_request_pool := p', ring := q', in_flight := n'\<rparr>)"

definition queue_read :: "'q uring \<Rightarrow> int \<Rightarrow> size_t \<Rightarrow> 'q event_loop \<Rightarrow> 'q event_loop" where
  "queue_read u fd off e =
     (case pool_next u read_prep read_fresh (read_reset fd off) (read_request_pool e, ring e, in_flight e) of
        (p', q', n') \<Rightarrow> e\<lparr>read_request_pool := p', ring := q', in_flight := n'\<rparr>)"

definition queue_write :: "'q uring \<Rightarrow> int \<Rightarrow> bytes \<Rightarrow> size_t \<Rightarrow> 'q event_loop \<Rightarrow> 'q event_loop" where
  "queue_write u fd buf off e =
     (case pool_next u write_prep write_fresh (write_reset fd buf off) (write_request_pool e, ring e, in_flight e) of
        (p', q', n') \<Rightarrow> e\<lparr>write_request_pool := p', ring := q', in_flight := n'\<rparr>)"

definition queue_getdents :: "int \<Rightarrow> 'q event_loop \<Rightarrow> 'q event_loop" where
  "queue_getdents fd e = e\<lparr>getdents_queue := getdents_queue e @ [fd]\<rparr>"

definition free_read_request :: "addr \<Rightarrow> 'q event_loop \<Rightarrow> 'q event_loop" where
  "free_read_request req e = e\<lparr>read_free_queue := read_free_queue e @ [req]\<rparr>"

definition increase_dir_ref :: "int \<Rightarrow> 'q event_loop \<Rightarrow> 'q event_loop outcome" where
  "increase_dir_ref fd e =
     (case dir_ref_count e fd of
        None \<Rightarrow> Contract_Violation
      | Some c \<Rightarrow> Returned (e\<lparr>dir_ref_count := (dir_ref_count e)(fd \<mapsto> c + 1)\<rparr>))"

definition decrease_dir_ref :: "'q uring \<Rightarrow> int \<Rightarrow> 'q event_loop \<Rightarrow> 'q event_loop outcome" where
  "decrease_dir_ref u fd e =
     (case dir_ref_count e fd of
        None \<Rightarrow> Contract_Violation
      | Some c \<Rightarrow>
          (if c = 0 then Contract_Violation
           else if c - 1 = 0 then
             Returned ((queue_close u fd e)\<lparr>dir_ref_count := (dir_ref_count e)(fd := None)\<rparr>)
           else Returned (e\<lparr>dir_ref_count := (dir_ref_count e)(fd \<mapsto> c - 1)\<rparr>)))"

text \<open>The precondition converts a negative descriptor to a \<^verbatim>\<open>std::size_t\<close>, which is out of range then.\<close>

definition queue_openat :: "'q uring \<Rightarrow> int \<Rightarrow> string \<Rightarrow> flags \<Rightarrow> 'q event_loop \<Rightarrow> 'q event_loop outcome" where
  "queue_openat u pfd p fl e =
     (if pfd = AT_FDCWD then Returned (next_openat u pfd p fl e)
      else if (word_of_int pfd :: size_t) < safe_min then
        (case increase_dir_ref pfd e of
           Returned e' \<Rightarrow> Returned (next_openat u pfd p fl e')
         | r \<Rightarrow> r)
      else Contract_Violation)"

subsection \<open>Handlers\<close>

datatype queue_call =
    Queue_Openat int string flags
  | Queue_Getdents int
  | Queue_Close int
  | Queue_Read int size_t
  | Queue_Write int bytes size_t

record 'h handlers =
  openat_handler :: "int \<Rightarrow> bool \<Rightarrow> 'h \<Rightarrow> queue_call list \<times> 'h"
  getdents_handler :: "int \<Rightarrow> bool \<Rightarrow> string \<Rightarrow> 'h \<Rightarrow> queue_call list \<times> 'h"
  close_handler :: "'h \<Rightarrow> queue_call list \<times> 'h"
  read_handler :: "addr \<Rightarrow> read_request \<Rightarrow> 'h \<Rightarrow> (unit expected \<times> queue_call list) \<times> 'h"
  write_handler :: "int \<Rightarrow> int \<Rightarrow> 'h \<Rightarrow> queue_call list \<times> 'h"

fun do_call :: "'q uring \<Rightarrow> queue_call \<Rightarrow> 'q event_loop \<Rightarrow> 'q event_loop outcome" where
  "do_call u (Queue_Openat pfd p fl) e = queue_openat u pfd p fl e"
| "do_call u (Queue_Getdents fd) e = Returned (queue_getdents fd e)"
| "do_call u (Queue_Close fd) e = Returned (queue_close u fd e)"
| "do_call u (Queue_Read fd off) e = Returned (queue_read u fd off e)"
| "do_call u (Queue_Write fd buf off) e = Returned (queue_write u fd buf off e)"

fun do_calls :: "'q uring \<Rightarrow> queue_call list \<Rightarrow> 'q event_loop \<Rightarrow> 'q event_loop outcome" where
  "do_calls u [] e = Returned e"
| "do_calls u (c # cs) e = bind_outcome (do_call u c e) (do_calls u cs)"

subsection \<open>Listing the queued directories\<close>

text \<open>The loop, the state of its handlers and the world.\<close>

type_synonym ('q, 'h, 'w) loop_state = "'q event_loop \<times> 'h \<times> 'w"

definition on_entry :: "'q uring \<Rightarrow> 'h handlers \<Rightarrow> int \<Rightarrow> linux_dirent64 \<Rightarrow> ('q, 'h, 'w) loop_state \<Rightarrow>
    ('q, 'h, 'w) loop_state outcome" where
  "on_entry u hs fd d s =
     (case s of (e, h, w) \<Rightarrow>
        (let isfile = (d_type d = DT_REG); isdir = (d_type d = DT_DIR) in
         if isfile \<or> isdir then
           (case getdents_handler hs fd isfile (d_name d) h of
              (calls, h') \<Rightarrow> bind_outcome (do_calls u calls e) (\<lambda>e'. Returned (e', h', w)))
         else Returned s))"

text \<open>The same as a body for the loop over the buffer, which keeps the state where the body does not return.\<close>

definition entry_body :: "('s \<Rightarrow> 's outcome) \<Rightarrow> 's \<Rightarrow> (unit outcome \<times> 's) option" where
  "entry_body f s =
     Some (case f s of
             Returned s' \<Rightarrow> (Returned (), s')
           | r \<Rightarrow> (bind_outcome r (\<lambda>_. Returned ()), s))"

partial_function (option) list_dir :: "'q uring \<Rightarrow> 'w os \<Rightarrow> 'h handlers \<Rightarrow> int \<Rightarrow> ('q, 'h, 'w) loop_state \<Rightarrow>
    ('q, 'h, 'w) loop_state outcome option" where
  "list_dir u os hs fd s =
     (case s of (e, h, w) \<Rightarrow>
        (case sys_getdents64 os fd (32 * 1024) w of
           ((rd, buffer), w') \<Rightarrow>
             (if rd < 0 then Some (Returned (e, h, w'))
              else if rd = 0 then Some (Returned (e, h, w'))
              else
                (case walk_dirents (\<lambda>d. entry_body (on_entry u hs fd d)) (take (nat rd) buffer) (e, h, w') of
                   None \<Rightarrow> None
                 | Some (r, s') \<Rightarrow>
                     (if r = Returned () then list_dir u os hs fd s' else Some (bind_outcome r (\<lambda>_. Returned s')))))))"

fun list_dirs :: "'q uring \<Rightarrow> 'w os \<Rightarrow> 'h handlers \<Rightarrow> int list \<Rightarrow> ('q, 'h, 'w) loop_state \<Rightarrow>
    ('q, 'h, 'w) loop_state outcome option" where
  "list_dirs u os hs [] s = Some (Returned s)"
| "list_dirs u os hs (fd # fds) s =
     (case s of (e, h, w) \<Rightarrow>
        (case list_dir u os hs fd (e\<lparr>dir_ref_count := (dir_ref_count e)(fd \<mapsto> 1)\<rparr>, h, w) of
           None \<Rightarrow> None
         | Some r \<Rightarrow>
             (case bind_outcome r (\<lambda>(e', h', w').
                     bind_outcome (decrease_dir_ref u fd e') (\<lambda>e''. Returned (e'', h', w'))) of
                Returned s' \<Rightarrow> list_dirs u os hs fds s'
              | r' \<Rightarrow> Some r')))"

subsection \<open>Requests that wait for a submission entry, and reads that come back\<close>

definition overflow_round :: "'q uring \<Rightarrow> 'q event_loop \<Rightarrow> bool \<times> 'q event_loop" where
  "overflow_round u e =
     (case pool_try_pop_overflow u open_at_prep (openat_request_pool e, ring e, in_flight e) of
        (b1, p1, q1, n1) \<Rightarrow>
          (let e1 = e\<lparr>openat_request_pool := p1, ring := q1, in_flight := n1\<rparr> in
           if b1 then (True, e1)
           else
             (case pool_try_pop_overflow u close_prep (close_request_pool e1, ring e1, in_flight e1) of
                (b2, p2, q2, n2) \<Rightarrow>
                  (let e2 = e1\<lparr>close_request_pool := p2, ring := q2, in_flight := n2\<rparr> in
                   if b2 then (True, e2)
                   else
                     (case pool_try_pop_overflow u read_prep (read_request_pool e2, ring e2, in_flight e2) of
                        (b3, p3, q3, n3) \<Rightarrow>
                          (b3, e2\<lparr>read_request_pool := p3, ring := q3, in_flight := n3\<rparr>))))))"

definition waiting :: "'q event_loop \<Rightarrow> nat" where
  "waiting e = length (sqe_overflow (openat_request_pool e)) + length (sqe_overflow (close_request_pool e)) +
     length (sqe_overflow (read_request_pool e))"

lemma try_pop_overflow_length:
  "pool_try_pop_overflow u prep (p, q, n) = (b, p', q', n') \<Longrightarrow>
     length (sqe_overflow p') + (if b then 1 else 0) = length (sqe_overflow p)"
  by (auto simp: pool_try_pop_overflow_def enter_ring_def Let_def split: list.splits option.splits prod.splits)

lemma overflow_round_decreases: "overflow_round u e = (True, e') \<Longrightarrow> waiting e' < waiting e"
  by (auto simp: overflow_round_def waiting_def Let_def split: prod.splits if_splits
      dest!: try_pop_overflow_length)

function drain_overflow :: "'q uring \<Rightarrow> 'q event_loop \<Rightarrow> 'q event_loop" where
  "drain_overflow u e = (case overflow_round u e of (again, e') \<Rightarrow> if again then drain_overflow u e' else e')"
  by auto

termination
  by (relation "measure (\<lambda>(u, e). waiting e)") (auto intro: overflow_round_decreases)

declare drain_overflow.simps [simp del]

fun return_reads :: "addr list \<Rightarrow> 'q event_loop \<Rightarrow> 'q event_loop outcome" where
  "return_reads [] e = Returned e"
| "return_reads (req # reqs) e =
     bind_outcome (pool_free req (read_request_pool e, in_flight e)) (\<lambda>(p, n).
       return_reads reqs (e\<lparr>read_request_pool := p, in_flight := n + 1\<rparr>))"

subsection \<open>Completions\<close>

definition handle_openat :: "'q uring \<Rightarrow> 'h handlers \<Rightarrow> addr \<Rightarrow> int \<Rightarrow> 'q event_loop \<times> 'h \<Rightarrow>
    ('q event_loop \<times> 'h) outcome" where
  "handle_openat u hs req res s =
     (case s of (e, h) \<Rightarrow>
        (case (if 0 \<le> res then openat_handler hs res (is_file (requests (openat_request_pool e) req)) h else ([], h)) of
           (calls, h') \<Rightarrow>
             bind_outcome (do_calls u calls e) (\<lambda>e1.
             let pfd = parent_fd (requests (openat_request_pool e1) req) in
             bind_outcome (if pfd \<noteq> AT_FDCWD then decrease_dir_ref u pfd e1 else Returned e1) (\<lambda>e2.
             bind_outcome (pool_free req (openat_request_pool e2, in_flight e2)) (\<lambda>(p, n).
             Returned (e2\<lparr>openat_request_pool := p, in_flight := n\<rparr>, h'))))))"

definition handle_close :: "'q uring \<Rightarrow> 'h handlers \<Rightarrow> addr \<Rightarrow> 'q event_loop \<times> 'h \<Rightarrow>
    ('q event_loop \<times> 'h) outcome" where
  "handle_close u hs req s =
     (case s of (e, h) \<Rightarrow>
        (case close_handler hs h of
           (calls, h') \<Rightarrow>
             bind_outcome (do_calls u calls e) (\<lambda>e1.
             bind_outcome (pool_free req (close_request_pool e1, in_flight e1)) (\<lambda>(p, n).
             Returned (e1\<lparr>close_request_pool := p, in_flight := n\<rparr>, h')))))"

text \<open>
  A read at the end of the file closes it; one with data goes to the handler, whose error ends
  \<^verbatim>\<open>pump\<close>, and the next part is queued; a read that failed is left alone.
\<close>

definition handle_read :: "'q uring \<Rightarrow> 'h handlers \<Rightarrow> addr \<Rightarrow> int \<Rightarrow> bytes \<Rightarrow> 'q event_loop \<times> 'h \<Rightarrow>
    (unit expected \<times> 'q event_loop \<times> 'h) outcome" where
  "handle_read u hs req res data s =
     (case s of (e, h) \<Rightarrow>
        (let r = requests (read_request_pool e) req in
         if res = 0 then
           (let e1 = queue_close u (rd_fd r) e in
            bind_outcome (pool_free req (read_request_pool e1, in_flight e1)) (\<lambda>(p, n).
            Returned (Inr (), e1\<lparr>read_request_pool := p, in_flight := n\<rparr>, h)))
         else if 0 < res then
           (let r' = r\<lparr>rd_buffer := data @ drop (length data) (rd_buffer r), rd_res := word_of_int res\<rparr>;
                p = read_request_pool e;
                e1 = e\<lparr>read_request_pool := p\<lparr>requests := (requests p)(req := r')\<rparr>, in_flight := in_flight e - 1\<rparr>
            in case read_handler hs req r' h of
                 ((answer, calls), h') \<Rightarrow>
                   bind_outcome (do_calls u calls e1) (\<lambda>e2.
                   case answer of
                     Inl err \<Rightarrow> Returned (Inl err, e2, h')
                   | Inr _ \<Rightarrow>
                       (let r2 = requests (read_request_pool e2) req in
                        Returned (Inr (), queue_read u (rd_fd r2) (rd_offset r2 + word_of_int res) e2, h'))))
         else Returned (Inr (), e, h)))"

text \<open>The buffer of a write that is continued moves to the new request.\<close>

definition handle_write :: "'q uring \<Rightarrow> 'h handlers \<Rightarrow> addr \<Rightarrow> int \<Rightarrow> 'q event_loop \<times> 'h \<Rightarrow>
    ('q event_loop \<times> 'h) outcome" where
  "handle_write u hs req res s =
     (case s of (e, h) \<Rightarrow>
        (case write_handler hs (wr_fd (requests (write_request_pool e) req)) res h of
           (calls, h') \<Rightarrow>
             bind_outcome (do_calls u calls e) (\<lambda>e1.
             let p = write_request_pool e1; r = requests p req;
                 e2 = (if wr_offset r + word_of_int res \<noteq> size_of (wr_buffer r) then
                         queue_write u (wr_fd r) (wr_buffer r) (wr_offset r + word_of_int res)
                           (e1\<lparr>write_request_pool := p\<lparr>requests := (requests p)(req := r\<lparr>wr_buffer := []\<rparr>)\<rparr>\<rparr>)
                       else e1)
             in bind_outcome (pool_free req (write_request_pool e2, in_flight e2)) (\<lambda>(p', n).
                Returned (e2\<lparr>write_request_pool := p', in_flight := n\<rparr>, h')))))"

text \<open>\<^verbatim>\<open>base_req->op\<close>, read through the pointer.\<close>

definition base_op :: "req_ptr \<Rightarrow> 'q event_loop \<Rightarrow> Op" where
  "base_op x e =
     (case x of Req k a \<Rightarrow>
        (case k of
           OPENAT \<Rightarrow> op (requests (openat_request_pool e) a)
         | CLOSE \<Rightarrow> op (requests (close_request_pool e) a)
         | READ \<Rightarrow> op (requests (read_request_pool e) a)
         | WRITE \<Rightarrow> op (requests (write_request_pool e) a)))"

text \<open>
  One completion. The \<^verbatim>\<open>static_cast\<close> of each case is undefined when the request is of another type than its
  tag says, which is the pool the pointer points into.
\<close>

definition handle_cqe :: "'q uring \<Rightarrow> 'h handlers \<Rightarrow> cqe \<Rightarrow> 'q event_loop \<times> 'h \<Rightarrow>
    (unit expected \<times> 'q event_loop \<times> 'h) outcome" where
  "handle_cqe u hs c s =
     (case user_data c of
        None \<Rightarrow> Contract_Violation
      | Some x \<Rightarrow>
          (let k = base_op x (fst s); req = ptr_addr x; res = cqe_res c in
           if ptr_pool x \<noteq> k then Undefined
           else
             (case k of
                OPENAT \<Rightarrow> bind_outcome (handle_openat u hs req res s) (\<lambda>s'. Returned (Inr (), s'))
              | CLOSE \<Rightarrow> bind_outcome (handle_close u hs req s) (\<lambda>s'. Returned (Inr (), s'))
              | READ \<Rightarrow> handle_read u hs req res (cqe_bytes c) s
              | WRITE \<Rightarrow> bind_outcome (handle_write u hs req res s) (\<lambda>s'. Returned (Inr (), s')))))"

text \<open>\<^verbatim>\<open>io_uring_for_each_cqe\<close>: \<open>k\<close> is both \<^verbatim>\<open>head\<close>, relative to the start, and \<^verbatim>\<open>count\<close>.\<close>

partial_function (option) each_cqe :: "'q uring \<Rightarrow> 'h handlers \<Rightarrow> nat \<Rightarrow> 'q event_loop \<times> 'h \<Rightarrow>
    (unit expected \<times> nat \<times> 'q event_loop \<times> 'h) outcome option" where
  "each_cqe u hs k s =
     (case u_cqe u k (ring (fst s)) of
        None \<Rightarrow> Some (Returned (Inr (), k, s))
      | Some c \<Rightarrow>
          (case handle_cqe u hs c s of
             Returned (Inr _, s') \<Rightarrow> each_cqe u hs (k + 1) s'
           | Returned (Inl err, s') \<Rightarrow> Some (Returned (Inl err, k, s'))
           | Threw x \<Rightarrow> Some (Threw x)
           | Terminated \<Rightarrow> Some Terminated
           | Contract_Violation \<Rightarrow> Some Contract_Violation
           | Undefined \<Rightarrow> Some Undefined))"

subsection \<open>Pumping\<close>

text \<open>
  One round of \<^verbatim>\<open>pump\<close>. \<open>Finished\<close> is the \<^verbatim>\<open>break\<close>, \<open>Failed\<close> an error that is returned. The
  result of \<^verbatim>\<open>io_uring_wait_cqe\<close> is not looked at; the call may block for ever.
\<close>

datatype round_result = Again | Finished | Failed string

definition listing_phase :: "'q uring \<Rightarrow> 'w os \<Rightarrow> 'h handlers \<Rightarrow> ('q, 'h, 'w) loop_state \<Rightarrow>
    ('q, 'h, 'w) loop_state outcome option" where
  "listing_phase u os hs s =
     (case s of (e, h, w) \<Rightarrow> list_dirs u os hs (getdents_queue e) (e\<lparr>getdents_queue := []\<rparr>, h, w))"

definition collect_phase :: "'q uring \<Rightarrow> 'q event_loop \<Rightarrow> 'q event_loop outcome" where
  "collect_phase u e =
     (let e1 = drain_overflow u e in return_reads (read_free_queue e1) (e1\<lparr>read_free_queue := []\<rparr>))"

definition completion_phase :: "'q uring \<Rightarrow> 'h handlers \<Rightarrow> 'q event_loop \<times> 'h \<Rightarrow>
    (round_result \<times> 'q event_loop \<times> 'h) outcome option" where
  "completion_phase u hs s =
     (case s of (e, h) \<Rightarrow>
        (case u_submit u (ring e) of
           (res, q) \<Rightarrow>
             (if res < 0 then
                Some (Returned (Failed (''failed to submit pending requests: '' @ show_int (- res)), e\<lparr>ring := q\<rparr>, h))
              else
                (case (if u_peek u q \<noteq> 0 then u_wait u q else Some q) of
                   None \<Rightarrow> None
                 | Some q' \<Rightarrow>
                     (case each_cqe u hs 0 (e\<lparr>ring := q'\<rparr>, h) of
                        None \<Rightarrow> None
                      | Some r \<Rightarrow>
                          Some (bind_outcome r (\<lambda>(answer, k, e', h').
                            case answer of
                              Inl err \<Rightarrow> Returned (Failed err, e', h')
                            | Inr _ \<Rightarrow> Returned (Again, e'\<lparr>ring := u_advance u k (ring e')\<rparr>, h'))))))))"

definition pump_round :: "'q uring \<Rightarrow> 'w os \<Rightarrow> 'h handlers \<Rightarrow> ('q, 'h, 'w) loop_state \<Rightarrow>
    (round_result \<times> ('q, 'h, 'w) loop_state) outcome option" where
  "pump_round u os hs s =
     (case listing_phase u os hs s of
        None \<Rightarrow> None
      | Some r1 \<Rightarrow>
          (case bind_outcome r1 (\<lambda>(e, h, w). bind_outcome (collect_phase u e) (\<lambda>e'. Returned (e', h, w))) of
             Returned (e, h, w) \<Rightarrow>
               (if in_flight e = 0 then Some (Returned (Finished, e, h, w))
                else
                  (case completion_phase u hs (e, h) of
                     None \<Rightarrow> None
                   | Some r2 \<Rightarrow> Some (bind_outcome r2 (\<lambda>(answer, e', h'). Returned (answer, e', h', w)))))
           | Threw x \<Rightarrow> Some (Threw x)
           | Terminated \<Rightarrow> Some Terminated
           | Contract_Violation \<Rightarrow> Some Contract_Violation
           | Undefined \<Rightarrow> Some Undefined))"

partial_function (option) pump :: "'q uring \<Rightarrow> 'w os \<Rightarrow> 'h handlers \<Rightarrow> ('q, 'h, 'w) loop_state \<Rightarrow>
    (unit expected \<times> ('q, 'h, 'w) loop_state) outcome option" where
  "pump u os hs s =
     (case pump_round u os hs s of
        None \<Rightarrow> None
      | Some r \<Rightarrow>
          (case r of
             Returned (answer, s') \<Rightarrow>
               (case answer of
                  Again \<Rightarrow> pump u os hs s'
                | Finished \<Rightarrow> Some (Returned (Inr (), s'))
                | Failed err \<Rightarrow> Some (Returned (Inl err, s')))
           | Threw x \<Rightarrow> Some (Threw x)
           | Terminated \<Rightarrow> Some Terminated
           | Contract_Violation \<Rightarrow> Some Contract_Violation
           | Undefined \<Rightarrow> Some Undefined))"

end
