(* ===== verification/Event_Loop_Safety.thy ===== *)
theory Event_Loop_Safety
  imports Event_Loop Sim_Kernel
begin

section \<open>No request is lost or used twice\<close>

text \<open>
  The state of the loop, given what the ring holds: \<open>R\<close> are the completions of the current round
  that were already handled, \<open>H\<close> the reads handed to the read handler and not yet returned to
  the pool, \<open>L\<close> the reads that failed. Every request of every pool is in exactly one place, and
  \<^verbatim>\<open>in_flight_\<close> counts the requests in the ring and the failed reads.
\<close>

definition out_of :: "Op \<Rightarrow> req_ptr multiset \<Rightarrow> addr multiset" where
  "out_of k M = image_mset ptr_addr (filter_mset (\<lambda>x. ptr_pool x = k) M)"

definition loop_ok :: "req_ptr multiset \<Rightarrow> req_ptr multiset \<Rightarrow> addr multiset \<Rightarrow> addr multiset \<Rightarrow> 'q event_loop \<Rightarrow> bool" where
  "loop_ok M R H L e \<longleftrightarrow>
     R \<subseteq># M \<and>
     pool_ok OPENAT queue_size (openat_request_pool e) (out_of OPENAT (M - R)) \<and>
     pool_ok CLOSE queue_size (close_request_pool e) (out_of CLOSE (M - R)) \<and>
     pool_ok READ queue_size (read_request_pool e) (out_of READ (M - R) + H + L) \<and>
     pool_ok WRITE queue_size (write_request_pool e) (out_of WRITE (M - R)) \<and>
     in_flight e = word_of_nat (size (M - R) + size L) \<and>
     mset (read_free_queue e) \<subseteq># H"

text \<open>The same with whatever the read handler holds, and at least the failed reads \<open>L\<close>.\<close>

definition loop_with :: "req_ptr multiset \<Rightarrow> req_ptr multiset \<Rightarrow> addr multiset \<Rightarrow> 'q event_loop \<Rightarrow> bool" where
  "loop_with M R L e \<longleftrightarrow> (\<exists>H' L'. loop_ok M R H' L' e \<and> L \<subseteq># L')"

lemma loop_withI: "loop_ok M R H' L' e \<Longrightarrow> L \<subseteq># L' \<Longrightarrow> loop_with M R L e"
  unfolding loop_with_def by blast

lemma loop_with_self: "loop_ok M R H L e \<Longrightarrow> loop_with M R L e"
  by (rule loop_withI, assumption, rule subset_mset.order_refl)

lemma loop_withE:
  assumes "loop_with M R L e"
  obtains H' L' where "loop_ok M R H' L' e" "L \<subseteq># L'"
  using assms unfolding loop_with_def by blast

lemma out_of_simps [simp]:
  "out_of k {#} = {#}"
  "out_of k (add_mset x M) = (if ptr_pool x = k then add_mset (ptr_addr x) (out_of k M) else out_of k M)"
  by (simp_all add: out_of_def)

lemma add_mset_minus: "R \<subseteq># M \<Longrightarrow> add_mset x M - R = add_mset x (M - R)"
  by (simp add: multiset_eq_iff subseteq_mset_def Suc_diff_le)

lemma loop_ok_fields [simp]:
  "loop_ok M R H L (e\<lparr>ring := q\<rparr>) = loop_ok M R H L e"
  "loop_ok M R H L (e\<lparr>getdents_queue := g\<rparr>) = loop_ok M R H L e"
  "loop_ok M R H L (e\<lparr>dir_ref_count := d\<rparr>) = loop_ok M R H L e"
  by (simp_all add: loop_ok_def)

text \<open>A request enters the ring, waits for an entry, and comes back after its completion.\<close>

lemma subset_add_mset: "R \<subseteq># M \<Longrightarrow> R \<subseteq># add_mset x M"
  by (metis add_mset_add_single mset_subset_eq_add_left subset_mset.order_trans)

lemma loop_ok_enter:
  assumes "loop_ok M R H L e"
  shows
    "pool_ok OPENAT queue_size p1 (add_mset a (out_of OPENAT (M - R))) \<Longrightarrow>
       loop_ok (add_mset (Req OPENAT a) M) R H L (e\<lparr>openat_request_pool := p1, ring := q, in_flight := in_flight e + 1\<rparr>)"
    "pool_ok CLOSE queue_size p2 (add_mset a (out_of CLOSE (M - R))) \<Longrightarrow>
       loop_ok (add_mset (Req CLOSE a) M) R H L (e\<lparr>close_request_pool := p2, ring := q, in_flight := in_flight e + 1\<rparr>)"
    "pool_ok READ queue_size p3 (add_mset a (out_of READ (M - R) + H + L)) \<Longrightarrow>
       loop_ok (add_mset (Req READ a) M) R H L (e\<lparr>read_request_pool := p3, ring := q, in_flight := in_flight e + 1\<rparr>)"
    "pool_ok WRITE queue_size p4 (add_mset a (out_of WRITE (M - R))) \<Longrightarrow>
       loop_ok (add_mset (Req WRITE a) M) R H L (e\<lparr>write_request_pool := p4, ring := q, in_flight := in_flight e + 1\<rparr>)"
  using assms by (simp_all add: loop_ok_def add_mset_minus subset_add_mset)

lemma loop_ok_wait:
  assumes "loop_ok M R H L e"
  shows
    "pool_ok OPENAT queue_size p1 (out_of OPENAT (M - R)) \<Longrightarrow>
       loop_ok M R H L (e\<lparr>openat_request_pool := p1, ring := q, in_flight := in_flight e\<rparr>)"
    "pool_ok CLOSE queue_size p2 (out_of CLOSE (M - R)) \<Longrightarrow>
       loop_ok M R H L (e\<lparr>close_request_pool := p2, ring := q, in_flight := in_flight e\<rparr>)"
    "pool_ok READ queue_size p3 (out_of READ (M - R) + H + L) \<Longrightarrow>
       loop_ok M R H L (e\<lparr>read_request_pool := p3, ring := q, in_flight := in_flight e\<rparr>)"
    "pool_ok WRITE queue_size p4 (out_of WRITE (M - R)) \<Longrightarrow>
       loop_ok M R H L (e\<lparr>write_request_pool := p4, ring := q, in_flight := in_flight e\<rparr>)"
  using assms by (simp_all add: loop_ok_def)

lemma minus_add_mset: "x \<in># M - R \<Longrightarrow> M - R = add_mset x (M - add_mset x R)"
  by (metis add_mset_remove_trivial_If diff_add_mset_swap diff_diff_add_mset insert_DiffM union_mset_add_mset_right add_mset_add_single)

lemma subset_minus_add: "x \<in># M - R \<Longrightarrow> R \<subseteq># M \<Longrightarrow> add_mset x R \<subseteq># M"
  by (metis add_mset_add_single mset_subset_eq_single subset_eq_diff_conv union_commute mset_subset_eq_mono_add subset_mset.add_diff_inverse subset_mset.order_refl)

lemma loop_ok_pools:
  assumes "loop_ok M R H L e"
  shows "pool_ok OPENAT queue_size (openat_request_pool e) (out_of OPENAT (M - R))"
    "pool_ok CLOSE queue_size (close_request_pool e) (out_of CLOSE (M - R))"
    "pool_ok READ queue_size (read_request_pool e) (out_of READ (M - R) + H + L)"
    "pool_ok WRITE queue_size (write_request_pool e) (out_of WRITE (M - R))"
  using assms by (simp_all add: loop_ok_def)

lemma freed:
  assumes "pool_ok k N p out" "out = out_of k (M - R) + X" "Req k a \<in># M - R"
  shows "\<exists>p'. pool_free a (p, n) = Returned (p', n - 1) \<and> pool_ok k N p' (out_of k (M - add_mset (Req k a) R) + X)"
proof -
  have "pool_ok k N p (add_mset a (out_of k (M - add_mset (Req k a) R) + X))"
    using assms(1) unfolding assms(2) minus_add_mset [OF assms(3)] by simp
  then show ?thesis by (rule pool_free_ok) blast
qed

lemma loop_ok_free:
  assumes "loop_ok M R H L e"
  shows
    "Req OPENAT a \<in># M - R \<Longrightarrow>
       \<exists>p'. pool_free a (openat_request_pool e, in_flight e) = Returned (p', in_flight e - 1) \<and>
         loop_ok M (add_mset (Req OPENAT a) R) H L (e\<lparr>openat_request_pool := p', in_flight := in_flight e - 1\<rparr>)"
    "Req CLOSE a \<in># M - R \<Longrightarrow>
       \<exists>p'. pool_free a (close_request_pool e, in_flight e) = Returned (p', in_flight e - 1) \<and>
         loop_ok M (add_mset (Req CLOSE a) R) H L (e\<lparr>close_request_pool := p', in_flight := in_flight e - 1\<rparr>)"
    "Req READ a \<in># M - R \<Longrightarrow>
       \<exists>p'. pool_free a (read_request_pool e, in_flight e) = Returned (p', in_flight e - 1) \<and>
         loop_ok M (add_mset (Req READ a) R) H L (e\<lparr>read_request_pool := p', in_flight := in_flight e - 1\<rparr>)"
    "Req WRITE a \<in># M - R \<Longrightarrow>
       \<exists>p'. pool_free a (write_request_pool e, in_flight e) = Returned (p', in_flight e - 1) \<and>
         loop_ok M (add_mset (Req WRITE a) R) H L (e\<lparr>write_request_pool := p', in_flight := in_flight e - 1\<rparr>)"
proof -
  note pools = loop_ok_pools [OF assms]
  have step: "word_of_nat (size (M - R) + size L) - (1 :: size_t) = word_of_nat (size (M - add_mset x R) + size L)"
    "add_mset x R \<subseteq># M" "\<And>y. y \<noteq> ptr_pool x \<Longrightarrow> out_of y (M - R) = out_of y (M - add_mset x R)" if "x \<in># M - R" for x
    using minus_add_mset [OF that] subset_minus_add [OF that] assms by (simp_all add: loop_ok_def)
  {
    assume x: "Req OPENAT a \<in># M - R"
    obtain p' where "pool_free a (openat_request_pool e, in_flight e) = Returned (p', in_flight e - 1)"
        "pool_ok OPENAT queue_size p' (out_of OPENAT (M - add_mset (Req OPENAT a) R) + ({#}))"
      using freed [OF pools(1) _ x, where X = "{#}" and n = "in_flight e"] by auto
    then show "\<exists>p'. pool_free a (openat_request_pool e, in_flight e) = Returned (p', in_flight e - 1) \<and>
         loop_ok M (add_mset (Req OPENAT a) R) H L (e\<lparr>openat_request_pool := p', in_flight := in_flight e - 1\<rparr>)"
      using assms step [OF x] by (intro exI [of _ p']) (simp add: loop_ok_def add.assoc)
  }
  {
    assume x: "Req CLOSE a \<in># M - R"
    obtain p' where "pool_free a (close_request_pool e, in_flight e) = Returned (p', in_flight e - 1)"
        "pool_ok CLOSE queue_size p' (out_of CLOSE (M - add_mset (Req CLOSE a) R) + ({#}))"
      using freed [OF pools(2) _ x, where X = "{#}" and n = "in_flight e"] by auto
    then show "\<exists>p'. pool_free a (close_request_pool e, in_flight e) = Returned (p', in_flight e - 1) \<and>
         loop_ok M (add_mset (Req CLOSE a) R) H L (e\<lparr>close_request_pool := p', in_flight := in_flight e - 1\<rparr>)"
      using assms step [OF x] by (intro exI [of _ p']) (simp add: loop_ok_def add.assoc)
  }
  {
    assume x: "Req READ a \<in># M - R"
    obtain p' where "pool_free a (read_request_pool e, in_flight e) = Returned (p', in_flight e - 1)"
        "pool_ok READ queue_size p' (out_of READ (M - add_mset (Req READ a) R) + (H + L))"
      using freed [OF pools(3) _ x, where X = "H + L" and n = "in_flight e"] by auto
    then show "\<exists>p'. pool_free a (read_request_pool e, in_flight e) = Returned (p', in_flight e - 1) \<and>
         loop_ok M (add_mset (Req READ a) R) H L (e\<lparr>read_request_pool := p', in_flight := in_flight e - 1\<rparr>)"
      using assms step [OF x] by (intro exI [of _ p']) (simp add: loop_ok_def add.assoc)
  }
  {
    assume x: "Req WRITE a \<in># M - R"
    obtain p' where "pool_free a (write_request_pool e, in_flight e) = Returned (p', in_flight e - 1)"
        "pool_ok WRITE queue_size p' (out_of WRITE (M - add_mset (Req WRITE a) R) + ({#}))"
      using freed [OF pools(4) _ x, where X = "{#}" and n = "in_flight e"] by auto
    then show "\<exists>p'. pool_free a (write_request_pool e, in_flight e) = Returned (p', in_flight e - 1) \<and>
         loop_ok M (add_mset (Req WRITE a) R) H L (e\<lparr>write_request_pool := p', in_flight := in_flight e - 1\<rparr>)"
      using assms step [OF x] by (intro exI [of _ p']) (simp add: loop_ok_def add.assoc)
  }
qed

text \<open>When the loop ends, nothing is left to do but what the write pool may hold back.\<close>

definition total_requests :: "'q event_loop \<Rightarrow> nat" where
  "total_requests e = 4 * queue_size + overflow_size (openat_request_pool e) + overflow_size (close_request_pool e) +
     overflow_size (read_request_pool e) + overflow_size (write_request_pool e)"

lemma size_out_of: "size M = size (out_of OPENAT M) + size (out_of CLOSE M) + size (out_of READ M) + size (out_of WRITE M)"
proof (induction M)
  case (add x M)
  then show ?case by (cases "ptr_pool x") simp_all
qed simp

lemma pool_ok_size: "pool_ok k N p out \<Longrightarrow> size out \<le> N + overflow_size p"
proof -
  assume "pool_ok k N p out"
  then have "in_lists p + out = all_requests p" "pool_size p = N" by (simp_all add: pool_ok_def)
  then have "size (in_lists p) + size out = N + overflow_size p"
    by (metis all_requests_def size_union size_mset length_map length_upt diff_zero)
  then show ?thesis by simp
qed

lemma finished_idle:
  assumes "loop_ok M {#} H L e" "in_flight e = 0" "total_requests e < 2 ^ 64"
  shows "M = {#}" "L = {#}"
proof -
  have "size M + size L \<le> total_requests e"
    using loop_ok_pools [OF assms(1), THEN pool_ok_size] size_out_of [of M] by (simp add: total_requests_def)
  then have small: "size M + size L < 2 ^ 64" using assms(3) by simp
  have "unat (word_of_nat n :: size_t) = n mod 2 ^ 64" for n by (simp add: unat_of_nat take_bit_eq_mod)
  moreover have "(word_of_nat (size M + size L) :: size_t) = 0" using assms(1,2) by (simp add: loop_ok_def)
  ultimately have "(size M + size L) mod 2 ^ 64 = 0" by (metis unsigned_0)
  then have "size M + size L = 0" using small by simp
  then show "M = {#}" "L = {#}" by simp_all
qed

context ring_contract
begin

text \<open>Queueing in general: \<open>put\<close> stores the pool, the ring and the counter.\<close>

lemma pool_next_loop_ok:
  assumes "pool_ok k N p out" "\<And>r. op (reset r) = op r" "pool_next u prep fresh reset (p, q, n) = (p', q', n')"
    and "\<And>a p' q'. pool_ok k N p' (add_mset a out) \<Longrightarrow> loop_ok (add_mset (Req k a) (infl q)) R H L (put p' q' (n + 1))"
    and "\<And>p' q'. pool_ok k N p' out \<Longrightarrow> loop_ok (infl q) R H L (put p' q' n)"
  shows "loop_ok (infl q') R H L (put p' q' n') \<and> later u infl q q'"
  using pool_next_ok(1,3) [OF assms(1-3)] assms(4,5) by (auto simp: later_def)

lemma queue_close_ok:
  assumes "loop_ok (infl (ring e)) R H L e"
  shows "loop_ok (infl (ring (queue_close u fd e))) R H L (queue_close u fd e) \<and>
    later u infl (ring e) (ring (queue_close u fd e))"
proof -
  obtain p q n where nxt: "pool_next u close_prep close_fresh (close_reset fd) (close_request_pool e, ring e, in_flight e) = (p, q, n)"
    by (metis prod_cases3)
  show ?thesis
    using pool_next_loop_ok [OF loop_ok_pools(2) [OF assms] _ nxt,
        where put = "\<lambda>p q n. e\<lparr>close_request_pool := p, ring := q, in_flight := n\<rparr>",
        OF _ loop_ok_enter(2) [OF assms] loop_ok_wait(2) [OF assms]]
    by (simp add: queue_close_def nxt close_reset_def)
qed

lemma queue_read_ok:
  assumes "loop_ok (infl (ring e)) R H L e"
  shows "loop_ok (infl (ring (queue_read u fd off e))) R H L (queue_read u fd off e) \<and>
    later u infl (ring e) (ring (queue_read u fd off e))"
proof -
  obtain p q n where nxt: "pool_next u read_prep read_fresh (read_reset fd off) (read_request_pool e, ring e, in_flight e) = (p, q, n)"
    by (metis prod_cases3)
  show ?thesis
    using pool_next_loop_ok [OF loop_ok_pools(3) [OF assms] _ nxt,
        where put = "\<lambda>p q n. e\<lparr>read_request_pool := p, ring := q, in_flight := n\<rparr>",
        OF _ loop_ok_enter(3) [OF assms] loop_ok_wait(3) [OF assms]]
    by (simp add: queue_read_def nxt read_reset_def)
qed

lemma queue_write_ok:
  assumes "loop_ok (infl (ring e)) R H L e"
  shows "loop_ok (infl (ring (queue_write u fd buf off e))) R H L (queue_write u fd buf off e) \<and>
    later u infl (ring e) (ring (queue_write u fd buf off e))"
proof -
  obtain p q n where nxt: "pool_next u write_prep write_fresh (write_reset fd buf off) (write_request_pool e, ring e, in_flight e) = (p, q, n)"
    by (metis prod_cases3)
  show ?thesis
    using pool_next_loop_ok [OF loop_ok_pools(4) [OF assms] _ nxt,
        where put = "\<lambda>p q n. e\<lparr>write_request_pool := p, ring := q, in_flight := n\<rparr>",
        OF _ loop_ok_enter(4) [OF assms] loop_ok_wait(4) [OF assms]]
    by (simp add: queue_write_def nxt write_reset_def)
qed

lemma next_openat_ok:
  assumes "loop_ok (infl (ring e)) R H L e"
  shows "loop_ok (infl (ring (next_openat u pfd nm fl e))) R H L (next_openat u pfd nm fl e) \<and>
    later u infl (ring e) (ring (next_openat u pfd nm fl e))"
proof -
  obtain p q n where nxt: "pool_next u open_at_prep open_at_fresh (open_at_reset pfd nm fl) (openat_request_pool e, ring e, in_flight e) = (p, q, n)"
    by (metis prod_cases3)
  show ?thesis
    using pool_next_loop_ok [OF loop_ok_pools(1) [OF assms] _ nxt,
        where put = "\<lambda>p q n. e\<lparr>openat_request_pool := p, ring := q, in_flight := n\<rparr>",
        OF _ loop_ok_enter(1) [OF assms] loop_ok_wait(1) [OF assms]]
    by (simp add: next_openat_def nxt open_at_reset_def)
qed

text \<open>Everything the handlers can do keeps the loop in order.\<close>

lemma lat: "later u infl q q' \<Longrightarrow> later u infl q' q'' \<Longrightarrow> later u infl q q''"
  by (rule later_trans)

lemma increase_dir_ref_ok:
  "loop_ok M R H L e \<Longrightarrow> safe_outcome (\<lambda>e'. loop_ok M R H L e' \<and> ring e' = ring e) (increase_dir_ref fd e)"
  by (simp add: increase_dir_ref_def split: option.splits)

lemma decrease_dir_ref_ok:
  assumes "loop_ok (infl (ring e)) R H L e"
  shows "safe_outcome (\<lambda>e'. loop_ok (infl (ring e')) R H L e' \<and> later u infl (ring e) (ring e')) (decrease_dir_ref u fd e)"
  using queue_close_ok [OF assms, of fd] assms by (simp add: decrease_dir_ref_def split: option.splits)

lemma queue_openat_ok:
  assumes "loop_ok (infl (ring e)) R H L e"
  shows "safe_outcome (\<lambda>e'. loop_ok (infl (ring e')) R H L e' \<and> later u infl (ring e) (ring e')) (queue_openat u pfd p fl e)"
proof -
  have "safe_outcome (\<lambda>e'. loop_ok (infl (ring e')) R H L e' \<and> ring e' = ring e) (increase_dir_ref pfd e)"
    using increase_dir_ref_ok [OF assms, of pfd] by (rule safe_outcome_mono) simp
  then show ?thesis
    using next_openat_ok [OF assms] next_openat_ok [of _ R H L]
    by (fastforce simp: queue_openat_def split: outcome.splits)
qed

lemma do_call_ok:
  assumes "loop_ok (infl (ring e)) R H L e"
  shows "safe_outcome (\<lambda>e'. loop_ok (infl (ring e')) R H L e' \<and> later u infl (ring e) (ring e')) (do_call u c e)"
  using queue_close_ok [OF assms] queue_read_ok [OF assms] queue_write_ok [OF assms] queue_openat_ok [OF assms] assms
  by (cases c) (simp_all add: queue_getdents_def)

lemma do_calls_ok:
  "loop_ok (infl (ring e)) R H L e \<Longrightarrow>
   safe_outcome (\<lambda>e'. loop_ok (infl (ring e')) R H L e' \<and> later u infl (ring e) (ring e')) (do_calls u cs e)"
proof (induction cs arbitrary: e)
  case (Cons c cs)
  show ?case unfolding do_calls.simps
  proof (rule safe_outcome_bind [OF do_call_ok [OF Cons.prems]])
    fix e1 assume e1: "loop_ok (infl (ring e1)) R H L e1 \<and> later u infl (ring e) (ring e1)"
    show "safe_outcome (\<lambda>e'. loop_ok (infl (ring e')) R H L e' \<and> later u infl (ring e) (ring e')) (do_calls u cs e1)"
      using e1 lat by (intro safe_outcome_mono [OF Cons.IH]) blast+
  qed
qed simp

lemma later_mem: "later u infl q q' \<Longrightarrow> x \<in># infl q - R \<Longrightarrow> x \<in># infl q' - R"
  by (auto simp: later_def in_diff_count subseteq_mset_def intro: less_le_trans)

text \<open>
  The completions. Each handler starts with its request in the ring and not yet handled, and
  ends with the request handled.
\<close>

lemma handle_openat_ok:
  assumes "loop_ok (infl (ring e)) R H L e" "Req OPENAT a \<in># infl (ring e) - R"
  shows "safe_outcome (\<lambda>(e', h'). loop_ok (infl (ring e')) (add_mset (Req OPENAT a) R) H L e' \<and> later u infl (ring e) (ring e'))
    (handle_openat u hs a res (e, h))"
proof -
  obtain calls h' where handler: "(if 0 \<le> res then openat_handler hs res (is_file (requests (openat_request_pool e) a)) h else ([], h)) = (calls, h')"
    by fastforce
  have free: "safe_outcome (\<lambda>(e', h'). loop_ok (infl (ring e')) (add_mset (Req OPENAT a) R) H L e' \<and> later u infl (ring e) (ring e'))
      (bind_outcome (pool_free a (openat_request_pool e2, in_flight e2)) (\<lambda>(p, n).
             Returned (e2\<lparr>openat_request_pool := p, in_flight := n\<rparr>, h')))"
    if "loop_ok (infl (ring e2)) R H L e2" "later u infl (ring e) (ring e2)" for e2
    using loop_ok_free(1) [OF that(1) later_mem [OF that(2) assms(2)]] that(2) by (elim exE conjE) simp
  show ?thesis
    unfolding handle_openat_def prod.case handler Let_def
  proof (rule safe_outcome_bind [OF do_calls_ok [OF assms(1)]])
    fix e1 assume e1: "loop_ok (infl (ring e1)) R H L e1 \<and> later u infl (ring e) (ring e1)"
    let ?pfd = "parent_fd (requests (openat_request_pool e1) a)"
    have "safe_outcome (\<lambda>e2. loop_ok (infl (ring e2)) R H L e2 \<and> later u infl (ring e1) (ring e2))
        (if ?pfd \<noteq> AT_FDCWD then decrease_dir_ref u ?pfd e1 else Returned e1)"
      using decrease_dir_ref_ok [of e1 R H L ?pfd] e1 by simp
    then have "safe_outcome (\<lambda>e2. loop_ok (infl (ring e2)) R H L e2 \<and> later u infl (ring e) (ring e2))
        (if ?pfd \<noteq> AT_FDCWD then decrease_dir_ref u ?pfd e1 else Returned e1)"
      by (rule safe_outcome_mono) (use e1 lat in blast)
    then show "safe_outcome (\<lambda>(e', h'). loop_ok (infl (ring e')) (add_mset (Req OPENAT a) R) H L e' \<and> later u infl (ring e) (ring e'))
        (bind_outcome (if ?pfd \<noteq> AT_FDCWD then decrease_dir_ref u ?pfd e1 else Returned e1) (\<lambda>e2.
           bind_outcome (pool_free a (openat_request_pool e2, in_flight e2)) (\<lambda>(p, n).
             Returned (e2\<lparr>openat_request_pool := p, in_flight := n\<rparr>, h'))))"
      by (rule safe_outcome_bind) (rule free, simp_all)
  qed
qed

lemma handle_close_ok:
  assumes "loop_ok (infl (ring e)) R H L e" "Req CLOSE a \<in># infl (ring e) - R"
  shows "safe_outcome (\<lambda>(e', h'). loop_ok (infl (ring e')) (add_mset (Req CLOSE a) R) H L e' \<and> later u infl (ring e) (ring e'))
    (handle_close u hs a (e, h))"
proof -
  obtain calls h' where handler: "close_handler hs h = (calls, h')" by fastforce
  show ?thesis
    unfolding handle_close_def prod.case handler
  proof (rule safe_outcome_bind [OF do_calls_ok [OF assms(1)]])
    fix e1 assume e1: "loop_ok (infl (ring e1)) R H L e1 \<and> later u infl (ring e) (ring e1)"
    then have "Req CLOSE a \<in># infl (ring e1) - R" using later_mem assms(2) by blast
    from loop_ok_free(2) [OF _ this] e1
    show "safe_outcome (\<lambda>(e', h'). loop_ok (infl (ring e')) (add_mset (Req CLOSE a) R) H L e' \<and> later u infl (ring e) (ring e'))
      (bind_outcome (pool_free a (close_request_pool e1, in_flight e1)) (\<lambda>(p, n).
         Returned (e1\<lparr>close_request_pool := p, in_flight := n\<rparr>, h')))" by fastforce
  qed
qed

text \<open>A request whose fields are changed in place.\<close>

lemma loop_ok_write_read:
  "loop_ok M R H L e \<Longrightarrow> op r = op (requests (read_request_pool e) a) \<Longrightarrow>
   loop_ok M R H L (e\<lparr>read_request_pool := (read_request_pool e)\<lparr>requests := (requests (read_request_pool e))(a := r)\<rparr>\<rparr>)"
  by (simp add: loop_ok_def pool_ok_write)

lemma loop_ok_write_write:
  "loop_ok M R H L e \<Longrightarrow> op r = op (requests (write_request_pool e) a) \<Longrightarrow>
   loop_ok M R H L (e\<lparr>write_request_pool := (write_request_pool e)\<lparr>requests := (requests (write_request_pool e))(a := r)\<rparr>\<rparr>)"
  by (simp add: loop_ok_def pool_ok_write)

lemma handle_write_ok:
  assumes "loop_ok (infl (ring e)) R H L e" "Req WRITE a \<in># infl (ring e) - R"
  shows "safe_outcome (\<lambda>(e', h'). loop_ok (infl (ring e')) (add_mset (Req WRITE a) R) H L e' \<and> later u infl (ring e) (ring e'))
    (handle_write u hs a res (e, h))"
proof -
  obtain calls h' where handler: "write_handler hs (wr_fd (requests (write_request_pool e) a)) res h = (calls, h')" by fastforce
  show ?thesis
    unfolding handle_write_def prod.case handler Let_def
  proof (rule safe_outcome_bind [OF do_calls_ok [OF assms(1)]])
    fix e1 assume e1: "loop_ok (infl (ring e1)) R H L e1 \<and> later u infl (ring e) (ring e1)"
    let ?p = "write_request_pool e1"
    let ?r = "requests ?p a"
    let ?m = "e1\<lparr>write_request_pool := ?p\<lparr>requests := (requests ?p)(a := ?r\<lparr>wr_buffer := []\<rparr>)\<rparr>\<rparr>"
    let ?e2 = "if wr_offset ?r + word_of_int res \<noteq> size_of (wr_buffer ?r)
      then queue_write u (wr_fd ?r) (wr_buffer ?r) (wr_offset ?r + word_of_int res) ?m else e1"
    have "loop_ok (infl (ring ?m)) R H L ?m" using loop_ok_write_write [of _ R H L e1] e1 by simp
    from queue_write_ok [OF this] have e2: "loop_ok (infl (ring ?e2)) R H L ?e2 \<and> later u infl (ring e) (ring ?e2)"
      using e1 lat by (cases "wr_offset ?r + word_of_int res \<noteq> size_of (wr_buffer ?r)") (simp, blast, simp)
    then have "Req WRITE a \<in># infl (ring ?e2) - R" using later_mem assms(2) by blast
    from loop_ok_free(4) [OF conjunct1 [OF e2] this] e2
    show "safe_outcome (\<lambda>(e', h'). loop_ok (infl (ring e')) (add_mset (Req WRITE a) R) H L e' \<and> later u infl (ring e) (ring e'))
      (bind_outcome (pool_free a (write_request_pool ?e2, in_flight ?e2)) (\<lambda>(p', n).
                Returned (?e2\<lparr>write_request_pool := p', in_flight := n\<rparr>, h')))" by (elim exE conjE) simp
  qed
qed

text \<open>A read is handed to its handler, or has failed.\<close>

lemma loop_ok_hand:
  assumes "loop_ok M R H L e" "Req READ a \<in># M - R"
  shows "loop_ok M (add_mset (Req READ a) R) (add_mset a H) L (e\<lparr>in_flight := in_flight e - 1\<rparr>)"
    "loop_ok M (add_mset (Req READ a) R) H (add_mset a L) e"
  using assms(1) minus_add_mset [OF assms(2)] subset_minus_add [OF assms(2)] subset_add_mset [of "mset (read_free_queue e)" H a]
  by (simp_all add: loop_ok_def)

lemma read_end_ok:
  assumes "loop_ok (infl (ring e)) R H L e" "Req READ a \<in># infl (ring e) - R"
  shows "safe_outcome (\<lambda>(answer, e', h'). loop_with (infl (ring e')) (add_mset (Req READ a) R) L e' \<and>
      later u infl (ring e) (ring e')) (handle_read u hs a 0 data (e, h))"
proof -
  define e1 where "e1 = queue_close u (rd_fd (requests (read_request_pool e) a)) e"
  have e1: "loop_ok (infl (ring e1)) R H L e1" "later u infl (ring e) (ring e1)"
    unfolding e1_def using queue_close_ok [OF assms(1)] by simp_all
  obtain p' where "pool_free a (read_request_pool e1, in_flight e1) = Returned (p', in_flight e1 - 1)"
      "loop_ok (infl (ring e1)) (add_mset (Req READ a) R) H L (e1\<lparr>read_request_pool := p', in_flight := in_flight e1 - 1\<rparr>)"
    using loop_ok_free(3) [OF e1(1) later_mem [OF e1(2) assms(2)]] by (elim exE conjE)
  then show ?thesis
    using e1(2) loop_with_self by (simp add: handle_read_def Let_def e1_def [symmetric])
qed

lemma read_data_ok:
  assumes "loop_ok (infl (ring e)) R H L e" "Req READ a \<in># infl (ring e) - R" "0 < res"
  shows "safe_outcome (\<lambda>(answer, e', h'). loop_with (infl (ring e')) (add_mset (Req READ a) R) L e' \<and>
      later u infl (ring e) (ring e')) (handle_read u hs a res data (e, h))"
proof -
  define r where "r = (requests (read_request_pool e) a)\<lparr>
    rd_buffer := data @ drop (length data) (rd_buffer (requests (read_request_pool e) a)), rd_res := word_of_int res\<rparr>"
  define e1 where "e1 = e\<lparr>read_request_pool := (read_request_pool e)\<lparr>requests := (requests (read_request_pool e))(a := r)\<rparr>,
    in_flight := in_flight e - 1\<rparr>"
  have "loop_ok (infl (ring e)) R H L (e\<lparr>read_request_pool := (read_request_pool e)\<lparr>requests := (requests (read_request_pool e))(a := r)\<rparr>\<rparr>)"
    by (rule loop_ok_write_read [OF assms(1)]) (simp add: r_def)
  from loop_ok_hand(1) [OF this assms(2)]
  have e1: "loop_ok (infl (ring e1)) (add_mset (Req READ a) R) (add_mset a H) L e1" and ring: "ring e1 = ring e"
    by (simp_all add: e1_def)
  obtain x h' where "read_handler hs a r h = (x, h')" by fastforce
  moreover obtain answer calls where "x = (answer, calls)" by fastforce
  ultimately have handler: "read_handler hs a r h = ((answer, calls), h')" by simp
  have eq: "handle_read u hs a res data (e, h) = bind_outcome (do_calls u calls e1) (\<lambda>e2.
       case answer of
         Inl err \<Rightarrow> Returned (Inl err, e2, h')
       | Inr _ \<Rightarrow> Returned (Inr (), queue_read u (rd_fd (requests (read_request_pool e2) a))
             (rd_offset (requests (read_request_pool e2) a) + word_of_int res) e2, h'))"
    using assms(3) handler unfolding handle_read_def Let_def prod.case r_def e1_def by simp
  have "safe_outcome (\<lambda>(answer, e', h'). loop_ok (infl (ring e')) (add_mset (Req READ a) R) (add_mset a H) L e' \<and>
      later u infl (ring e) (ring e'))
    (bind_outcome (do_calls u calls e1) (\<lambda>e2.
       case answer of
         Inl err \<Rightarrow> Returned (Inl err, e2, h')
       | Inr _ \<Rightarrow> Returned (Inr (), queue_read u (rd_fd (requests (read_request_pool e2) a))
             (rd_offset (requests (read_request_pool e2) a) + word_of_int res) e2, h')))"
  proof (rule safe_outcome_bind [OF do_calls_ok [OF e1]])
    fix e2 assume "loop_ok (infl (ring e2)) (add_mset (Req READ a) R) (add_mset a H) L e2 \<and> later u infl (ring e1) (ring e2)"
    then have e2: "loop_ok (infl (ring e2)) (add_mset (Req READ a) R) (add_mset a H) L e2" "later u infl (ring e) (ring e2)"
      using ring by simp_all
    have "loop_ok (infl (ring (queue_read u fd off e2))) (add_mset (Req READ a) R) (add_mset a H) L (queue_read u fd off e2)"
      "later u infl (ring e) (ring (queue_read u fd off e2))" for fd off
      using conjunct1 [OF queue_read_ok [OF e2(1)]] lat [OF e2(2) conjunct2 [OF queue_read_ok [OF e2(1)]]] .
    note rd = this
    show "safe_outcome (\<lambda>(answer, e', h'). loop_ok (infl (ring e')) (add_mset (Req READ a) R) (add_mset a H) L e' \<and>
        later u infl (ring e) (ring e'))
      (case answer of
         Inl err \<Rightarrow> Returned (Inl err, e2, h')
       | Inr _ \<Rightarrow> Returned (Inr (), queue_read u (rd_fd (requests (read_request_pool e2) a))
             (rd_offset (requests (read_request_pool e2) a) + word_of_int res) e2, h'))"
      by (cases answer; simp only: sum.case safe_outcome_simps prod.case) (intro conjI e2 rd)+
  qed
  then have "safe_outcome (\<lambda>(answer, e', h'). loop_ok (infl (ring e')) (add_mset (Req READ a) R) (add_mset a H) L e' \<and>
      later u infl (ring e) (ring e')) (handle_read u hs a res data (e, h))"
    unfolding eq .
  then show ?thesis by (rule safe_outcome_mono) (use loop_with_self in fast)
qed

lemma handle_read_ok:
  assumes "loop_ok (infl (ring e)) R H L e" "Req READ a \<in># infl (ring e) - R"
  shows "safe_outcome (\<lambda>(answer, e', h'). loop_with (infl (ring e')) (add_mset (Req READ a) R) L e' \<and>
      later u infl (ring e) (ring e')) (handle_read u hs a res data (e, h))"
proof -
  consider "res = 0" | "0 < res" | "res < 0" by linarith
  then show ?thesis
  proof cases
    case 3
    have "loop_with (infl (ring e)) (add_mset (Req READ a) R) L e"
      by (rule loop_withI [OF loop_ok_hand(2) [OF assms]]) (simp add: subset_add_mset)
    then show ?thesis using 3 by (simp add: handle_read_def Let_def)
  qed (use read_end_ok [OF assms] read_data_ok [OF assms] in simp_all)
qed

text \<open>A completion belongs to a request that is out, and its tag is the pool of its pointer.\<close>

lemma out_of_mem: "x \<in># N \<Longrightarrow> ptr_addr x \<in># out_of (ptr_pool x) N"
  by (auto simp: out_of_def)

lemma base_op_eq:
  assumes "loop_ok M R H L e" "x \<in># M - R"
  shows "base_op x e = ptr_pool x"
proof -
  have "ptr_addr x \<in># out_of (ptr_pool x) (M - R)" by (rule out_of_mem [OF assms(2)])
  then show ?thesis
    using loop_ok_pools [OF assms(1), THEN pool_ok_tag, of "ptr_addr x"]
    by (cases x; cases "ptr_pool x") (auto simp: base_op_def)
qed

lemma next_completion:
  assumes "loop_ok (infl (ring e)) (reaped u (ring e) k) H L e" "visible u (ring e) k" "u_cqe u k (ring e) = Some c"
  shows "\<exists>x. user_data c = Some x \<and> x \<in># infl (ring e) - reaped u (ring e) k \<and>
    reaped u (ring e) (Suc k) = add_mset x (reaped u (ring e) k) \<and> visible u (ring e) (Suc k)"
proof -
  have vis: "visible u (ring e) (Suc k)" using assms(2,3) by (simp add: visible_Suc)
  obtain x where x: "user_data c = Some x"
    using completed [OF vis] assms(3) by (metis lessI option.collapse option.sel)
  have R: "reaped u (ring e) (Suc k) = add_mset x (reaped u (ring e) k)" by (simp add: reaped_Suc [OF assms(3)] x)
  have "x \<in># infl (ring e) - reaped u (ring e) k"
    using completed [OF vis] unfolding R by (auto simp: in_diff_count subseteq_mset_def dest: spec [of _ x])
  with x R vis show ?thesis by blast
qed

lemma handle_cqe_ok:
  assumes "loop_ok (infl (ring e)) (reaped u (ring e) k) H L e" "visible u (ring e) k" "u_cqe u k (ring e) = Some c"
  shows "safe_outcome (\<lambda>(answer, e', h').
      loop_with (infl (ring e')) (reaped u (ring e') (Suc k)) L e' \<and> visible u (ring e') (Suc k))
    (handle_cqe u hs c (e, h))"
proof -
  let ?R = "reaped u (ring e) k"
  obtain x where x: "user_data c = Some x" and mem: "x \<in># infl (ring e) - ?R"
      and R: "reaped u (ring e) (Suc k) = add_mset x ?R" and vis: "visible u (ring e) (Suc k)"
    using next_completion [OF assms] by blast
  obtain k' a where ka: "x = Req k' a" by (cases x)
  have base: "base_op x e = k'" using base_op_eq [OF assms(1) mem] ka by simp
  have fin: "safe_outcome (\<lambda>(answer, e', h').
      loop_with (infl (ring e')) (reaped u (ring e') (Suc k)) L e' \<and> visible u (ring e') (Suc k)) r"
    if "safe_outcome (\<lambda>(answer, e', h'). loop_with (infl (ring e')) (add_mset x ?R) L e' \<and>
      later u infl (ring e) (ring e')) r" for r
    using that by (rule safe_outcome_mono)
      (auto simp: later_def keeps_reaped [OF _ vis, unfolded R] keeps_visible [OF _ vis])
  have fin': "safe_outcome (\<lambda>(answer, e', h'). loop_with (infl (ring e')) (reaped u (ring e') (Suc k)) L e' \<and>
      visible u (ring e') (Suc k)) (bind_outcome r (\<lambda>s'. Returned (Inr (), s')))"
    if "safe_outcome (\<lambda>(e', h'). loop_ok (infl (ring e')) (add_mset x ?R) H L e' \<and> later u infl (ring e) (ring e')) r" for r
    by (rule fin) (use that in \<open>cases r; auto intro: loop_with_self\<close>)
  note handled = handle_openat_ok [OF assms(1)] handle_close_ok [OF assms(1)] handle_write_ok [OF assms(1)]
  show ?thesis
  proof (cases k')
    case OPENAT
    then show ?thesis using mem base fin' [unfolded ka OPENAT, OF handled(1)] by (simp add: handle_cqe_def x ka Let_def)
  next
    case CLOSE
    then show ?thesis using mem base fin' [unfolded ka CLOSE, OF handled(2)] by (simp add: handle_cqe_def x ka Let_def)
  next
    case READ
    then show ?thesis using mem base fin [unfolded ka READ, OF handle_read_ok [OF assms(1)]] by (simp add: handle_cqe_def x ka Let_def)
  next
    case WRITE
    then show ?thesis using mem base fin' [unfolded ka WRITE, OF handled(3)] by (simp add: handle_cqe_def x ka Let_def)
  qed
qed

text \<open>All completions of a round.\<close>

lemma loop_with_mono: "loop_with M R L' e \<Longrightarrow> L \<subseteq># L' \<Longrightarrow> loop_with M R L e"
  by (erule loop_withE, erule loop_withI) (rule subset_mset.order_trans)

lemma each_cqe_ok:
  assumes "each_cqe u hs k (e, h) = Some r" "loop_with (infl (ring e)) (reaped u (ring e) k) L e" "visible u (ring e) k"
  shows "safe_outcome (\<lambda>(answer, k', e', h'). case answer of
      Inl _ \<Rightarrow> \<exists>R. loop_with (infl (ring e')) R L e'
    | Inr _ \<Rightarrow> loop_with (infl (ring e')) (reaped u (ring e') k') L e' \<and> visible u (ring e') k') r"
proof -
  have "u = u \<longrightarrow> loop_with (infl (ring (fst (e, h)))) (reaped u (ring (fst (e, h))) k) L (fst (e, h)) \<longrightarrow>
    visible u (ring (fst (e, h))) k \<longrightarrow>
    safe_outcome (\<lambda>(answer, k', e', h'). case answer of
      Inl _ \<Rightarrow> \<exists>R. loop_with (infl (ring e')) R L e'
    | Inr _ \<Rightarrow> loop_with (infl (ring e')) (reaped u (ring e') k') L e' \<and> visible u (ring e') k') r"
  proof (rule each_cqe.raw_induct [OF _ assms(1), where P = "\<lambda>u' hs k s r. u' = u \<longrightarrow>
      loop_with (infl (ring (fst s))) (reaped u (ring (fst s)) k) L (fst s) \<longrightarrow> visible u (ring (fst s)) k \<longrightarrow>
      safe_outcome (\<lambda>(answer, k', e', h'). case answer of
        Inl _ \<Rightarrow> \<exists>R. loop_with (infl (ring e')) R L e'
      | Inr _ \<Rightarrow> loop_with (infl (ring e')) (reaped u (ring e') k') L e' \<and> visible u (ring e') k') r"],
      intro impI, goal_cases)
    case (1 each_cqe u' hs k s r)
    obtain e h where s: "s = (e, h)" by fastforce
    note [simp] = s \<open>u' = u\<close>
    obtain H' L' where ok: "loop_ok (infl (ring e)) (reaped u (ring e) k) H' L' e" and le: "L \<subseteq># L'"
      using 1(4) by (auto elim: loop_withE)
    show ?case
    proof (cases "u_cqe u k (ring e)")
      case None
      then show ?thesis using 1(2,4,5) by auto
    next
      case (Some c)
      note step = handle_cqe_ok [OF ok 1(5) [unfolded s fst_conv] Some, of hs h]
      show ?thesis
      proof (cases "handle_cqe u hs c (e, h)")
        case (Returned x)
        obtain answer e' h' where x: "x = (answer, e', h')" by (metis prod_cases3)
        have inv: "loop_with (infl (ring e')) (reaped u (ring e') (Suc k)) L e'" "visible u (ring e') (Suc k)"
          using step loop_with_mono [OF _ le, of _ _ e'] unfolding Returned x by simp_all
        show ?thesis
        proof (cases answer)
          case (Inl err)
          then show ?thesis using 1(2) inv(1) Some Returned x by auto
        next
          case (Inr y)
          then have "each_cqe u hs (Suc k) (e', h') = Some r" using 1(2) Some Returned x by simp
          from 1(1) [OF this] show ?thesis using inv by simp
        qed
      qed (use step 1(2) Some in auto)
    qed
  qed
  then show ?thesis using assms(2,3) by simp
qed

text \<open>Listing directories.\<close>

abbreviation fine :: "addr multiset \<Rightarrow> addr multiset \<Rightarrow> ('q, 'h, 'w) loop_state \<Rightarrow> bool" where
  "fine H L s \<equiv> loop_ok (infl (ring (fst s))) {#} H L (fst s)"

lemma on_entry_ok:
  assumes "fine H L s"
  shows "safe_outcome (fine H L) (on_entry u hs fd d s)"
proof -
  obtain e h w where s: "s = (e, h, w)" by (metis prod_cases3)
  obtain calls h' where handler: "getdents_handler hs fd (d_type d = DT_REG) (d_name d) h = (calls, h')" by fastforce
  have "safe_outcome (fine H L) (bind_outcome (do_calls u calls e) (\<lambda>e'. Returned (e', h', w)))"
    by (rule safe_outcome_bind [OF do_calls_ok [OF assms [unfolded s fst_conv]]]) simp
  then show ?thesis using assms by (simp add: on_entry_def s Let_def handler)
qed

lemma entry_body_ok:
  assumes "safe_outcome P (f s)"
  shows "\<exists>r s'. entry_body f s = Some (r, s') \<and> (r = Returned () \<and> P s' \<or> r = Contract_Violation)"
  using assms by (cases "f s") (simp_all add: entry_body_def)

lemma each_entry_ok:
  assumes "\<And>d s. P s \<Longrightarrow> safe_outcome P (f d s)" "P s"
  shows "\<exists>r s'. each_entry (\<lambda>d. entry_body (f d)) ds s = Some (r, s') \<and> (r = Returned () \<and> P s' \<or> r = Contract_Violation)"
  using assms(2)
proof (induction ds arbitrary: s)
  case (Cons d ds)
  obtain r s' where "entry_body (f d) s = Some (r, s')" "r = Returned () \<and> P s' \<or> r = Contract_Violation"
    using entry_body_ok [where f = "f d" and s = s and P = P] assms(1) [OF Cons.prems] by blast
  then show ?case using Cons.IH [of s'] by auto
qed simp

lemma list_dir_ok:
  assumes "getdents_ok os" "list_dir u os hs fd s = Some r" "fine H L s"
  shows "safe_outcome (fine H L) r"
proof -
  have "u = u \<longrightarrow> getdents_ok os \<longrightarrow> fine H L s \<longrightarrow> safe_outcome (fine H L) r"
  proof (rule list_dir.raw_induct [OF _ assms(2), where P = "\<lambda>u' os hs fd s r. u' = u \<longrightarrow> getdents_ok os \<longrightarrow>
      fine H L s \<longrightarrow> safe_outcome (fine H L) r"], intro impI, goal_cases)
    case (1 list_dir u' os hs fd s r)
    obtain e h w where s: "s = (e, h, w)" by (metis prod_cases3)
    obtain rd buffer w' where call: "sys_getdents64 os fd (32 * 1024) w = ((rd, buffer), w')" by (metis surj_pair)
    have u: "u' = u" and ok: "getdents_ok os" and fine: "fine H L (e, h, w')" using 1(3-5) s by simp_all
    show ?case
    proof (cases "0 < rd")
      case False
      then show ?thesis using 1(2) call s fine by (cases "rd < 0") auto
    next
      case True
      then obtain ds where ds: "\<forall>d \<in> set ds. wf_dirent d" "take (nat rd) buffer = concat (map encode_dirent ds)"
        using ok call unfolding getdents_ok_def by blast
      let ?f = "\<lambda>d. entry_body (on_entry u hs fd d)"
      have walk: "walk_dirents ?f (take (nat rd) buffer) (e, h, w') = each_entry ?f ds (e, h, w')"
        unfolding ds(2) by (rule walk_dirents_encoded [OF ds(1)])
      obtain r1 s1 where run: "each_entry ?f ds (e, h, w') = Some (r1, s1)" "r1 = Returned () \<and> fine H L s1 \<or> r1 = Contract_Violation"
        using each_entry_ok [of "fine H L" "on_entry u hs fd" "(e, h, w')" ds] on_entry_ok fine by blast
      from run(2) show ?thesis
      proof (elim disjE conjE)
        assume r1: "r1 = Returned ()" "fine H L s1"
        then have "list_dir u os hs fd s1 = Some r" using 1(2) True run(1) unfolding s u prod.case call walk by simp
        from 1(1) [OF this] show ?thesis using ok r1(2) by simp
      next
        assume "r1 = Contract_Violation"
        then show ?thesis using 1(2) True run(1) unfolding s u prod.case call walk by auto
      qed
    qed
  qed
  then show ?thesis using assms by simp
qed

lemma list_dirs_ok:
  assumes "getdents_ok os"
  shows "list_dirs u os hs fds s = Some r \<Longrightarrow> fine H L s \<Longrightarrow> safe_outcome (fine H L) r"
proof (induction fds arbitrary: s)
  case (Cons fd fds)
  obtain e h w where s: "s = (e, h, w)" by (metis prod_cases3)
  let ?s = "(e\<lparr>dir_ref_count := (dir_ref_count e)(fd \<mapsto> 1)\<rparr>, h, w)"
  let ?dec = "\<lambda>(e', h', w'). bind_outcome (decrease_dir_ref u fd e') (\<lambda>e''. Returned (e'', h', w'))"
  obtain r1 where list: "list_dir u os hs fd ?s = Some r1" using Cons.prems(1) s by (auto split: option.splits)
  have "safe_outcome (fine H L) r1" by (rule list_dir_ok [OF assms list]) (use Cons.prems(2) s in simp)
  then have r2: "safe_outcome (fine H L) (bind_outcome r1 ?dec)"
  proof (rule safe_outcome_bind)
    fix s1 assume s1: "fine H L s1"
    obtain e1 h1 w1 where eq: "s1 = (e1, h1, w1)" by (metis prod_cases3)
    show "safe_outcome (fine H L) (?dec s1)"
      unfolding eq prod.case by (rule safe_outcome_bind [OF decrease_dir_ref_ok [OF s1 [unfolded eq fst_conv]]]) simp
  qed
  show ?case
  proof (cases "bind_outcome r1 ?dec")
    case (Returned s')
    then have "list_dirs u os hs fds s' = Some r" using Cons.prems(1) s list by simp
    then show ?thesis using Cons.IH r2 unfolding Returned by simp
  qed (use r2 Cons.prems(1) s list in auto)
qed (auto simp: safe_outcome_def)

text \<open>The requests that wait for an entry: what still waits afterwards found the submission queue full.\<close>

lemma try_pop_loop_ok:
  assumes "pool_ok k N p out" "pool_try_pop_overflow u prep (p, q, n) = (b, p', q', n')"
    and "\<And>a p' q'. pool_ok k N p' (add_mset a out) \<Longrightarrow> loop_ok (add_mset (Req k a) (infl q)) R H L (put p' q' (n + 1))"
    and "\<And>p' q'. pool_ok k N p' out \<Longrightarrow> loop_ok (infl q) R H L (put p' q' n)"
  shows "loop_ok (infl q') R H L (put p' q' n') \<and>
    (\<not> b \<longrightarrow> infl q' = infl q \<and> p' = p \<and> (sqe_overflow p = [] \<or> infl q \<noteq> {#}))"
  using try_pop_ok [OF assms(1,2)] assms(1,3,4) by (auto split: if_splits)

lemma overflow_round_ok:
  assumes "loop_ok (infl (ring e)) R H L e" "overflow_round u e = (b, e')"
  shows "loop_ok (infl (ring e')) R H L e' \<and> (\<not> b \<longrightarrow> waiting e' = 0 \<or> infl (ring e') \<noteq> {#}) \<and>
    write_request_pool e' = write_request_pool e"
proof -
  obtain b1 p1 q1 n1 where t1: "pool_try_pop_overflow u open_at_prep (openat_request_pool e, ring e, in_flight e) = (b1, p1, q1, n1)"
    by (metis prod_cases4)
  define e1 where "e1 = e\<lparr>openat_request_pool := p1, ring := q1, in_flight := n1\<rparr>"
  obtain b2 p2 q2 n2 where t2: "pool_try_pop_overflow u close_prep (close_request_pool e1, ring e1, in_flight e1) = (b2, p2, q2, n2)"
    by (metis prod_cases4)
  define e2 where "e2 = e1\<lparr>close_request_pool := p2, ring := q2, in_flight := n2\<rparr>"
  obtain b3 p3 q3 n3 where t3: "pool_try_pop_overflow u read_prep (read_request_pool e2, ring e2, in_flight e2) = (b3, p3, q3, n3)"
    by (metis prod_cases4)
  define e3 where "e3 = e2\<lparr>read_request_pool := p3, ring := q3, in_flight := n3\<rparr>"
  have res: "(b, e') = (if b1 then (True, e1) else if b2 then (True, e2) else (b3, e3))"
    using assms(2) unfolding overflow_round_def t1 prod.case Let_def e1_def [symmetric] t2 e2_def [symmetric] t3 e3_def [symmetric]
    by simp
  note o1 = try_pop_loop_ok [OF loop_ok_pools(1) [OF assms(1)] t1,
      where put = "\<lambda>p q n. e\<lparr>openat_request_pool := p, ring := q, in_flight := n\<rparr>",
      OF loop_ok_enter(1) [OF assms(1)] loop_ok_wait(1) [OF assms(1)]]
  then have i1: "loop_ok (infl (ring e1)) R H L e1" by (simp add: e1_def)
  note o2 = try_pop_loop_ok [OF loop_ok_pools(2) [OF i1] t2,
      where put = "\<lambda>p q n. e1\<lparr>close_request_pool := p, ring := q, in_flight := n\<rparr>",
      OF loop_ok_enter(2) [OF i1] loop_ok_wait(2) [OF i1]]
  then have i2: "loop_ok (infl (ring e2)) R H L e2" by (simp add: e2_def)
  note o3 = try_pop_loop_ok [OF loop_ok_pools(3) [OF i2] t3,
      where put = "\<lambda>p q n. e2\<lparr>read_request_pool := p, ring := q, in_flight := n\<rparr>",
      OF loop_ok_enter(3) [OF i2] loop_ok_wait(3) [OF i2]]
  then have i3: "loop_ok (infl (ring e3)) R H L e3" by (simp add: e3_def)
  have w: "write_request_pool e1 = write_request_pool e" "write_request_pool e2 = write_request_pool e"
    "write_request_pool e3 = write_request_pool e" by (simp_all add: e1_def e2_def e3_def)
  have "waiting e3 = 0 \<or> infl (ring e3) \<noteq> {#}" if "\<not> b1" "\<not> b2" "\<not> b3"
    using that o1 o2 o3 by (auto simp: e1_def e2_def e3_def waiting_def)
  then show ?thesis using res i1 i2 i3 w by (auto split: if_splits)
qed

lemma drain_overflow_ok:
  "loop_ok (infl (ring e)) R H L e \<Longrightarrow>
   loop_ok (infl (ring (drain_overflow u e))) R H L (drain_overflow u e) \<and>
   (waiting (drain_overflow u e) = 0 \<or> infl (ring (drain_overflow u e)) \<noteq> {#}) \<and>
   write_request_pool (drain_overflow u e) = write_request_pool e"
proof (induction "waiting e" arbitrary: e rule: less_induct)
  case less
  obtain b e' where round: "overflow_round u e = (b, e')" by fastforce
  note ok = overflow_round_ok [OF less.prems round]
  show ?case
  proof (cases b)
    case True
    then have "waiting e' < waiting e" using overflow_round_decreases round by simp
    moreover have "drain_overflow u e = drain_overflow u e'" by (subst drain_overflow.simps) (simp add: round True)
    ultimately show ?thesis using less.hyps [of e'] ok by simp
  next
    case False
    then have "drain_overflow u e = e'" by (subst drain_overflow.simps) (simp add: round)
    then show ?thesis using ok False by simp
  qed
qed

text \<open>The reads that come back.\<close>

lemma return_reads_ok:
  "loop_ok M R (mset as + H) L e \<Longrightarrow> read_free_queue e = [] \<Longrightarrow>
   \<exists>e'. return_reads as e = Returned e' \<and> loop_ok M R H L e' \<and> ring e' = ring e \<and> waiting e' = waiting e \<and>
     write_request_pool e' = write_request_pool e"
proof (induction as arbitrary: e)
  case (Cons a as)
  have "pool_ok READ queue_size (read_request_pool e) (add_mset a (out_of READ (M - R) + (mset as + H) + L))"
    using loop_ok_pools(3) [OF Cons.prems(1)] by simp
  then obtain p' where p': "pool_free a (read_request_pool e, in_flight e) = Returned (p', in_flight e - 1)"
      "pool_ok READ queue_size p' (out_of READ (M - R) + (mset as + H) + L)"
      "sqe_overflow p' = sqe_overflow (read_request_pool e)"
    by (rule pool_free_ok)
  let ?e = "e\<lparr>read_request_pool := p', in_flight := in_flight e - 1 + 1\<rparr>"
  have "loop_ok M R (mset as + H) L ?e" using Cons.prems p'(2) by (simp add: loop_ok_def)
  from Cons.IH [OF this] show ?case using Cons.prems(2) p' by (auto simp: waiting_def)
qed auto

lemma collect_phase_ok:
  assumes "loop_ok (infl (ring e)) {#} H L e"
  shows "\<exists>e'. collect_phase u e = Returned e' \<and> loop_ok (infl (ring e')) {#} (H - mset (read_free_queue (drain_overflow u e))) L e' \<and>
    (waiting e' = 0 \<or> infl (ring e') \<noteq> {#}) \<and> write_request_pool e' = write_request_pool e"
proof -
  let ?e = "drain_overflow u e"
  note d = drain_overflow_ok [OF assms]
  then have "mset (read_free_queue ?e) \<subseteq># H" by (simp add: loop_ok_def)
  then have "mset (read_free_queue ?e) + (H - mset (read_free_queue ?e)) = H" by simp
  then have "loop_ok (infl (ring ?e)) {#} (mset (read_free_queue ?e) + (H - mset (read_free_queue ?e))) L (?e\<lparr>read_free_queue := []\<rparr>)"
    using conjunct1 [OF d] by (simp add: loop_ok_def)
  from return_reads_ok [OF this] obtain e' where
      "return_reads (read_free_queue ?e) (?e\<lparr>read_free_queue := []\<rparr>) = Returned e'"
      "loop_ok (infl (ring ?e)) {#} (H - mset (read_free_queue ?e)) L e'" "ring e' = ring ?e" "waiting e' = waiting ?e"
      "write_request_pool e' = write_request_pool ?e"
    by (auto simp: waiting_def)
  then show ?thesis using d by (simp add: collect_phase_def Let_def)
qed

lemma completion_phase_ok:
  fixes h :: 'h
  assumes "completion_phase u hs (e, h) = Some r" "loop_ok (infl (ring e)) {#} H L e"
  shows "safe_outcome (\<lambda>(answer, e', h'). answer \<noteq> Finished \<and> (\<exists>R. loop_with (infl (ring e')) R L e' \<and>
      ((\<forall>err. answer \<noteq> Failed err) \<longrightarrow> R = {#}))) r"
proof -
  obtain res q where sub: "u_submit u (ring e) = (res, q)" by fastforce
  have infl: "infl q = infl (ring e)" by (rule submitted [OF sub])
  show ?thesis
  proof (cases "res < 0")
    case True
    have "loop_with (infl (ring (e\<lparr>ring := q\<rparr>))) {#} L (e\<lparr>ring := q\<rparr>)"
      using loop_with_self [OF assms(2)] infl by (auto simp: loop_with_def)
    then show ?thesis using assms(1) True sub by (auto simp: completion_phase_def)
  next
    case False
    obtain q' where wait: "(if u_peek u q \<noteq> 0 then u_wait u q else Some q) = Some q'"
      using assms(1) sub False by (auto simp: completion_phase_def split: option.splits)
    then have infl': "infl q' = infl (ring e)" using infl waited [of q q'] by (auto split: if_splits)
    obtain r1 where each: "each_cqe u hs 0 (e\<lparr>ring := q'\<rparr>, h) = Some r1"
      and r: "r = bind_outcome r1 (\<lambda>(answer, k, e', h'). case answer of
          Inl err \<Rightarrow> Returned (Failed err, e', h')
        | Inr _ \<Rightarrow> Returned (Again, e'\<lparr>ring := u_advance u k (ring e')\<rparr>, h'))"
      using assms(1) sub False wait by (auto simp: completion_phase_def split: option.splits)
    have start: "loop_with (infl (ring (e\<lparr>ring := q'\<rparr>))) (reaped u (ring (e\<lparr>ring := q'\<rparr>)) 0) L (e\<lparr>ring := q'\<rparr>)"
      using loop_with_self [OF assms(2)] infl' by (auto simp: loop_with_def)
    show ?thesis unfolding r
    proof (rule safe_outcome_bind [OF each_cqe_ok [OF each start]])
      show "visible u (ring (e\<lparr>ring := q'\<rparr>)) 0" by simp
      fix x :: "unit expected \<times> nat \<times> 'q event_loop \<times> 'h"
      assume x: "case x of (answer, k', e', h') \<Rightarrow> (case answer of
          Inl _ \<Rightarrow> \<exists>R. loop_with (infl (ring e')) R L e'
        | Inr _ \<Rightarrow> loop_with (infl (ring e')) (reaped u (ring e') k') L e' \<and> visible u (ring e') k')"
      obtain answer k e' h' where eq: "x = (answer, k, e', h')" by (metis prod_cases4)
      show "safe_outcome (\<lambda>(answer, e', h'). answer \<noteq> Finished \<and> (\<exists>R. loop_with (infl (ring e')) R L e' \<and>
          ((\<forall>err. answer \<noteq> Failed err) \<longrightarrow> R = {#})))
        (case x of (answer, k, e', h') \<Rightarrow> (case answer of
            Inl err \<Rightarrow> Returned (Failed err, e', h')
          | Inr _ \<Rightarrow> Returned (Again, e'\<lparr>ring := u_advance u k (ring e')\<rparr>, h')))"
      proof (cases answer)
        case (Inl err)
        then show ?thesis using x eq by auto
      next
        case (Inr y)
        then have "loop_with (infl (ring e')) (reaped u (ring e') k) L e'" "visible u (ring e') k" using x eq by simp_all
        then have "loop_with (infl (u_advance u k (ring e'))) {#} L (e'\<lparr>ring := u_advance u k (ring e')\<rparr>)"
          using advanced [of "ring e'" k] by (auto simp: loop_with_def loop_ok_def)
        then show ?thesis using eq Inr by auto
      qed
    qed
  qed
qed

lemma pump_round_ok:
  fixes h :: 'h and w :: 'w
  assumes "getdents_ok os" "loop_ok (infl (ring e)) {#} H L e" "pump_round u os hs (e, h, w) = Some r"
  shows "safe_outcome (\<lambda>(answer, e', h', w').
      (\<exists>R. loop_with (infl (ring e')) R L e' \<and> ((\<forall>err. answer \<noteq> Failed err) \<longrightarrow> R = {#})) \<and>
      (answer = Finished \<longrightarrow> in_flight e' = 0 \<and> (waiting e' = 0 \<or> infl (ring e') \<noteq> {#}))) r"
    (is "safe_outcome ?Q r")
proof -
  let ?collect = "\<lambda>(e, h, w). bind_outcome (collect_phase u e) (\<lambda>e'. Returned (e', h, w))"
  let ?P = "\<lambda>(e', h', w'). loop_with (infl (ring e')) {#} L e' \<and> (waiting e' = 0 \<or> infl (ring e') \<noteq> {#})"
  obtain r1 where list: "listing_phase u os hs (e, h, w) = Some r1"
    using assms(3) by (auto simp: pump_round_def split: option.splits)
  have "safe_outcome (fine H L) r1"
    using list_dirs_ok [OF assms(1) list [unfolded listing_phase_def prod.case]] assms(2) by simp
  then have c: "safe_outcome (\<lambda>(e', h' :: 'h, w' :: 'w). (\<exists>H'. loop_ok (infl (ring e')) {#} H' L e') \<and>
      (waiting e' = 0 \<or> infl (ring e') \<noteq> {#})) (bind_outcome r1 ?collect)"
  proof (rule safe_outcome_bind)
    fix s :: "('q, 'h, 'w) loop_state" assume s: "fine H L s"
    obtain e1 h1 w1 where eq: "s = (e1, h1, w1)" by (metis prod_cases3)
    obtain e2 where "collect_phase u e1 = Returned e2"
        "loop_ok (infl (ring e2)) {#} (H - mset (read_free_queue (drain_overflow u e1))) L e2"
        "waiting e2 = 0 \<or> infl (ring e2) \<noteq> {#}"
      using collect_phase_ok [OF s [unfolded eq fst_conv]] by blast
    then show "safe_outcome (\<lambda>(e', h', w'). (\<exists>H'. loop_ok (infl (ring e')) {#} H' L e') \<and>
        (waiting e' = 0 \<or> infl (ring e') \<noteq> {#})) (?collect s)" by (auto simp: eq)
  qed
  show ?thesis
  proof (cases "bind_outcome r1 ?collect")
    case (Returned s)
    obtain e1 h1 w1 where eq: "s = (e1, h1, w1)" by (metis prod_cases3)
    obtain H' where inv: "loop_ok (infl (ring e1)) {#} H' L e1" "waiting e1 = 0 \<or> infl (ring e1) \<noteq> {#}"
      using c unfolding Returned eq by auto
    have r: "Some r = (if in_flight e1 = 0 then Some (Returned (Finished, e1, h1, w1))
        else (case completion_phase u hs (e1, h1) of
                None \<Rightarrow> None
              | Some r2 \<Rightarrow> Some (bind_outcome r2 (\<lambda>(answer, e', h'). Returned (answer, e', h', w1)))))"
      using assms(3) unfolding pump_round_def list option.case Returned eq by simp
    show ?thesis
    proof (cases "in_flight e1 = 0")
      case True
      then show ?thesis using r inv loop_with_self [OF inv(1)] by auto
    next
      case False
      then obtain r2 where fin: "completion_phase u hs (e1, h1) = Some r2"
        and r: "r = bind_outcome r2 (\<lambda>(answer, e', h'). Returned (answer, e', h', w1))"
        using r by (auto split: option.splits)
      show ?thesis unfolding r
        by (rule safe_outcome_bind [OF completion_phase_ok [OF fin inv(1)]]) auto
    qed
  qed (use c assms(3) list in \<open>auto simp: pump_round_def\<close>)
qed

lemma pump_ok:
  fixes s :: "('q, 'h, 'w) loop_state"
  assumes "getdents_ok os" "pump u os hs s = Some r" "loop_with (infl (ring (fst s))) {#} L (fst s)"
  shows "safe_outcome (\<lambda>(answer, e', h', w').
      \<exists>R. loop_with (infl (ring e')) R L e' \<and>
        (answer = Inr () \<longrightarrow> R = {#} \<and> in_flight e' = 0 \<and> (waiting e' = 0 \<or> infl (ring e') \<noteq> {#}))) r"
proof -
  let ?Q = "\<lambda>(answer :: unit expected, e', h' :: 'h, w' :: 'w). \<exists>R. loop_with (infl (ring e')) R L e' \<and>
        (answer = Inr () \<longrightarrow> R = {#} \<and> in_flight e' = 0 \<and> (waiting e' = 0 \<or> infl (ring e') \<noteq> {#}))"
  have "u = u \<longrightarrow> getdents_ok os \<longrightarrow> loop_with (infl (ring (fst s))) {#} L (fst s) \<longrightarrow> safe_outcome ?Q r"
  proof (rule pump.raw_induct [OF _ assms(2), where P = "\<lambda>u' os hs s r. u' = u \<longrightarrow> getdents_ok os \<longrightarrow>
      loop_with (infl (ring (fst s))) {#} L (fst s) \<longrightarrow> safe_outcome ?Q r"], intro impI, goal_cases)
    case (1 pump u' os hs s r)
    obtain e h w where s: "s = (e, h, w)" by (metis prod_cases3)
    have u: "u' = u" and ok: "getdents_ok os" using 1(3,4) by simp_all
    obtain H' L' where inv: "loop_ok (infl (ring e)) {#} H' L' e" and le: "L \<subseteq># L'"
      using 1(5) s by (auto elim: loop_withE)
    obtain r1 where round: "pump_round u os hs (e, h, w) = Some r1" using 1(2) s u by (auto split: option.splits)
    note safe = pump_round_ok [OF ok inv round]
    show ?case
    proof (cases r1)
      case (Returned x)
      obtain answer e1 h1 w1 where x: "x = (answer, e1, h1, w1)" by (metis prod_cases4)
      obtain R where R: "loop_with (infl (ring e1)) R L' e1" "(\<forall>err. answer \<noteq> Failed err) \<longrightarrow> R = {#}"
        "answer = Finished \<longrightarrow> in_flight e1 = 0 \<and> (waiting e1 = 0 \<or> infl (ring e1) \<noteq> {#})"
        using safe unfolding Returned x by auto
      have RL: "loop_with (infl (ring e1)) R L e1" by (rule loop_with_mono [OF R(1) le])
      show ?thesis
      proof (cases answer)
        case Again
        then have "pump u os hs (e1, h1, w1) = Some r" using 1(2) s u round Returned x by simp
        from 1(1) [OF this] show ?thesis using ok RL R(2) Again by simp
      next
        case Finished
        then have "r = Returned (Inr (), e1, h1, w1)" using 1(2) s u round Returned x by simp
        then show ?thesis using RL R(2,3) Finished by auto
      next
        case (Failed err)
        then have "r = Returned (Inl err, e1, h1, w1)" using 1(2) s u round Returned x by simp
        then show ?thesis using RL by auto
      qed
    qed (use safe 1(2) s u round in auto)
  qed
  then show ?thesis using assms by simp
qed

end

section \<open>A small ring\<close>

text \<open>
  A ring that fits the contract, for examples: a submission queue of at least one entry, completions in
  the order of submission, and a function that answers the operations.
\<close>

record sim_ring =
  sr_more :: nat
  sr_staged :: prepared
  sr_sq :: "(prepared \<times> req_ptr) list"
  sr_cq :: "(req_ptr \<times> int \<times> bytes) list"
  sr_answer :: "prepared \<Rightarrow> int \<times> bytes"

definition sim_uring :: "sim_ring uring" where
  "sim_uring = \<lparr>
     u_get_sqe = (\<lambda>q. (if length (sr_sq q) \<le> sr_more q then Some (length (sr_sq q)) else None, q)),
     u_prep = (\<lambda>slot p q. q\<lparr>sr_staged := p\<rparr>),
     u_set_data = (\<lambda>slot x q. q\<lparr>sr_sq := sr_sq q @ [(sr_staged q, x)]\<rparr>),
     u_submit = (\<lambda>q. (int (length (sr_sq q)),
       q\<lparr>sr_sq := [], sr_cq := sr_cq q @ map (\<lambda>(p, x). (x, sr_answer q p)) (sr_sq q)\<rparr>)),
     u_peek = (\<lambda>q. if sr_cq q = [] then - 11 else 0),
     u_wait = (\<lambda>q. if sr_cq q = [] then None else Some q),
     u_cqe = (\<lambda>i q. if i < length (sr_cq q)
       then Some \<lparr>user_data = Some (fst (sr_cq q ! i)), cqe_res = fst (snd (sr_cq q ! i)), cqe_bytes = snd (snd (sr_cq q ! i))\<rparr>
       else None),
     u_advance = (\<lambda>k q. q\<lparr>sr_cq := drop k (sr_cq q)\<rparr>)\<rparr>"

definition sim_infl :: "sim_ring \<Rightarrow> req_ptr multiset" where
  "sim_infl q = mset (map snd (sr_sq q)) + mset (map fst (sr_cq q))"

lemma sim_uring_simps [simp]:
  "u_get_sqe sim_uring q = (if length (sr_sq q) \<le> sr_more q then Some (length (sr_sq q)) else None, q)"
  "u_prep sim_uring slot p q = q\<lparr>sr_staged := p\<rparr>"
  "u_set_data sim_uring slot x q = q\<lparr>sr_sq := sr_sq q @ [(sr_staged q, x)]\<rparr>"
  "u_submit sim_uring q = (int (length (sr_sq q)),
       q\<lparr>sr_sq := [], sr_cq := sr_cq q @ map (\<lambda>(p, x). (x, sr_answer q p)) (sr_sq q)\<rparr>)"
  "u_peek sim_uring q = (if sr_cq q = [] then - 11 else 0)"
  "u_wait sim_uring q = (if sr_cq q = [] then None else Some q)"
  "u_cqe sim_uring i q = (if i < length (sr_cq q)
       then Some \<lparr>user_data = Some (fst (sr_cq q ! i)), cqe_res = fst (snd (sr_cq q ! i)), cqe_bytes = snd (snd (sr_cq q ! i))\<rparr>
       else None)"
  "u_advance sim_uring k q = q\<lparr>sr_cq := drop k (sr_cq q)\<rparr>"
  by (simp_all add: sim_uring_def)

lemma sim_visible: "visible sim_uring q k \<longleftrightarrow> k \<le> length (sr_cq q)"
  by (auto simp: visible_def not_less dest: leI)

lemma sim_reaped: "k \<le> length (sr_cq q) \<Longrightarrow> reaped sim_uring q k = mset (map fst (take k (sr_cq q)))"
proof -
  assume k: "k \<le> length (sr_cq q)"
  have "map (\<lambda>i. the (user_data (the (u_cqe sim_uring i q)))) [0..<k] = map (\<lambda>i. fst (sr_cq q ! i)) [0..<k]"
    using k by simp
  also have "\<dots> = map fst (take k (sr_cq q))" using k by (simp add: list_eq_iff_nth_eq)
  finally show ?thesis unfolding reaped_def by (rule arg_cong)
qed

interpretation sim_ring: ring_contract sim_uring sim_infl
proof
  fix q q' slot x y
  assume "u_get_sqe sim_uring q = (Some slot, q')"
  then show "sim_infl (u_set_data sim_uring slot x (u_prep sim_uring slot y q')) = add_mset x (sim_infl q) \<and>
      keeps_cqes sim_uring q (u_set_data sim_uring slot x (u_prep sim_uring slot y q'))"
    by (auto simp: sim_infl_def keeps_cqes_def split: if_splits)
next
  fix q q'
  assume "u_get_sqe sim_uring q = (None, q')"
  then show "sim_infl q' = sim_infl q \<and> sim_infl q \<noteq> {#} \<and> keeps_cqes sim_uring q q'"
    by (auto simp: sim_infl_def split: if_splits)
next
  fix q r q'
  assume "u_submit sim_uring q = (r, q')"
  moreover have "map fst (map (\<lambda>(p, x). (x, sr_answer q p)) sq) = map snd sq"
    for sq :: "(prepared \<times> req_ptr) list"
    by (induction sq) auto
  ultimately show "sim_infl q' = sim_infl q"
    by (auto simp: sim_infl_def simp flip: mset_map simp del: map_map)
next
  fix q q'
  assume "u_wait sim_uring q = Some q'"
  then show "sim_infl q' = sim_infl q" by (simp split: if_splits)
next
  fix q k
  assume "visible sim_uring q k"
  then have k: "k \<le> length (sr_cq q)" by (simp add: sim_visible)
  have split: "mset (map fst (sr_cq q)) = mset (map fst (take k (sr_cq q))) + mset (map fst (drop k (sr_cq q)))"
    by (metis append_take_drop_id map_append mset_append)
  show "(\<forall>i < k. user_data (the (u_cqe sim_uring i q)) \<noteq> None) \<and> reaped sim_uring q k \<subseteq># sim_infl q"
    using k by (simp add: sim_reaped sim_infl_def split [simplified])
  show "sim_infl (u_advance sim_uring k q) = sim_infl q - reaped sim_uring q k"
    using k by (simp add: sim_reaped sim_infl_def split [simplified])
qed

section \<open>Examples\<close>

definition quiet :: "unit handlers" where
  "quiet = \<lparr>openat_handler = (\<lambda>fd isf h. ([], h)), getdents_handler = (\<lambda>fd isf nm h. ([], h)),
     close_handler = (\<lambda>h. ([], h)), read_handler = (\<lambda>a r h. ((Inr (), []), h)), write_handler = (\<lambda>fd res h. ([], h))\<rparr>"

text \<open>A ring with one submission entry whose opens answer descriptor 7.\<close>

definition one_entry :: sim_ring where
  "one_entry = \<lparr>sr_more = 0, sr_staged = Prep_Close 0, sr_sq = [], sr_cq = [], sr_answer = (\<lambda>p. (7, []))\<rparr>"

definition idle_loop :: "sim_ring event_loop" where
  "idle_loop = \<lparr>ring = one_entry, in_flight = 0,
     openat_request_pool = make_request_pool OPENAT queue_size open_at_fresh,
     close_request_pool = make_request_pool CLOSE queue_size close_fresh,
     read_request_pool = make_request_pool READ queue_size read_fresh,
     write_request_pool = make_request_pool WRITE queue_size write_fresh,
     getdents_queue = [], dir_ref_count = Map.empty, read_free_queue = []\<rparr>"

lemma start_ok: "make_event_loop queue_init = Returned e \<Longrightarrow> infl (ring e) = {#} \<Longrightarrow> loop_ok (infl (ring e)) {#} {#} {#} e"
  by (auto simp: make_event_loop_def loop_ok_def request_pool_ok split: if_splits prod.splits)

lemma idle_loop_started: "make_event_loop (\<lambda>n. (0, one_entry)) = Returned idle_loop"
  by (simp add: make_event_loop_def idle_loop_def)

lemma idle_loop_ok: "loop_ok (sim_infl (ring idle_loop)) {#} {#} {#} idle_loop"
  by (rule start_ok [OF idle_loop_started]) (simp add: idle_loop_def one_entry_def sim_infl_def)

text \<open>An open that fills the submission queue, and a write behind it.\<close>

definition open_and_write :: "sim_ring event_loop" where
  "open_and_write = queue_write sim_uring 1 ''hello'' 0 (next_openat sim_uring AT_FDCWD ''a'' 0 idle_loop)"

lemma open_and_write_ok: "loop_ok (sim_infl (ring open_and_write)) {#} {#} {#} open_and_write"
  using sim_ring.queue_write_ok [OF conjunct1 [OF sim_ring.next_openat_ok [OF idle_loop_ok]]]
  by (simp add: open_and_write_def)

definition opened :: open_at_request where
  "opened = \<lparr>op = OPENAT, sqe = Some 0, path = ''a'', oa_fd = - 1, oa_flags = 0, is_file = True, parent_fd = AT_FDCWD\<rparr>"

lemma queue_size_pos [simp]: "0 < queue_size"
  by (simp add: queue_size_def)

definition last_request :: addr where
  "last_request = In_Pool (queue_size - 1)"

text \<open>The first request of a fresh pool is the last of \<^verbatim>\<open>pool_\<close>.\<close>

lemma first_request:
  "take_request fresh (make_request_pool k queue_size f) =
     (last_request, (make_request_pool k queue_size f)\<lparr>free_list := butlast (map In_Pool [0..<queue_size])\<rparr>)"
  by (simp add: take_request_def make_request_pool_def last_request_def last_map)

lemma request_pool_fields [simp]:
  "pool_op (make_request_pool k n f) = k" "requests (make_request_pool k n f) = (\<lambda>_. f\<lparr>op := k\<rparr>)"
  "sqe_overflow (make_request_pool k n f) = []" "overflow_size (make_request_pool k n f) = 0" "pool_size (make_request_pool k n f) = n"
  by (simp_all add: make_request_pool_def)

lemma open_and_write_eq:
  "ring open_and_write = one_entry\<lparr>sr_staged := Prep_Openat AT_FDCWD ''a'' 0,
     sr_sq := [(Prep_Openat AT_FDCWD ''a'' 0, Req OPENAT last_request)]\<rparr>"
  "in_flight open_and_write = 1"
  "requests (openat_request_pool open_and_write) last_request = opened"
  "sqe_overflow (write_request_pool open_and_write) = [last_request]"
  "getdents_queue open_and_write = []" "waiting open_and_write = 0" "read_free_queue open_and_write = []"
  by (simp_all add: open_and_write_def queue_write_def next_openat_def pool_next_def first_request idle_loop_def
      enter_ring_def one_entry_def open_at_reset_def open_at_prep_def open_at_fresh_def opened_def Let_def waiting_def)

lemma nothing_waits: "waiting e = 0 \<Longrightarrow> drain_overflow u e = e"
  by (subst drain_overflow.simps) (simp add: overflow_round_def waiting_def pool_try_pop_overflow_def Let_def)

text \<open>A round without directories, waiting requests and returned reads goes straight to the completions.\<close>

lemma plain_round:
  assumes "getdents_queue e = []" "waiting e = 0" "read_free_queue e = []"
  shows "pump_round u os hs (e, h, w) =
    (if in_flight e = 0 then Some (Returned (Finished, e, h, w))
     else (case completion_phase u hs (e, h) of
             None \<Rightarrow> None
           | Some r2 \<Rightarrow> Some (bind_outcome r2 (\<lambda>(answer, e', h'). Returned (answer, e', h', w)))))"
proof -
  have "listing_phase u os hs (e, h, w) = Some (Returned (e, h, w))" using assms(1) by (simp add: listing_phase_def)
  moreover have "collect_phase u e = Returned e" using assms(2,3) by (simp add: collect_phase_def nothing_waits Let_def)
  ultimately show ?thesis by (simp add: pump_round_def)
qed

definition after_open :: "sim_ring event_loop" where
  "after_open = open_and_write\<lparr>ring := one_entry\<lparr>sr_staged := Prep_Openat AT_FDCWD ''a'' 0\<rparr>,
     openat_request_pool := (openat_request_pool open_and_write)\<lparr>free_list :=
       free_list (openat_request_pool open_and_write) @ [last_request]\<rparr>, in_flight := 0\<rparr>"

lemma open_and_write_free:
  "pool_free last_request (openat_request_pool open_and_write, n) =
     Returned ((openat_request_pool open_and_write)\<lparr>free_list :=
       free_list (openat_request_pool open_and_write) @ [last_request]\<rparr>, n - 1)"
  by (simp add: open_and_write_def queue_write_def next_openat_def pool_next_def first_request idle_loop_def
      enter_ring_def one_entry_def Let_def pool_free_def last_request_def)

lemma open_completes:
  "completion_phase sim_uring quiet (open_and_write, ()) = Some (Returned (Again, after_open, ()))"
proof -
  let ?q = "one_entry\<lparr>sr_staged := Prep_Openat AT_FDCWD ''a'' 0, sr_sq := [], sr_cq := [(Req OPENAT last_request, 7, [])]\<rparr>"
  let ?e = "open_and_write\<lparr>ring := ?q\<rparr>"
  let ?e' = "after_open\<lparr>ring := ?q\<rparr>"
  have handle: "handle_cqe sim_uring quiet \<lparr>user_data = Some (Req OPENAT last_request), cqe_res = 7, cqe_bytes = []\<rparr> (?e, ()) =
      Returned (Inr (), ?e', ())"
    by (simp add: handle_cqe_def base_op_def open_and_write_eq opened_def handle_openat_def quiet_def Let_def
        open_and_write_free after_open_def)
  have "each_cqe sim_uring quiet 1 (?e', ()) = Some (Returned (Inr (), 1, ?e', ()))"
    by (subst each_cqe.simps) simp
  then have "each_cqe sim_uring quiet 0 (?e, ()) = Some (Returned (Inr (), 1, ?e', ()))"
    by (subst each_cqe.simps) (simp add: handle)
  then show ?thesis
    by (simp add: completion_phase_def open_and_write_eq one_entry_def after_open_def)
qed

lemma open_pumped:
  "pump sim_uring os quiet (open_and_write, (), w) = Some (Returned (Inr (), after_open, (), w))"
proof -
  have first: "pump_round sim_uring os quiet (open_and_write, (), w) = Some (Returned (Again, after_open, (), w))"
    by (simp add: plain_round open_and_write_eq open_completes)
  have "waiting after_open = waiting open_and_write" by (simp add: after_open_def waiting_def)
  then have "pump_round sim_uring os quiet (after_open, (), w) = Some (Returned (Finished, after_open, (), w))"
    by (subst plain_round) (simp_all add: open_and_write_eq, simp_all add: after_open_def open_and_write_eq)
  then have "pump sim_uring os quiet (after_open, (), w) = Some (Returned (Inr (), after_open, (), w))"
    by (subst pump.simps) simp
  then show ?thesis by (subst pump.simps) (simp add: first)
qed

section \<open>Properties\<close>


text \<open>A kernel with nothing to list.\<close>

definition sim_empty :: "sim os" where
  "sim_empty = sim_os\<lparr>sys_getdents64 := (\<lambda>fd sz w. ((0, []), w))\<rparr>"

lemma sim_getdents_ok: "getdents_ok sim_empty"
  by (simp add: getdents_ok_def sim_empty_def)


text \<open>
  C36. A failed read keeps the loop from ever ending: the completion of a read with an error leaves the
  request out of the pool and \<^verbatim>\<open>in_flight_\<close> as it was, and from a state with a failed read \<^verbatim>\<open>pump\<close> does
  not return without an error (unless \<open>2 ^ 64\<close> requests exist and the counter has wrapped).
\<close>

theorem failed_read_is_never_forgotten:
  assumes "ring_contract u infl" "getdents_ok os" "loop_ok (infl (ring e)) R H L e"
    "Req READ a \<in># infl (ring e) - R" "res < 0"
  shows "handle_read u hs a res data (e, h) = Returned (Inr (), e, h) \<and>
    loop_ok (infl (ring e)) (add_mset (Req READ a) R) H (add_mset a L) e \<and>
    (\<forall>e1 h1 w1 H1 L1 e2 h2 w2. loop_ok (infl (ring e1)) {#} H1 (add_mset a L1) e1 \<longrightarrow>
       pump u os hs (e1, h1, w1) = Some (Returned (Inr (), e2, h2, w2)) \<longrightarrow> 2 ^ 64 \<le> total_requests e2)"
proof (intro conjI allI impI)
  show "handle_read u hs a res data (e, h) = Returned (Inr (), e, h)" using assms(5) by (simp add: handle_read_def Let_def)
  show "loop_ok (infl (ring e)) (add_mset (Req READ a) R) H (add_mset a L) e"
    by (rule ring_contract.loop_ok_hand(2) [OF assms(1,3,4)])
  fix e1 h1 w1 H1 L1 e2 h2 w2
  assume "loop_ok (infl (ring e1)) {#} H1 (add_mset a L1) e1" "pump u os hs (e1, h1, w1) = Some (Returned (Inr (), e2, h2, w2))"
  then have "loop_with (infl (ring (fst (e1, h1, w1)))) {#} (add_mset a L1) (fst (e1, h1, w1))"
      "pump u os hs (e1, h1, w1) = Some (Returned (Inr (), e2, h2, w2))" by (simp_all add: loop_with_self)
  from ring_contract.pump_ok [OF assms(1,2) this(2,1)]
  obtain H' L' where "loop_ok (infl (ring e2)) {#} H' L' e2" "add_mset a L1 \<subseteq># L'" "in_flight e2 = 0"
    by (auto simp: loop_with_def)
  then show "2 ^ 64 \<le> total_requests e2" using finished_idle(2) [of "infl (ring e2)" H' L' e2] by fastforce
qed

definition read_queued :: "sim_ring event_loop" where
  "read_queued = queue_read sim_uring 7 0 idle_loop"

lemma read_queued_ring: "sim_infl (ring read_queued) = {#Req READ last_request#}"
  by (simp add: read_queued_def queue_read_def pool_next_def first_request idle_loop_def enter_ring_def one_entry_def
      Let_def sim_infl_def)

theorem failed_read_is_never_forgotten_witness:
  "handle_read sim_uring quiet last_request (- 5) [] (read_queued, ()) = Returned (Inr (), read_queued, ()) \<and>
    loop_ok (sim_infl (ring read_queued)) {#Req READ last_request#} {#} {#last_request#} read_queued"
proof -
  have ok: "loop_ok (sim_infl (ring read_queued)) {#} {#} {#} read_queued"
    unfolding read_queued_def using sim_ring.queue_read_ok [OF idle_loop_ok] by simp
  have "Req READ last_request \<in># sim_infl (ring read_queued) - {#}" by (simp add: read_queued_ring)
  from failed_read_is_never_forgotten [OF sim_ring.ring_contract_axioms sim_getdents_ok ok this, of "- 5" quiet "[]" "()"]
  show ?thesis by simp
qed


text \<open>Whether a prepared write reads inside its buffer.\<close>

definition reads_inside :: "prepared \<Rightarrow> bool" where
  "reads_inside p = (case p of Prep_Write fd buf off len pos \<Rightarrow> unat off + len \<le> length buf | _ \<Rightarrow> True)"



end
