(* ===== verification/Event_Loop_Dirs.thy ===== *)
theory Event_Loop_Dirs
  imports Event_Loop_Safety
begin

section \<open>Which directories are in use\<close>

text \<open>
  \<^verbatim>\<open>dir_ref_count_\<close> of \<^verbatim>\<open>utils/event_loop.h\<close> counts, for a directory, the opens that name it as their parent, and one
  more while it is listed; when the count falls to zero the directory is closed. Here the counts are shown to be exact
  through every round of \<^verbatim>\<open>pump\<close>, on top of the invariant of \<open>Event_Loop_Safety\<close>, and so that none of the
  loop's contracts on them is ever violated when the handlers behave.
\<close>

definition used :: "'a request_pool \<Rightarrow> addr multiset" where
  "used p = all_requests p - (mset (free_list p) + mset (pool_overflow_free_list p))"

definition parents :: "unit open_at_request_ext request_pool \<Rightarrow> int multiset" where
  "parents p = filter_mset (\<lambda>fd. fd \<noteq> AT_FDCWD) (image_mset (\<lambda>a. parent_fd (requests p a)) (used p))"

definition counts :: "int multiset \<Rightarrow> int \<Rightarrow> size_t option" where
  "counts P fd = (if fd \<in># P then Some (word_of_nat (count P fd)) else None)"

lemma used_ok: "pool_ok k N p out \<Longrightarrow> used p = mset (sqe_overflow p) + out"
proof -
  assume "pool_ok k N p out"
  then have "all_requests p = (mset (free_list p) + mset (pool_overflow_free_list p)) + (mset (sqe_overflow p) + out)"
    by (simp add: pool_ok_def in_lists_def ac_simps)
  then show ?thesis by (simp add: used_def)
qed

lemma used_fields [simp]:
  "used (p\<lparr>sqe_overflow := x\<rparr>) = used p" "used (p\<lparr>requests := r\<rparr>) = used p"
  by (simp_all add: used_def all_requests_def)

lemma parents_fields [simp]: "parents (p\<lparr>sqe_overflow := x\<rparr>) = parents p"
  by (simp add: parents_def)

lemma parents_same: "used p' = used p \<Longrightarrow> (\<And>a. parent_fd (requests p' a) = parent_fd (requests p a)) \<Longrightarrow> parents p' = parents p"
  by (simp add: parents_def)

lemma size_parents: "size (parents p) \<le> size (used p)"
  by (metis parents_def size_filter_mset_lesseq size_image_mset)

text \<open>A request that is taken was not in use, and those in use stay as they are.\<close>

lemma take_request_used:
  assumes "pool_ok k N p out" "take_request fresh p = (a, p1)"
  shows "used p1 = add_mset a (used p)" "a \<notin># used p" "b \<in># used p \<Longrightarrow> requests p1 b = requests p b"
proof -
  let ?p = "p\<lparr>sqe_overflow := []\<rparr>" and ?p1 = "p1\<lparr>sqe_overflow := []\<rparr>"
  have ok: "pool_ok k N ?p (used p)"
    using assms(1) unfolding used_ok [OF assms(1)] by (simp add: pool_ok_def in_lists_def all_requests_def ac_simps)
  have take: "take_request fresh ?p = (a, ?p1)" using assms(2) by (auto simp: take_request_def split: if_splits)
  note t = take_request_ok [OF ok take]
  show "used p1 = add_mset a (used p)" using used_ok [OF t(1)] by simp
  show "a \<notin># used p" by (rule t(3))
  show "b \<in># used p \<Longrightarrow> requests p1 b = requests p b" using t(4) by simp
qed

lemma parents_next:
  assumes "pool_ok k N p out" "pool_next u open_at_prep open_at_fresh (open_at_reset pfd nm fl) (p, q, n) = (p', q', n')"
  shows "size (used p') = Suc (size (used p))"
    "parents p' = (if pfd = AT_FDCWD then parents p else add_mset pfd (parents p))"
proof -
  obtain a p1 where take: "take_request open_at_fresh p = (a, p1)" by fastforce
  note t = take_request_used [OF assms(1) take]
  define p2 where "p2 = p1\<lparr>requests := (requests p1)(a := open_at_reset pfd nm fl (requests p1 a))\<rparr>"
  have used: "used p' = used p2" and reqs: "\<And>b. parent_fd (requests p' b) = parent_fd (requests p2 b)"
    using assms(2) take unfolding p2_def
    by (auto simp: pool_next_def enter_ring_def Let_def split: prod.splits option.splits)
  have p2: "used p2 = add_mset a (used p)" "parent_fd (requests p2 a) = pfd"
    "\<And>b. b \<in># used p \<Longrightarrow> requests p2 b = requests p b"
    using t by (auto simp: p2_def open_at_reset_def)
  have "image_mset (\<lambda>b. parent_fd (requests p2 b)) (used p) = image_mset (\<lambda>b. parent_fd (requests p b)) (used p)"
    using p2(3) by (intro image_mset_cong) simp
  then show "parents p' = (if pfd = AT_FDCWD then parents p else add_mset pfd (parents p))"
    using p2 by (simp add: parents_def used reqs)
  show "size (used p') = Suc (size (used p))" using used p2(1) by simp
qed

lemma parents_popped:
  "pool_try_pop_overflow u open_at_prep (p, q, n) = (b, p', q', n') \<Longrightarrow> parents p' = parents p \<and> used p' = used p"
  by (auto simp: pool_try_pop_overflow_def enter_ring_def Let_def intro!: parents_same
      split: list.splits option.splits prod.splits if_splits)

lemma parents_freed:
  assumes "pool_ok k N p (add_mset a out)" "pool_free a (p, n) = Returned (p', n')"
  shows "Suc (size (used p')) = size (used p)"
    "parents p = (if parent_fd (requests p a) = AT_FDCWD then parents p' else add_mset (parent_fd (requests p a)) (parents p'))"
proof -
  obtain p'' where free: "pool_free a (p, n) = Returned (p'', n - 1)" "pool_ok k N p'' out" "requests p'' = requests p"
      "sqe_overflow p'' = sqe_overflow p"
    using assms(1) by (rule pool_free_ok)
  have "used p = add_mset a (used p')" "requests p' = requests p"
    using used_ok [OF assms(1)] used_ok [OF free(2)] free assms(2) by simp_all
  then show "Suc (size (used p')) = size (used p)"
    "parents p = (if parent_fd (requests p a) = AT_FDCWD then parents p' else add_mset (parent_fd (requests p a)) (parents p'))"
    by (simp_all add: parents_def)
qed

text \<open>The counts as words.\<close>

lemma counts_add: "fd \<in># P \<Longrightarrow> counts (add_mset fd P) = (counts P)(fd \<mapsto> the (counts P fd) + 1)"
  by (auto simp: counts_def fun_eq_iff)

lemma counts_new: "fd \<notin># P \<Longrightarrow> counts (add_mset fd P) = (counts P)(fd \<mapsto> 1)"
  by (auto simp: counts_def fun_eq_iff dest: not_in_iff [THEN iffD1])

lemma counts_dom: "fd \<in> dom (counts P) \<longleftrightarrow> fd \<in># P"
  by (simp add: counts_def dom_def)

lemma counts_empty [simp]: "counts {#} = Map.empty"
  by (simp add: counts_def fun_eq_iff)

lemma counts_dec:
  assumes "size P + 1 < 2 ^ 64"
  shows "\<exists>c. counts (add_mset fd P) fd = Some c \<and> c \<noteq> 0 \<and>
    (if fd \<in># P then c - 1 \<noteq> 0 \<and> counts P = (counts (add_mset fd P))(fd \<mapsto> c - 1)
     else c - 1 = 0 \<and> counts P = (counts (add_mset fd P))(fd := None))"
proof -
  let ?c = "word_of_nat (Suc (count P fd)) :: size_t"
  have "count P fd \<le> size P" by (rule count_le_size)
  with assms have small: "Suc (count P fd) < 2 ^ 64" "count P fd < 2 ^ 64" by simp_all
  have zero: "(word_of_nat k :: size_t) = 0 \<longleftrightarrow> k = 0" if "k < 2 ^ 64" for k
    using that by (auto simp: word_of_nat_eq_0_iff dest: dvd_imp_le)
  have "?c \<noteq> 0" using zero [OF small(1)] by simp
  moreover have "?c - 1 = word_of_nat (count P fd)" by simp
  moreover have "(word_of_nat (count P fd) :: size_t) = 0 \<longleftrightarrow> fd \<notin># P" using zero [OF small(2)] by (simp add: not_in_iff)
  ultimately show ?thesis
    by (intro exI [of _ ?c]) (auto simp: counts_def fun_eq_iff)
qed

section \<open>Operations and counts\<close>

definition sure_outcome :: "('a \<Rightarrow> bool) \<Rightarrow> 'a outcome \<Rightarrow> bool" where
  "sure_outcome P r \<longleftrightarrow> (\<exists>x. r = Returned x \<and> P x)"

lemma sure_outcome_Returned [simp]: "sure_outcome P (Returned x) = P x"
  by (simp add: sure_outcome_def)

lemma sure_outcome_bind:
  "sure_outcome P r \<Longrightarrow> (\<And>x. P x \<Longrightarrow> sure_outcome Q (f x)) \<Longrightarrow> sure_outcome Q (bind_outcome r f)"
  by (auto simp: sure_outcome_def)

lemma sure_outcome_mono: "sure_outcome P r \<Longrightarrow> (\<And>x. P x \<Longrightarrow> Q x) \<Longrightarrow> sure_outcome Q r"
  by (auto simp: sure_outcome_def)

lemma sure_and_safe: "sure_outcome P r \<Longrightarrow> safe_outcome Q r \<Longrightarrow> sure_outcome (\<lambda>x. P x \<and> Q x) r"
  by (auto simp: sure_outcome_def)

text \<open>
  The counts are exact: the opens not yet finished, by their parents, and \<open>D\<close>, the directory that is listed; the handlers
  may still ask for \<open>b\<close> opens, and the counter does not wrap.
\<close>

definition dirs :: "int multiset \<Rightarrow> nat \<Rightarrow> 'q event_loop \<Rightarrow> bool" where
  "dirs D b e \<longleftrightarrow> dir_ref_count e = counts (parents (openat_request_pool e) + D) \<and> size D \<le> 1 \<and>
     size (used (openat_request_pool e)) + b + 2 < 2 ^ 64"

lemma dirs_fields [simp]:
  "dirs D b (e\<lparr>ring := q\<rparr>) = dirs D b e" "dirs D b (e\<lparr>in_flight := n\<rparr>) = dirs D b e"
  "dirs D b (e\<lparr>getdents_queue := g\<rparr>) = dirs D b e" "dirs D b (e\<lparr>read_free_queue := f\<rparr>) = dirs D b e"
  "dirs D b (e\<lparr>close_request_pool := p1\<rparr>) = dirs D b e" "dirs D b (e\<lparr>read_request_pool := p2\<rparr>) = dirs D b e"
  "dirs D b (e\<lparr>write_request_pool := p3\<rparr>) = dirs D b e"
  by (simp_all add: dirs_def)

lemma dirs_mono: "dirs D b e \<Longrightarrow> b' \<le> b \<Longrightarrow> dirs D b' e"
  by (simp add: dirs_def)

lemma queues_dirs [simp]:
  "dirs D b (queue_close u fd e) = dirs D b e" "dirs D b (queue_read u fd off e) = dirs D b e"
  "dirs D b (queue_write u fd buf off e) = dirs D b e" "dirs D b (queue_getdents fd e) = dirs D b e"
  by (simp_all add: queue_close_def queue_read_def queue_write_def queue_getdents_def split: prod.split)

lemma queue_fields [simp]:
  "dir_ref_count (queue_close u fd e) = dir_ref_count e" "openat_request_pool (queue_close u fd e) = openat_request_pool e"
  "openat_request_pool (queue_read u fd off e) = openat_request_pool e"
  "openat_request_pool (queue_write u fd buf off e) = openat_request_pool e"
  "openat_request_pool (queue_getdents fd e) = openat_request_pool e"
  by (simp_all add: queue_close_def queue_read_def queue_write_def queue_getdents_def split: prod.split)

lemma decrease_dirs:
  assumes "dir_ref_count e = counts (add_mset fd P)" "size P + 1 < 2 ^ 64"
  shows "sure_outcome (\<lambda>e'. dir_ref_count e' = counts P \<and> openat_request_pool e' = openat_request_pool e) (decrease_dir_ref u fd e)"
  using counts_dec [OF assms(2), of fd] assms(1) by (auto simp: decrease_dir_ref_def split: if_splits)

text \<open>What the handlers may ask for: opens in the working directory or in one of \<open>S\<close>.\<close>

fun call_ok :: "int set \<Rightarrow> queue_call \<Rightarrow> bool" where
  "call_ok S (Queue_Openat pfd nm fl) \<longleftrightarrow> pfd = AT_FDCWD \<or> pfd \<in> S"
| "call_ok S _ \<longleftrightarrow> True"

fun is_open :: "queue_call \<Rightarrow> bool" where
  "is_open (Queue_Openat pfd nm fl) \<longleftrightarrow> True"
| "is_open _ \<longleftrightarrow> False"

definition opens :: "queue_call list \<Rightarrow> nat" where
  "opens cs = length (filter is_open cs)"

definition dir_fd_ok :: "int \<Rightarrow> bool" where
  "dir_fd_ok fd \<longleftrightarrow> 0 \<le> fd \<and> fd < 524288"

lemma dir_fd_word: "dir_fd_ok fd \<Longrightarrow> (word_of_int fd :: size_t) < safe_min"
  by (simp add: dir_fd_ok_def safe_min_def word_less_def uint_word_of_int)

definition new_parents :: "int multiset \<Rightarrow> 'q event_loop \<Rightarrow> 'q event_loop \<Rightarrow> bool" where
  "new_parents D e e' \<longleftrightarrow> set_mset (parents (openat_request_pool e')) \<subseteq> set_mset (parents (openat_request_pool e)) \<union> set_mset D"

context ring_contract
begin

lemma queue_openat_dirs:
  assumes "loop_ok (infl (ring e)) R H L e" "dirs D (Suc b) e" "pfd = AT_FDCWD \<or> pfd \<in># D \<and> dir_fd_ok pfd"
  shows "sure_outcome (\<lambda>e'. dirs D b e' \<and> new_parents D e e') (queue_openat u pfd nm fl e)"
proof -
  have next_dirs: "dirs D b (next_openat u pfd nm fl e1) \<and> new_parents D e (next_openat u pfd nm fl e1)"
    if "openat_request_pool e1 = openat_request_pool e"
      "dir_ref_count e1 = (if pfd = AT_FDCWD then dir_ref_count e else counts (add_mset pfd (parents (openat_request_pool e) + D)))" for e1
  proof -
    obtain p q n where nxt: "pool_next u open_at_prep open_at_fresh (open_at_reset pfd nm fl) (openat_request_pool e, ring e1, in_flight e1) = (p, q, n)"
      by (metis prod_cases3)
    note ps = parents_next [OF loop_ok_pools(1) [OF assms(1)] nxt]
    show ?thesis using assms(2,3) that ps by (auto simp: next_openat_def nxt dirs_def new_parents_def)
  qed
  show ?thesis
  proof (cases "pfd = AT_FDCWD")
    case True
    then show ?thesis using next_dirs [of e] by (simp add: queue_openat_def)
  next
    case False
    with assms(3) have pfd: "pfd \<in># D" "dir_fd_ok pfd" by simp_all
    let ?P = "parents (openat_request_pool e) + D"
    have "dir_ref_count e = counts ?P" using assms(2) by (simp add: dirs_def)
    moreover from this obtain c where "dir_ref_count e pfd = Some c" using pfd(1) by (auto simp: counts_def)
    ultimately have "increase_dir_ref pfd e = Returned (e\<lparr>dir_ref_count := counts (add_mset pfd ?P)\<rparr>)"
      using counts_add [of pfd ?P] pfd(1) by (simp add: increase_dir_ref_def)
    then show ?thesis
      using False dir_fd_word [OF pfd(2)] next_dirs [of "e\<lparr>dir_ref_count := counts (add_mset pfd ?P)\<rparr>"] by (simp add: queue_openat_def)
  qed
qed

lemma do_calls_dirs:
  "loop_ok (infl (ring e)) R H L e \<Longrightarrow> dirs D (opens cs + b) e \<Longrightarrow> list_all (call_ok (set_mset D)) cs \<Longrightarrow>
   \<forall>fd \<in># D. dir_fd_ok fd \<Longrightarrow>
   sure_outcome (\<lambda>e'. (dirs D b e' \<and> new_parents D e e') \<and>
     (loop_ok (infl (ring e')) R H L e' \<and> later u infl (ring e) (ring e'))) (do_calls u cs e)"
proof (rule sure_and_safe [OF _ do_calls_ok], goal_cases)
  case 1
  then show ?case
  proof (induction cs arbitrary: e)
    case Nil
    then show ?case by (simp add: opens_def new_parents_def)
  next
    case (Cons c cs)
    have call: "sure_outcome (\<lambda>e1. dirs D (opens cs + b) e1 \<and> new_parents D e e1) (do_call u c e)"
    proof (cases c)
      case (Queue_Openat pfd nm fl)
      then show ?thesis using queue_openat_dirs [OF Cons.prems(1)] Cons.prems by (auto simp: opens_def)
    qed (use Cons.prems in \<open>auto simp: opens_def new_parents_def\<close>)
    show ?case unfolding do_calls.simps
    proof (rule sure_outcome_bind [OF sure_and_safe [OF call do_call_ok [OF Cons.prems(1)]]])
      fix e1
      assume "(dirs D (opens cs + b) e1 \<and> new_parents D e e1) \<and> loop_ok (infl (ring e1)) R H L e1 \<and> later u infl (ring e) (ring e1)"
      moreover from this have "sure_outcome (\<lambda>e'. dirs D b e' \<and> new_parents D e1 e') (do_calls u cs e1)"
        using Cons.prems by (intro Cons.IH) auto
      ultimately show "sure_outcome (\<lambda>e'. dirs D b e' \<and> new_parents D e e') (do_calls u cs e1)"
        by (elim sure_outcome_mono) (auto simp: new_parents_def)
    qed
  qed
qed

end

lemma each_entry_sure:
  assumes "\<And>d s. P s \<Longrightarrow> sure_outcome P (f d s)" "P s"
  shows "\<exists>s'. each_entry (\<lambda>d. entry_body (f d)) ds s = Some (Returned (), s') \<and> P s'"
  using assms(2)
proof (induction ds arbitrary: s)
  case (Cons d ds)
  obtain s' where "f d s = Returned s'" "P s'" using assms(1) [OF Cons.prems, of d] by (auto simp: sure_outcome_def)
  then show ?case using Cons.IH [of s'] by (auto simp: entry_body_def)
qed simp

text \<open>
  Handlers that keep the order of directories: an open names a parent only where the loop has just handed out an entry of that directory;
  \<open>budget\<close> bounds the number of opens they will ask for.
\<close>

locale tidy_handlers =
  fixes hs :: "'h handlers" and budget :: "'h \<Rightarrow> nat"
  assumes getdents_tidy: "getdents_handler hs fd isf nm h = (cs, h') \<Longrightarrow> list_all (call_ok {fd}) cs \<and> opens cs + budget h' \<le> budget h"
    and openat_tidy: "openat_handler hs fd isf h = (cs, h') \<Longrightarrow> list_all (call_ok {}) cs \<and> opens cs + budget h' \<le> budget h"
    and close_tidy: "close_handler hs h = (cs, h') \<Longrightarrow> list_all (call_ok {}) cs \<and> opens cs + budget h' \<le> budget h"
    and read_tidy: "read_handler hs a r h = ((ans, cs), h') \<Longrightarrow> list_all (call_ok {}) cs \<and> opens cs + budget h' \<le> budget h"
    and write_tidy: "write_handler hs fd res h = (cs, h') \<Longrightarrow> list_all (call_ok {}) cs \<and> opens cs + budget h' \<le> budget h"

locale counting_loop = ring_contract u infl + tidy_handlers hs budget
  for u :: "'q uring" and infl and hs :: "'h handlers" and budget
begin

lemma handler_calls:
  assumes "loop_ok (infl (ring e)) R H L e" "dirs {#} (budget h) e" "list_all (call_ok {}) cs \<and> opens cs + budget h' \<le> budget h"
  shows "sure_outcome (\<lambda>e'. dirs {#} (budget h') e' \<and> loop_ok (infl (ring e')) R H L e' \<and> later u infl (ring e) (ring e')) (do_calls u cs e)"
proof -
  have "dirs {#} (opens cs + budget h') e" using dirs_mono [OF assms(2)] assms(3) by simp
  from do_calls_dirs [OF assms(1) this] assms(3) show ?thesis by (auto elim: sure_outcome_mono)
qed

lemma handle_openat_dirs:
  assumes "loop_ok (infl (ring e)) R H L e" "Req OPENAT a \<in># infl (ring e) - R" "dirs {#} (budget h) e"
  shows "sure_outcome (\<lambda>(e', h'). dirs {#} (budget h') e') (handle_openat u hs a res (e, h))"
proof -
  obtain calls h' where handler: "(if 0 \<le> res then openat_handler hs res (is_file (requests (openat_request_pool e) a)) h else ([], h)) = (calls, h')"
    by fastforce
  then have tidy: "list_all (call_ok {}) calls \<and> opens calls + budget h' \<le> budget h"
    using openat_tidy by (auto simp: opens_def split: if_splits)
  show ?thesis
    unfolding handle_openat_def prod.case handler Let_def
  proof (rule sure_outcome_bind [OF handler_calls [OF assms(1,3) tidy]])
    fix e1
    assume e1: "dirs {#} (budget h') e1 \<and> loop_ok (infl (ring e1)) R H L e1 \<and> later u infl (ring e) (ring e1)"
    let ?p = "openat_request_pool e1" and ?pfd = "parent_fd (requests (openat_request_pool e1) a)"
    have "Req OPENAT a \<in># infl (ring e1) - R" using later_mem e1 assms(2) by blast
    then have ok: "pool_ok OPENAT queue_size ?p (add_mset a (out_of OPENAT (infl (ring e1) - add_mset (Req OPENAT a) R)))"
      using loop_ok_pools(1) [of "infl (ring e1)" R H L e1] e1 minus_add_mset [of "Req OPENAT a" "infl (ring e1)" R] by simp
    obtain p' where free: "\<And>n. pool_free a (?p, n) = Returned (p', n - 1)"
    proof -
      obtain p' where "pool_free a (?p, 0) = Returned (p', 0 - 1)" using ok by (rule pool_free_ok)
      then show thesis by (intro that [of p']) (auto simp: pool_free_def split: addr.splits if_splits)
    qed
    note freed = parents_freed [OF ok free [of 0]]
    have dec: "sure_outcome (\<lambda>e2. dir_ref_count e2 = counts (parents p') \<and> openat_request_pool e2 = ?p)
        (if ?pfd \<noteq> AT_FDCWD then decrease_dir_ref u ?pfd e1 else Returned e1)"
    proof (cases "?pfd = AT_FDCWD")
      case True
      then show ?thesis using e1 freed(2) by (simp add: dirs_def)
    next
      case False
      have "size (parents p') + 1 < 2 ^ 64" using size_parents [of p'] freed(1) e1 by (simp add: dirs_def)
      then show ?thesis using False e1 freed(2) by (simp add: decrease_dirs dirs_def)
    qed
    show "sure_outcome (\<lambda>(e', h'). dirs {#} (budget h') e')
        (bind_outcome (if ?pfd \<noteq> AT_FDCWD then decrease_dir_ref u ?pfd e1 else Returned e1) (\<lambda>e2.
           bind_outcome (pool_free a (openat_request_pool e2, in_flight e2)) (\<lambda>(p, n).
             Returned (e2\<lparr>openat_request_pool := p, in_flight := n\<rparr>, h'))))"
      by (rule sure_outcome_bind [OF dec]) (use e1 freed(1) in \<open>auto simp: free dirs_def\<close>)
  qed
qed

text \<open>The other completions: whatever happens to their pools, the opens stay.\<close>

lemma handle_close_dirs:
  assumes "loop_ok (infl (ring e)) R H L e" "Req CLOSE a \<in># infl (ring e) - R" "dirs {#} (budget h) e"
  shows "sure_outcome (\<lambda>(e', h'). dirs {#} (budget h') e') (handle_close u hs a (e, h))"
proof -
  obtain calls h' where handler: "close_handler hs h = (calls, h')" by fastforce
  show ?thesis
    unfolding handle_close_def prod.case handler
  proof (rule sure_outcome_bind [OF handler_calls [OF assms(1,3) close_tidy [OF handler]]])
    fix e1
    assume e1: "dirs {#} (budget h') e1 \<and> loop_ok (infl (ring e1)) R H L e1 \<and> later u infl (ring e) (ring e1)"
    then have "Req CLOSE a \<in># infl (ring e1) - R" using later_mem assms(2) by blast
    from loop_ok_free(2) [OF _ this, of H L e1] e1
    show "sure_outcome (\<lambda>(e', h'). dirs {#} (budget h') e')
      (bind_outcome (pool_free a (close_request_pool e1, in_flight e1)) (\<lambda>(p, n).
         Returned (e1\<lparr>close_request_pool := p, in_flight := n\<rparr>, h')))" by auto
  qed
qed

lemma handle_write_dirs:
  assumes "loop_ok (infl (ring e)) R H L e" "Req WRITE a \<in># infl (ring e) - R" "dirs {#} (budget h) e"
  shows "sure_outcome (\<lambda>(e', h'). dirs {#} (budget h') e') (handle_write u hs a res (e, h))"
proof -
  obtain calls h' where handler: "write_handler hs (wr_fd (requests (write_request_pool e) a)) res h = (calls, h')" by fastforce
  show ?thesis
    unfolding handle_write_def prod.case handler
  proof (rule sure_outcome_bind [OF handler_calls [OF assms(1,3) write_tidy [OF handler]]])
    fix e1
    assume e1: "dirs {#} (budget h') e1 \<and> loop_ok (infl (ring e1)) R H L e1 \<and> later u infl (ring e) (ring e1)"
    let ?p = "write_request_pool e1"
    let ?r = "requests ?p a"
    let ?m = "e1\<lparr>write_request_pool := ?p\<lparr>requests := (requests ?p)(a := ?r\<lparr>wr_buffer := []\<rparr>)\<rparr>\<rparr>"
    let ?e2 = "if wr_offset ?r + word_of_int res \<noteq> size_of (wr_buffer ?r)
      then queue_write u (wr_fd ?r) (wr_buffer ?r) (wr_offset ?r + word_of_int res) ?m else e1"
    have "loop_ok (infl (ring ?m)) R H L ?m" using loop_ok_write_write [of _ R H L e1] e1 by simp
    from queue_write_ok [OF this] have e2: "loop_ok (infl (ring ?e2)) R H L ?e2 \<and> later u infl (ring e) (ring ?e2)"
      using e1 lat by (cases "wr_offset ?r + word_of_int res \<noteq> size_of (wr_buffer ?r)") (simp, blast, simp)
    have d2: "dirs {#} (budget h') ?e2" using e1 by simp
    have "Req WRITE a \<in># infl (ring ?e2) - R" using e2 later_mem assms(2) by blast
    from loop_ok_free(4) [OF conjunct1 [OF e2] this] d2
    show "sure_outcome (\<lambda>(e', h'). dirs {#} (budget h') e')
       (let p = write_request_pool e1; r = requests p a;
            e2 = (if wr_offset r + word_of_int res \<noteq> size_of (wr_buffer r) then
                    queue_write u (wr_fd r) (wr_buffer r) (wr_offset r + word_of_int res)
                      (e1\<lparr>write_request_pool := p\<lparr>requests := (requests p)(a := r\<lparr>wr_buffer := []\<rparr>)\<rparr>\<rparr>)
                  else e1)
        in bind_outcome (pool_free a (write_request_pool e2, in_flight e2)) (\<lambda>(p', n).
             Returned (e2\<lparr>write_request_pool := p', in_flight := n\<rparr>, h')))"
      unfolding Let_def by (elim exE conjE) simp
  qed
qed

lemma handle_read_dirs:
  assumes "loop_ok (infl (ring e)) R H L e" "Req READ a \<in># infl (ring e) - R" "dirs {#} (budget h) e"
  shows "sure_outcome (\<lambda>(answer, e', h'). dirs {#} (budget h') e') (handle_read u hs a res data (e, h))"
proof -
  consider "res = 0" | "0 < res" | "res < 0" by linarith
  then show ?thesis
  proof cases
    case 1
    define e1 where "e1 = queue_close u (rd_fd (requests (read_request_pool e) a)) e"
    have e1: "loop_ok (infl (ring e1)) R H L e1" "later u infl (ring e) (ring e1)"
      unfolding e1_def using queue_close_ok [OF assms(1)] by simp_all
    have "dirs {#} (budget h) e1" using assms(3) by (simp add: e1_def)
    with loop_ok_free(3) [OF e1(1) later_mem [OF e1(2) assms(2)]] show ?thesis
      by (auto simp: handle_read_def Let_def 1 e1_def [symmetric])
  next
    case 2
    define r where "r = (requests (read_request_pool e) a)\<lparr>
      rd_buffer := data @ drop (length data) (rd_buffer (requests (read_request_pool e) a)), rd_res := word_of_int res\<rparr>"
    define e1 where "e1 = e\<lparr>read_request_pool := (read_request_pool e)\<lparr>requests := (requests (read_request_pool e))(a := r)\<rparr>,
      in_flight := in_flight e - 1\<rparr>"
    have "loop_ok (infl (ring e)) R H L (e\<lparr>read_request_pool := (read_request_pool e)\<lparr>requests := (requests (read_request_pool e))(a := r)\<rparr>\<rparr>)"
      by (rule loop_ok_write_read [OF assms(1)]) (simp add: r_def)
    from loop_ok_hand(1) [OF this assms(2)]
    have e1: "loop_ok (infl (ring e1)) (add_mset (Req READ a) R) (add_mset a H) L e1" by (simp add: e1_def)
    have d1: "dirs {#} (budget h) e1" using assms(3) by (simp add: e1_def)
    obtain answer calls h' where handler: "read_handler hs a r h = ((answer, calls), h')" by (metis prod.exhaust)
    have eq: "handle_read u hs a res data (e, h) = bind_outcome (do_calls u calls e1) (\<lambda>e2.
         case answer of
           Inl err \<Rightarrow> Returned (Inl err, e2, h')
         | Inr _ \<Rightarrow> Returned (Inr (), queue_read u (rd_fd (requests (read_request_pool e2) a))
               (rd_offset (requests (read_request_pool e2) a) + word_of_int res) e2, h'))"
      using 2 handler unfolding handle_read_def Let_def prod.case r_def e1_def by simp
    show ?thesis
      unfolding eq
      by (rule sure_outcome_bind [OF handler_calls [OF e1 d1 read_tidy [OF handler]]]) (auto split: sum.split)
  next
    case 3
    then show ?thesis using assms(3) by (simp add: handle_read_def Let_def)
  qed
qed

lemma handle_cqe_dirs:
  assumes "loop_ok (infl (ring e)) (reaped u (ring e) k) H L e" "visible u (ring e) k" "u_cqe u k (ring e) = Some c"
    "dirs {#} (budget h) e"
  shows "sure_outcome (\<lambda>(answer, e', h'). dirs {#} (budget h') e') (handle_cqe u hs c (e, h))"
proof -
  let ?R = "reaped u (ring e) k"
  obtain x where x: "user_data c = Some x" and mem: "x \<in># infl (ring e) - ?R"
    using next_completion [OF assms(1-3)] by blast
  obtain k' a where ka: "x = Req k' a" by (cases x)
  have base: "base_op x e = k'" using base_op_eq [OF assms(1) mem] ka by simp
  have fin: "sure_outcome (\<lambda>(answer, e', h'). dirs {#} (budget h') e') (bind_outcome r (\<lambda>s'. Returned (Inr (), s')))"
    if "sure_outcome (\<lambda>(e', h'). dirs {#} (budget h') e') r" for r
    using that by (auto simp: sure_outcome_def)
  show ?thesis
    using mem base handle_openat_dirs [OF assms(1) _ assms(4)] handle_close_dirs [OF assms(1) _ assms(4)]
      handle_write_dirs [OF assms(1) _ assms(4)] handle_read_dirs [OF assms(1) _ assms(4)]
    by (cases k') (auto simp: handle_cqe_def x ka Let_def intro!: fin)
qed

lemma each_cqe_dirs:
  assumes "each_cqe u hs k (e, h) = Some r" "loop_with (infl (ring e)) (reaped u (ring e) k) {#} e" "visible u (ring e) k"
    "dirs {#} (budget h) e"
  shows "sure_outcome (\<lambda>(answer, k', e', h'). dirs {#} (budget h') e') r"
proof -
  have "u = u \<longrightarrow> hs = hs \<longrightarrow> loop_with (infl (ring (fst (e, h)))) (reaped u (ring (fst (e, h))) k) {#} (fst (e, h)) \<longrightarrow>
    visible u (ring (fst (e, h))) k \<longrightarrow> dirs {#} (budget (snd (e, h))) (fst (e, h)) \<longrightarrow>
    sure_outcome (\<lambda>(answer, k', e', h'). dirs {#} (budget h') e') r"
  proof (rule each_cqe.raw_induct [OF _ assms(1), where P = "\<lambda>u' hs' k s r. u' = u \<longrightarrow> hs' = hs \<longrightarrow>
      loop_with (infl (ring (fst s))) (reaped u (ring (fst s)) k) {#} (fst s) \<longrightarrow> visible u (ring (fst s)) k \<longrightarrow>
      dirs {#} (budget (snd s)) (fst s) \<longrightarrow>
      sure_outcome (\<lambda>(answer, k', e', h'). dirs {#} (budget h') e') r"], intro impI, goal_cases)
    case (1 each_cqe u' hs' k s r)
    obtain e h where s: "s = (e, h)" by fastforce
    note [simp] = s \<open>u' = u\<close> \<open>hs' = hs\<close>
    obtain H' L' where ok: "loop_ok (infl (ring e)) (reaped u (ring e) k) H' L' e" using 1(5) by (auto elim: loop_withE)
    show ?case
    proof (cases "u_cqe u k (ring e)")
      case None
      then show ?thesis using 1(2,7) by auto
    next
      case (Some c)
      have vis: "visible u (ring e) k" and d: "dirs {#} (budget h) e" using 1(6,7) by simp_all
      from sure_and_safe [OF handle_cqe_dirs [OF ok vis Some d] handle_cqe_ok [OF ok vis Some]]
      obtain answer e' h' where handled: "handle_cqe u hs c (e, h) = Returned (answer, e', h')" "dirs {#} (budget h') e'"
          "loop_with (infl (ring e')) (reaped u (ring e') (Suc k)) L' e'" "visible u (ring e') (Suc k)"
        by (auto simp: sure_outcome_def)
      show ?thesis
      proof (cases answer)
        case (Inl err)
        then show ?thesis using 1(2) Some handled by auto
      next
        case (Inr y)
        then have "each_cqe u hs (Suc k) (e', h') = Some r" using 1(2) Some handled(1) by simp
        from 1(1) [OF this] show ?thesis using handled loop_with_mono [OF handled(3), of "{#}"] by simp
      qed
    qed
  qed
  then show ?thesis using assms(2-4) by simp
qed

text \<open>Listing.\<close>

definition listing :: "'q event_loop \<Rightarrow> int \<Rightarrow> addr multiset \<Rightarrow> addr multiset \<Rightarrow> ('q, 'h, 'w) loop_state \<Rightarrow> bool" where
  "listing e0 fd H L s \<longleftrightarrow> (case s of (e, h, w) \<Rightarrow>
     loop_ok (infl (ring e)) {#} H L e \<and> dirs {#fd#} (budget h) e \<and> new_parents {#fd#} e0 e)"

lemma on_entry_dirs:
  assumes "listing e0 fd H L s" "dir_fd_ok fd"
  shows "sure_outcome (listing e0 fd H L) (on_entry u hs fd d s)"
proof -
  obtain e h w where s: "s = (e, h, w)" by (metis prod_cases3)
  obtain calls h' where handler: "getdents_handler hs fd (d_type d = DT_REG) (d_name d) h = (calls, h')" by fastforce
  note tidy = getdents_tidy [OF handler]
  have "dirs {#fd#} (opens calls + budget h') e" using assms(1) tidy by (auto simp: listing_def s elim: dirs_mono)
  then have "sure_outcome (\<lambda>e'. (dirs {#fd#} (budget h') e' \<and> new_parents {#fd#} e e') \<and>
      (loop_ok (infl (ring e')) {#} H L e' \<and> later u infl (ring e) (ring e'))) (do_calls u calls e)"
    using assms tidy by (intro do_calls_dirs) (auto simp: listing_def s)
  then have "sure_outcome (listing e0 fd H L) (bind_outcome (do_calls u calls e) (\<lambda>e'. Returned (e', h', w)))"
    by (rule sure_outcome_bind) (use assms(1) in \<open>auto simp: listing_def s new_parents_def\<close>)
  then show ?thesis using assms(1) by (simp add: on_entry_def s Let_def handler)
qed

lemma list_dir_dirs:
  fixes s :: "('q, 'h, 'w) loop_state"
  assumes "getdents_ok os" "list_dir u os hs fd s = Some r" "listing e0 fd H L s" "dir_fd_ok fd"
  shows "sure_outcome (listing e0 fd H L) r"
proof -
  have "u = u \<longrightarrow> hs = hs \<longrightarrow> getdents_ok os \<longrightarrow> dir_fd_ok fd \<longrightarrow> listing e0 fd H L s \<longrightarrow> sure_outcome (listing e0 fd H L) r"
  proof (rule list_dir.raw_induct [OF _ assms(2), where P = "\<lambda>u' os hs' fd s r. u' = u \<longrightarrow> hs' = hs \<longrightarrow> getdents_ok os \<longrightarrow>
      dir_fd_ok fd \<longrightarrow> listing e0 fd H L s \<longrightarrow> sure_outcome (listing e0 fd H L) r"], intro impI, goal_cases)
    case (1 list_dir u' os hs' fd s r)
    obtain e h w where s: "s = (e, h, w)" by (metis prod_cases3)
    obtain rd buffer w' where call: "sys_getdents64 os fd (32 * 1024) w = ((rd, buffer), w')" by (metis surj_pair)
    have u: "u' = u" "hs' = hs" and ok: "getdents_ok os" and fd: "dir_fd_ok fd" and inv: "listing e0 fd H L (e, h, w')"
      using 1(3-7) s by (simp_all add: listing_def)
    show ?case
    proof (cases "0 < rd")
      case False
      then show ?thesis using 1(2) call s inv by (cases "rd < 0") auto
    next
      case True
      then obtain ds where ds: "\<forall>d \<in> set ds. wf_dirent d" "take (nat rd) buffer = concat (map encode_dirent ds)"
        using ok call unfolding getdents_ok_def by blast
      let ?f = "\<lambda>d. entry_body (on_entry u hs fd d)"
      have walk: "walk_dirents ?f (take (nat rd) buffer) (e, h, w') = each_entry ?f ds (e, h, w')"
        unfolding ds(2) by (rule walk_dirents_encoded [OF ds(1)])
      obtain s1 where run: "each_entry ?f ds (e, h, w') = Some (Returned (), s1)" "listing e0 fd H L s1"
        using each_entry_sure [where P = "listing e0 fd H L" and f = "on_entry u hs fd"] on_entry_dirs [OF _ fd] inv by blast
      then have "list_dir u os hs fd s1 = Some r" using 1(2) True unfolding s u prod.case call walk by simp
      from 1(1) [OF this] show ?thesis using ok fd run(2) by simp
    qed
  qed
  then show ?thesis using assms by simp
qed

definition not_listed :: "int list \<Rightarrow> 'q event_loop \<Rightarrow> bool" where
  "not_listed fds e \<longleftrightarrow> distinct fds \<and> (\<forall>fd \<in> set fds. dir_fd_ok fd \<and> fd \<notin># parents (openat_request_pool e))"

lemma list_dirs_dirs:
  fixes s :: "('q, 'h, 'w) loop_state"
  assumes "getdents_ok os"
  shows "list_dirs u os hs fds s = Some r \<Longrightarrow> fine H L s \<Longrightarrow> dirs {#} (budget (fst (snd s))) (fst s) \<Longrightarrow> not_listed fds (fst s) \<Longrightarrow>
    sure_outcome (\<lambda>(e', h', w'). dirs {#} (budget h') e') r"
proof (induction fds arbitrary: s)
  case Nil
  then show ?case by (auto split: prod.splits)
next
  case (Cons fd fds)
  obtain e h w where s: "s = (e, h, w)" by (metis prod_cases3)
  let ?e = "e\<lparr>dir_ref_count := (dir_ref_count e)(fd \<mapsto> 1)\<rparr>"
  let ?dec = "\<lambda>(e', h', w'). bind_outcome (decrease_dir_ref u fd e') (\<lambda>e''. Returned (e'', h', w'))"
  obtain r1 where list: "list_dir u os hs fd (?e, h, w) = Some r1" using Cons.prems(1) s by (auto split: option.splits)
  have fd: "dir_fd_ok fd" "fd \<notin># parents (openat_request_pool e)" using Cons.prems(4) s by (simp_all add: not_listed_def)
  have "listing e fd H L (?e, h, w)"
    using Cons.prems(2,3) fd(2) counts_new [OF fd(2)] by (auto simp: listing_def s dirs_def new_parents_def)
  from list_dir_dirs [OF assms list this fd(1)]
  obtain e1 h1 w1 where r1: "r1 = Returned (e1, h1, w1)" "listing e fd H L (e1, h1, w1)"
    by (auto simp: sure_outcome_def)
  then have d1: "dirs {#fd#} (budget h1) e1" "new_parents {#fd#} e e1" "loop_ok (infl (ring e1)) {#} H L e1"
    by (simp_all add: listing_def)
  have "dir_ref_count e1 = counts (add_mset fd (parents (openat_request_pool e1)))" "size (parents (openat_request_pool e1)) + 1 < 2 ^ 64"
    using d1(1) size_parents [of "openat_request_pool e1"] by (simp_all add: dirs_def)
  from sure_and_safe [OF decrease_dirs [OF this] decrease_dir_ref_ok [OF d1(3)]]
  obtain e2 where e2: "decrease_dir_ref u fd e1 = Returned e2" "dir_ref_count e2 = counts (parents (openat_request_pool e1))"
      "openat_request_pool e2 = openat_request_pool e1" "loop_ok (infl (ring e2)) {#} H L e2"
    by (auto simp: sure_outcome_def)
  have "list_dirs u os hs fds (e2, h1, w1) = Some r" using Cons.prems(1) s list r1(1) e2(1) by simp
  moreover have "dirs {#} (budget h1) e2" using d1(1) e2(2,3) by (simp add: dirs_def)
  moreover have "not_listed fds e2"
    using Cons.prems(4) d1(2) e2(3) by (auto simp: s not_listed_def new_parents_def)
  ultimately show ?case using Cons.IH [of "(e2, h1, w1)"] e2(4) by simp
qed

text \<open>Requests that enter the ring later, and reads that come back.\<close>

lemma drain_overflow_dirs: "dirs {#} b (drain_overflow u e) = dirs {#} b e"
proof (induction "waiting e" arbitrary: e rule: less_induct)
  case less
  obtain again e' where round: "overflow_round u e = (again, e')" by fastforce
  have same: "dirs {#} b e' = dirs {#} b e"
    using round parents_popped
    by (fastforce simp: overflow_round_def dirs_def Let_def split: prod.splits if_splits)
  show ?case
  proof (cases again)
    case True
    then have "waiting e' < waiting e" using overflow_round_decreases round by simp
    moreover have "drain_overflow u e = drain_overflow u e'" by (subst drain_overflow.simps) (simp add: round True)
    ultimately show ?thesis using less.hyps [of e'] same by simp
  next
    case False
    then have "drain_overflow u e = e'" by (subst drain_overflow.simps) (simp add: round)
    then show ?thesis using same by simp
  qed
qed

lemma return_reads_dirs: "return_reads as e = Returned e' \<Longrightarrow> dirs {#} b e' = dirs {#} b e"
proof (induction as arbitrary: e)
  case (Cons a as)
  from Cons.prems obtain p n where "return_reads as (e\<lparr>read_request_pool := p, in_flight := n + 1\<rparr>) = Returned e'"
    by (auto simp: bind_outcome_Returned)
  from Cons.IH [OF this] show ?case by simp
qed simp

lemma collect_phase_dirs: "collect_phase u e = Returned e' \<Longrightarrow> dirs {#} b e' = dirs {#} b e"
proof -
  assume "collect_phase u e = Returned e'"
  then have "return_reads (read_free_queue (drain_overflow u e)) (drain_overflow u e\<lparr>read_free_queue := []\<rparr>) = Returned e'"
    by (simp add: collect_phase_def Let_def)
  from return_reads_dirs [OF this, of b] show ?thesis by (simp add: drain_overflow_dirs)
qed

lemma completion_phase_dirs:
  assumes "completion_phase u hs (e, h) = Some r" "loop_ok (infl (ring e)) {#} H L e" "dirs {#} (budget h) e"
  shows "sure_outcome (\<lambda>(answer, e', h'). dirs {#} (budget h') e') r"
proof -
  obtain res q where sub: "u_submit u (ring e) = (res, q)" by fastforce
  have infl: "infl q = infl (ring e)" by (rule submitted [OF sub])
  show ?thesis
  proof (cases "res < 0")
    case True
    then show ?thesis using assms(1,3) sub by (auto simp: completion_phase_def)
  next
    case False
    obtain q' where wait: "(if u_peek u q \<noteq> 0 then u_wait u q else Some q) = Some q'"
      using assms(1) sub False by (auto simp: completion_phase_def split: option.splits)
    then have infl': "infl q' = infl (ring e)" using infl waited [of q q'] by (auto split: if_splits)
    obtain r1 where each: "each_cqe u hs 0 (e\<lparr>ring := q'\<rparr>, h) = Some r1"
      and r: "r = bind_outcome r1 (\<lambda>(answer, k, e', h'). case answer of
          Inl err \<Rightarrow> Returned (Failed err, e', h')
        | Inr _ \<Rightarrow> Returned (Again, e'\<lparr>ring := u_advance u k (ring e')\<rparr>, h'))"
      using assms(1) sub False wait by (auto simp: completion_phase_def split: option.splits)
    have "loop_with (infl (ring (e\<lparr>ring := q'\<rparr>))) (reaped u (ring (e\<lparr>ring := q'\<rparr>)) 0) {#} (e\<lparr>ring := q'\<rparr>)"
      using assms(2) infl' by (auto intro!: loop_withI)
    then have "sure_outcome (\<lambda>(answer, k', e', h'). dirs {#} (budget h') e') r1"
      using assms(3) by (intro each_cqe_dirs [OF each]) simp_all
    then show ?thesis unfolding r by (rule sure_outcome_bind) (auto split: sum.split)
  qed
qed

end

text \<open>
  The states between the rounds of \<^verbatim>\<open>pump\<close>. A descriptor that is handed to \<^verbatim>\<open>queue_getdents\<close> comes from an open that has just
  succeeded, and the kernel does not return a descriptor that is still open: \<open>fresh_dirs\<close> says so of the
  directories that wait to be listed. The descriptors are below the limit that \<^verbatim>\<open>main\<close> sets.
\<close>

inductive rounds :: "'q uring \<Rightarrow> 'w os \<Rightarrow> 'h handlers \<Rightarrow> ('q, 'h, 'w) loop_state \<Rightarrow> ('q, 'h, 'w) loop_state \<Rightarrow> bool"
  for u os hs where
  no_round: "rounds u os hs s s"
| one_round: "pump_round u os hs s = Some (Returned (Again, s1)) \<Longrightarrow> rounds u os hs s1 s2 \<Longrightarrow> rounds u os hs s s2"

definition fresh_dirs :: "'q event_loop \<Rightarrow> bool" where
  "fresh_dirs e \<longleftrightarrow> distinct (getdents_queue e) \<and> (\<forall>fd \<in> set (getdents_queue e). dir_fd_ok fd \<and> dir_ref_count e fd = None)"

context counting_loop
begin

lemma pump_round_dirs:
  fixes h :: 'h and w :: 'w
  assumes "getdents_ok os" "loop_ok (infl (ring e)) {#} H L e" "pump_round u os hs (e, h, w) = Some r"
    "dirs {#} (budget h) e" "fresh_dirs e"
  shows "sure_outcome (\<lambda>(answer, e', h', w'). dirs {#} (budget h') e') r"
proof -
  obtain r1 where list: "listing_phase u os hs (e, h, w) = Some r1"
    using assms(3) by (auto simp: pump_round_def split: option.splits)
  have "not_listed (getdents_queue e) (e\<lparr>getdents_queue := []\<rparr>)"
    using assms(4,5) by (auto simp: not_listed_def fresh_dirs_def dirs_def counts_def)
  then have "sure_outcome (\<lambda>(e', h', w'). dirs {#} (budget h') e') r1"
    using list_dirs_dirs [OF assms(1) list [unfolded listing_phase_def prod.case]] assms(2,4) by simp
  moreover have "safe_outcome (fine H L) r1"
    using list_dirs_ok [OF assms(1) list [unfolded listing_phase_def prod.case]] assms(2) by simp
  ultimately obtain e1 h1 w1 where r1: "r1 = Returned (e1, h1, w1)" "dirs {#} (budget h1) e1" "loop_ok (infl (ring e1)) {#} H L e1"
    by (auto simp: sure_outcome_def)
  obtain e2 H2 where e2: "collect_phase u e1 = Returned e2" "loop_ok (infl (ring e2)) {#} H2 L e2"
    using collect_phase_ok [OF r1(3)] by blast
  have d2: "dirs {#} (budget h1) e2" using collect_phase_dirs [OF e2(1)] r1(2) by simp
  have r: "Some r = (if in_flight e2 = 0 then Some (Returned (Finished, e2, h1, w1))
      else (case completion_phase u hs (e2, h1) of
              None \<Rightarrow> None
            | Some r2 \<Rightarrow> Some (bind_outcome r2 (\<lambda>(answer, e', h'). Returned (answer, e', h', w1)))))"
    using assms(3) unfolding pump_round_def list option.case r1(1) by (simp add: e2(1))
  show ?thesis
  proof (cases "in_flight e2 = 0")
    case True
    then show ?thesis using r d2 by simp
  next
    case False
    then obtain r2 where fin: "completion_phase u hs (e2, h1) = Some r2"
      and r: "r = bind_outcome r2 (\<lambda>(answer, e', h'). Returned (answer, e', h', w1))"
      using r by (auto split: option.splits)
    show ?thesis unfolding r
      by (rule sure_outcome_bind [OF completion_phase_dirs [OF fin e2(2) d2]]) auto
  qed
qed

lemma pump_dirs:
  fixes s :: "('q, 'h, 'w) loop_state"
  assumes "getdents_ok os" "pump u os hs s = Some r" "loop_with (infl (ring (fst s))) {#} {#} (fst s)"
    "dirs {#} (budget (fst (snd s))) (fst s)" "\<And>e h w. rounds u os hs s (e, h, w) \<Longrightarrow> fresh_dirs e"
  shows "sure_outcome (\<lambda>(answer, e', h', w'). dirs {#} (budget h') e') r"
proof -
  let ?I = "\<lambda>os s. getdents_ok os \<and> loop_with (infl (ring (fst s))) {#} {#} (fst s) \<and>
    dirs {#} (budget (fst (snd s))) (fst s) \<and> (\<forall>e h w. rounds u os hs s (e, h, w) \<longrightarrow> fresh_dirs e)"
  let ?Q = "\<lambda>(answer :: unit expected, e', h', w' :: 'w). dirs {#} (budget h') e'"
  have "u = u \<longrightarrow> hs = hs \<longrightarrow> ?I os s \<longrightarrow> sure_outcome ?Q r"
  proof (rule pump.raw_induct [OF _ assms(2), where P = "\<lambda>u' os hs' s r. u' = u \<longrightarrow> hs' = hs \<longrightarrow> ?I os s \<longrightarrow> sure_outcome ?Q r"],
      intro impI, goal_cases)
    case (1 pump u' os hs' s r)
    obtain e h w where s: "s = (e, h, w)" by (metis prod_cases3)
    have u: "u' = u" "hs' = hs" using 1(3,4) by simp_all
    obtain H' L' where inv: "loop_ok (infl (ring e)) {#} H' L' e" using 1(5) s by (auto elim: loop_withE)
    have ok: "getdents_ok os" and d: "dirs {#} (budget h) e" and run: "\<And>e1 h1 w1. rounds u os hs (e, h, w) (e1, h1, w1) \<Longrightarrow> fresh_dirs e1"
      using 1(5) s by auto
    obtain r1 where round: "pump_round u os hs (e, h, w) = Some r1" using 1(2) s u by (auto split: option.splits)
    note both = sure_and_safe [OF pump_round_dirs [OF ok inv round d run [OF no_round]] pump_round_ok [OF ok inv round]]
    then obtain x where x: "r1 = Returned x" by (auto simp: sure_outcome_def)
    obtain answer e1 h1 w1 where eq: "x = (answer, e1, h1, w1)" by (metis prod_cases4)
    obtain R where r1: "r1 = Returned (answer, e1, h1, w1)" "dirs {#} (budget h1) e1"
        "loop_with (infl (ring e1)) R L' e1" "(\<forall>err. answer \<noteq> Failed err) \<longrightarrow> R = {#}"
      using both unfolding x eq by auto
    show ?case
    proof (cases answer)
      case Again
      then have more: "pump u os hs (e1, h1, w1) = Some r" using 1(2) s u round r1(1) by simp
      have "fresh_dirs e2" if "rounds u os hs (e1, h1, w1) (e2, h2, w2)" for e2 h2 w2
        using run one_round [OF _ that, of "(e, h, w)"] round r1(1) Again by auto
      with 1(1) [OF more] show ?thesis using ok r1 Again loop_with_mono [OF r1(3), of "{#}"] by simp
    qed (use 1(2) s u round r1 in auto)
  qed
  then show ?thesis using assms by blast
qed

end

lemma pool_idle: "pool_ok k N p {#} \<Longrightarrow> sqe_overflow p = [] \<Longrightarrow> used p = {#}"
  using used_ok [of k N p "{#}"] by simp

section \<open>An example\<close>

text \<open>Handlers that open the entries they are given, as many as their state says; a directory with one file.\<close>

definition open_entries :: "nat handlers" where
  "open_entries = \<lparr>openat_handler = (\<lambda>fd isf h. ([], h)),
     getdents_handler = (\<lambda>fd isf nm h. if h = 0 then ([], h) else ([Queue_Openat fd nm 0], h - 1)),
     close_handler = (\<lambda>h. ([], h)), read_handler = (\<lambda>a r h. ((Inr (), []), h)), write_handler = (\<lambda>fd res h. ([], h))\<rparr>"

interpretation open_each: counting_loop sim_uring sim_infl open_entries "\<lambda>h. h"
  by unfold_locales (auto simp: open_entries_def opens_def split: if_splits)

definition one_file :: linux_dirent64 where
  "one_file = \<lparr>d_ino = 7, d_off = 1, d_reclen = 24, d_type = DT_REG, d_name = ''f''\<rparr>"

definition sim_one_file :: "sim os" where
  "sim_one_file = sim_os\<lparr>sys_getdents64 := (\<lambda>fd sz w.
     if sim_script w = [] then ((24, encode_dirent one_file), w\<lparr>sim_script := [0]\<rparr>) else ((0, []), w))\<rparr>"

lemma one_file_ok: "wf_dirent one_file" "length (encode_dirent one_file) = 24"
  by (simp_all add: one_file_def wf_dirent_def encode_dirent_def)

lemma sim_one_file_ok: "getdents_ok sim_one_file"
  using one_file_ok by (auto simp: getdents_ok_def sim_one_file_def intro!: exI [of _ "[one_file]"])

lemma sim_one_file_simps [simp]:
  "sys_getdents64 sim_one_file fd sz w =
     (if sim_script w = [] then ((24, encode_dirent one_file), w\<lparr>sim_script := [0]\<rparr>) else ((0, []), w))"
  by (simp add: sim_one_file_def)

text \<open>The ring with one completion: it is handled and passed.\<close>

lemma sim_one_completion:
  assumes "sr_sq (ring e) = [(p, x)]" "sr_cq (ring e) = []"
    and "q = (ring e)\<lparr>sr_sq := [], sr_cq := [(x, sr_answer (ring e) p)]\<rparr>"
    and "handle_cqe sim_uring hs \<lparr>user_data = Some x, cqe_res = fst (sr_answer (ring e) p), cqe_bytes = snd (sr_answer (ring e) p)\<rparr>
      (e\<lparr>ring := q\<rparr>, h) = Returned (Inr (), e', h')"
    and "sr_cq (ring e') = sr_cq q"
  shows "completion_phase sim_uring hs (e, h) = Some (Returned (Again, e'\<lparr>ring := (ring e')\<lparr>sr_cq := []\<rparr>\<rparr>, h'))"
proof -
  have "each_cqe sim_uring hs 1 (e', h') = Some (Returned (Inr (), 1, e', h'))"
    using assms(3,5) by (subst each_cqe.simps) simp
  then have "each_cqe sim_uring hs 0 (e\<lparr>ring := q\<rparr>, h) = Some (Returned (Inr (), 1, e', h'))"
    using assms(3,4) by (subst each_cqe.simps) simp
  then show ?thesis using assms(1-3,5) by (simp add: completion_phase_def)
qed

definition dir_queued :: "sim_ring event_loop" where
  "dir_queued = queue_getdents 3 idle_loop"

definition dir_listed :: "sim_ring event_loop" where
  "dir_listed = (next_openat sim_uring 3 ''f'' 0 (idle_loop\<lparr>dir_ref_count := [3 \<mapsto> 2]\<rparr>))\<lparr>dir_ref_count := [3 \<mapsto> 1]\<rparr>"

lemma decrease_simps:
  "dir_ref_count e = [fd \<mapsto> 2] \<Longrightarrow> decrease_dir_ref u fd e = Returned (e\<lparr>dir_ref_count := [fd \<mapsto> 1]\<rparr>)"
  "dir_ref_count e = [fd \<mapsto> 1] \<Longrightarrow> decrease_dir_ref u fd e = Returned ((queue_close u fd e)\<lparr>dir_ref_count := Map.empty\<rparr>)"
  by (simp_all add: decrease_dir_ref_def)

lemma dir_listing:
  "listing_phase sim_uring sim_one_file open_entries (dir_queued, 1, sim0) =
     Some (Returned (dir_listed, 0, sim0\<lparr>sim_script := [0]\<rparr>))"
proof -
  let ?e = "idle_loop\<lparr>dir_ref_count := [3 \<mapsto> 1]\<rparr>" and ?w = "sim0\<lparr>sim_script := [0]\<rparr>"
  let ?e2 = "next_openat sim_uring 3 ''f'' 0 (idle_loop\<lparr>dir_ref_count := [3 \<mapsto> 2]\<rparr>)"
  have call: "queue_openat sim_uring 3 ''f'' 0 ?e = Returned ?e2"
    by (simp add: queue_openat_def increase_dir_ref_def safe_min_def)
  have entry: "on_entry sim_uring open_entries 3 one_file (?e, 1, ?w) = Returned (?e2, 0, ?w)"
    by (simp add: on_entry_def one_file_def open_entries_def call Let_def)
  have "walk_dirents f (encode_dirent one_file) s = f one_file s" for f and s :: "(sim_ring, nat, sim) loop_state"
    using walk_dirents_encoded [of "[one_file]" f s] one_file_ok(1) by (auto split: option.splits)
  moreover have "list_dir sim_uring sim_one_file open_entries 3 (?e2, 0, ?w) = Some (Returned (?e2, 0, ?w))"
    by (subst list_dir.simps) simp
  moreover have "sim_script sim0 = []" by (simp add: sim0_def)
  ultimately have "list_dir sim_uring sim_one_file open_entries 3 (?e, 1, sim0) = Some (Returned (?e2, 0, ?w))"
    using entry by (subst list_dir.simps) (simp add: one_file_ok(2) entry_body_def)
  moreover have "decrease_dir_ref sim_uring 3 ?e2 = Returned dir_listed"
    unfolding dir_listed_def by (rule decrease_simps) (simp add: next_openat_def split: prod.split)
  ultimately show ?thesis by (simp add: listing_phase_def dir_queued_def queue_getdents_def idle_loop_def)
qed

lemma dir_listed_fields:
  "ring dir_listed = one_entry\<lparr>sr_staged := Prep_Openat 3 ''f'' 0, sr_sq := [(Prep_Openat 3 ''f'' 0, Req OPENAT last_request)]\<rparr>"
  "in_flight dir_listed = 1" "parent_fd (requests (openat_request_pool dir_listed) last_request) = 3"
  "op (requests (openat_request_pool dir_listed) last_request) = OPENAT"
  "getdents_queue dir_listed = []" "waiting dir_listed = 0" "read_free_queue dir_listed = []" "dir_ref_count dir_listed = [3 \<mapsto> 1]"
  "length (free_list (openat_request_pool dir_listed)) < pool_size (openat_request_pool dir_listed)"
  "close_request_pool dir_listed = make_request_pool CLOSE queue_size close_fresh"
  by (simp_all add: dir_listed_def next_openat_def pool_next_def first_request idle_loop_def enter_ring_def one_entry_def
      open_at_reset_def open_at_prep_def open_at_fresh_def Let_def waiting_def)

definition dir_closing :: "sim_ring event_loop" where
  "dir_closing = (queue_close sim_uring 3 (dir_listed\<lparr>ring := (ring dir_listed)\<lparr>sr_sq := []\<rparr>\<rparr>))\<lparr>dir_ref_count := Map.empty,
     openat_request_pool := (openat_request_pool dir_listed)\<lparr>free_list := free_list (openat_request_pool dir_listed) @ [last_request]\<rparr>,
     in_flight := 1\<rparr>"

lemma dir_closing_fields:
  "ring dir_closing = one_entry\<lparr>sr_staged := Prep_Close 3, sr_sq := [(Prep_Close 3, Req CLOSE last_request)]\<rparr>"
  "in_flight dir_closing = 1" "op (requests (close_request_pool dir_closing) last_request) = CLOSE"
  "getdents_queue dir_closing = []" "waiting dir_closing = 0" "read_free_queue dir_closing = []" "dir_ref_count dir_closing = Map.empty"
  "length (free_list (close_request_pool dir_closing)) < pool_size (close_request_pool dir_closing)"
  using dir_listed_fields(5-7)
  by (simp_all add: dir_closing_def queue_close_def pool_next_def first_request enter_ring_def dir_listed_fields(1,2,10) one_entry_def
      close_reset_def close_prep_def close_fresh_def Let_def waiting_def)

lemma dir_frees:
  "pool_free last_request (openat_request_pool dir_listed, n) = Returned ((openat_request_pool dir_listed)\<lparr>free_list :=
     free_list (openat_request_pool dir_listed) @ [last_request]\<rparr>, n - 1)"
  "pool_free last_request (close_request_pool dir_closing, n) = Returned ((close_request_pool dir_closing)\<lparr>free_list :=
     free_list (close_request_pool dir_closing) @ [last_request]\<rparr>, n - 1)"
  using dir_listed_fields(9) dir_closing_fields(8) by (simp_all add: pool_free_def last_request_def)

lemma open_finishes:
  "completion_phase sim_uring open_entries (dir_listed, 0) = Some (Returned (Again, dir_closing, 0))"
proof -
  let ?q = "(ring dir_listed)\<lparr>sr_sq := [], sr_cq := [(Req OPENAT last_request, 7, [])]\<rparr>"
  let ?e = "dir_listed\<lparr>ring := ?q\<rparr>"
  let ?e' = "dir_closing\<lparr>ring := (ring dir_closing)\<lparr>sr_cq := sr_cq ?q\<rparr>\<rparr>"
  have close: "queue_close sim_uring 3 ?e = (queue_close sim_uring 3 (dir_listed\<lparr>ring := (ring dir_listed)\<lparr>sr_sq := []\<rparr>\<rparr>))
      \<lparr>ring := (ring dir_closing)\<lparr>sr_cq := sr_cq ?q\<rparr>\<rparr>" "in_flight (queue_close sim_uring 3 ?e) = 2"
    by (simp_all add: queue_close_def pool_next_def first_request dir_listed_fields dir_closing_fields enter_ring_def one_entry_def
        close_prep_def close_reset_def Let_def)
  have "decrease_dir_ref sim_uring 3 ?e = Returned ((queue_close sim_uring 3 ?e)\<lparr>dir_ref_count := Map.empty\<rparr>)"
    by (rule decrease_simps) (simp add: dir_listed_fields)
  then have "handle_openat sim_uring open_entries last_request 7 (?e, 0) = Returned (?e', 0)"
    using dir_listed_fields(3)
    by (simp add: handle_openat_def open_entries_def Let_def dir_frees close(2)) (simp add: close(1) dir_closing_def)
  then have "handle_cqe sim_uring open_entries \<lparr>user_data = Some (Req OPENAT last_request), cqe_res = 7, cqe_bytes = []\<rparr> (?e, 0) =
      Returned (Inr (), ?e', 0)"
    by (simp add: handle_cqe_def base_op_def dir_listed_fields Let_def)
  then have "completion_phase sim_uring open_entries (dir_listed, 0) =
      Some (Returned (Again, ?e'\<lparr>ring := (ring ?e')\<lparr>sr_cq := []\<rparr>\<rparr>, 0))"
    by (intro sim_one_completion [where q = ?q]) (simp_all add: dir_listed_fields one_entry_def)
  moreover have "?e'\<lparr>ring := (ring ?e')\<lparr>sr_cq := []\<rparr>\<rparr> = dir_closing"
    by (simp add: dir_closing_fields one_entry_def)
  ultimately show ?thesis by simp
qed

definition dir_closed :: "sim_ring event_loop" where
  "dir_closed = dir_closing\<lparr>ring := (ring dir_closing)\<lparr>sr_sq := []\<rparr>, in_flight := 0,
     close_request_pool := (close_request_pool dir_closing)\<lparr>free_list := free_list (close_request_pool dir_closing) @ [last_request]\<rparr>\<rparr>"

lemma close_finishes:
  "completion_phase sim_uring open_entries (dir_closing, 0) = Some (Returned (Again, dir_closed, 0))"
proof -
  let ?q = "(ring dir_closing)\<lparr>sr_sq := [], sr_cq := [(Req CLOSE last_request, 7, [])]\<rparr>"
  let ?e' = "dir_closed\<lparr>ring := ?q\<rparr>"
  have "handle_close sim_uring open_entries last_request (dir_closing\<lparr>ring := ?q\<rparr>, 0) = Returned (?e', 0)"
    by (simp add: handle_close_def open_entries_def dir_frees dir_closing_fields(2)) (simp add: dir_closed_def)
  then have "handle_cqe sim_uring open_entries \<lparr>user_data = Some (Req CLOSE last_request), cqe_res = 7, cqe_bytes = []\<rparr>
      (dir_closing\<lparr>ring := ?q\<rparr>, 0) = Returned (Inr (), ?e', 0)"
    by (simp add: handle_cqe_def base_op_def dir_closing_fields(3) Let_def)
  then have "completion_phase sim_uring open_entries (dir_closing, 0) =
      Some (Returned (Again, ?e'\<lparr>ring := (ring ?e')\<lparr>sr_cq := []\<rparr>\<rparr>, 0))"
    by (intro sim_one_completion [where q = ?q]) (simp_all add: dir_closing_fields one_entry_def)
  moreover have "?e'\<lparr>ring := (ring ?e')\<lparr>sr_cq := []\<rparr>\<rparr> = dir_closed"
    by (simp add: dir_closed_def dir_closing_fields(1) one_entry_def)
  ultimately show ?thesis by simp
qed

lemma dir_rounds:
  "pump_round sim_uring sim_one_file open_entries (dir_queued, 1, sim0) = Some (Returned (Again, dir_closing, 0, sim0\<lparr>sim_script := [0]\<rparr>))"
  "pump_round sim_uring sim_one_file open_entries (dir_closing, 0, w) = Some (Returned (Again, dir_closed, 0, w))"
  "pump_round sim_uring sim_one_file open_entries (dir_closed, 0, w) = Some (Returned (Finished, dir_closed, 0, w))"
proof -
  have "listing_phase sim_uring sim_one_file open_entries (dir_listed, 0, w') = Some (Returned (dir_listed, 0, w'))" for w'
    by (simp add: listing_phase_def dir_listed_fields(5))
  then have "pump_round sim_uring sim_one_file open_entries (dir_queued, 1, sim0) =
      pump_round sim_uring sim_one_file open_entries (dir_listed, 0, sim0\<lparr>sim_script := [0]\<rparr>)"
    unfolding pump_round_def dir_listing by simp
  also have "\<dots> = Some (Returned (Again, dir_closing, 0, sim0\<lparr>sim_script := [0]\<rparr>))"
    by (simp add: plain_round dir_listed_fields open_finishes)
  finally show "pump_round sim_uring sim_one_file open_entries (dir_queued, 1, sim0) =
      Some (Returned (Again, dir_closing, 0, sim0\<lparr>sim_script := [0]\<rparr>))" .
  show "pump_round sim_uring sim_one_file open_entries (dir_closing, 0, w) = Some (Returned (Again, dir_closed, 0, w))"
    by (simp add: plain_round dir_closing_fields close_finishes)
  have "getdents_queue dir_closed = []" "waiting dir_closed = 0" "read_free_queue dir_closed = []" "in_flight dir_closed = 0"
    using dir_closing_fields(4-6) by (simp_all add: dir_closed_def waiting_def)
  then show "pump_round sim_uring sim_one_file open_entries (dir_closed, 0, w) = Some (Returned (Finished, dir_closed, 0, w))"
    by (simp add: plain_round)
qed

lemma dir_pumped:
  "pump sim_uring sim_one_file open_entries (dir_queued, 1, sim0) =
     Some (Returned (Inr (), dir_closed, 0, sim0\<lparr>sim_script := [0]\<rparr>))"
proof -
  let ?w = "sim0\<lparr>sim_script := [0]\<rparr>"
  have "pump sim_uring sim_one_file open_entries (dir_closed, 0, ?w) = Some (Returned (Inr (), dir_closed, 0, ?w))"
    by (subst pump.simps) (simp add: dir_rounds(3))
  then have "pump sim_uring sim_one_file open_entries (dir_closing, 0, ?w) = Some (Returned (Inr (), dir_closed, 0, ?w))"
    by (subst pump.simps) (simp add: dir_rounds(2))
  then show ?thesis by (subst pump.simps) (simp add: dir_rounds(1) del: One_nat_def)
qed

inductive_cases rounds_from: "rounds u os hs s s2"

lemma dir_fresh:
  assumes "rounds sim_uring sim_one_file open_entries (dir_queued, 1, sim0) (e, h, w)"
  shows "fresh_dirs e"
proof -
  have "rounds sim_uring sim_one_file open_entries (dir_closed, 0, w') (e, h, w) \<Longrightarrow> e = dir_closed" for w'
    by (erule rounds_from) (simp_all add: dir_rounds)
  then have "rounds sim_uring sim_one_file open_entries (dir_closing, 0, w') (e, h, w) \<Longrightarrow> e = dir_closing \<or> e = dir_closed" for w'
    by (erule_tac rounds_from) (auto simp: dir_rounds)
  then have "e = dir_queued \<or> e = dir_closing \<or> e = dir_closed"
    using assms by (elim rounds_from [of _ _ _ "(dir_queued, 1, sim0)"]) (auto simp: dir_rounds simp del: One_nat_def)
  moreover have "fresh_dirs dir_queued"
    by (simp add: fresh_dirs_def dir_queued_def queue_getdents_def idle_loop_def dir_fd_ok_def)
  moreover have "fresh_dirs dir_closing" "fresh_dirs dir_closed"
    using dir_closing_fields(4) by (simp_all add: fresh_dirs_def dir_closed_def)
  ultimately show ?thesis by blast
qed

lemma dir_queued_dirs: "dirs {#} 1 dir_queued"
proof -
  have "used (openat_request_pool idle_loop) = {#}"
    by (rule pool_idle [of OPENAT queue_size]) (simp_all add: idle_loop_def request_pool_ok)
  moreover have "dir_ref_count idle_loop = Map.empty" by (simp add: idle_loop_def)
  ultimately show ?thesis by (simp add: dirs_def dir_queued_def queue_getdents_def parents_def)
qed

section \<open>Properties\<close>

text \<open>
  C11. The counts of directories are exact, and the contracts of the loop hold. For every ring that keeps the contract of liburing, every
  kernel that lists in whole records and handlers that open entries only in the directory they were given (or
  in the working directory), when no directory is queued for listing that is still in use: \<^verbatim>\<open>pump\<close>, if it returns, has violated none of
  its contracts, the count of every directory is the number of opens in it that are not
  finished, and after a success no directory is counted any more. (An entry is removed in \<^verbatim>\<open>decrease_dir_ref\<close> only, which then calls
  \<^verbatim>\<open>queue_close\<close>.)
\<close>

theorem directories_are_released:
  assumes "counting_loop u infl hs budget" "getdents_ok os" "loop_ok (infl (ring e)) {#} H L e" "dirs {#} (budget h) e"
    "\<And>e1 h1 w1. rounds u os hs (e, h, w) (e1, h1, w1) \<Longrightarrow> fresh_dirs e1" "pump u os hs (e, h, w) = Some r"
  shows "\<exists>answer e' h' w'. r = Returned (answer, e', h', w') \<and>
    dir_ref_count e' = counts (parents (openat_request_pool e')) \<and>
    (answer = Inr () \<and> total_requests e' < 2 ^ 64 \<longrightarrow> dir_ref_count e' = Map.empty)"
proof -
  have ring: "ring_contract u infl" using assms(1) by (simp add: counting_loop_def)
  have inv: "loop_with (infl (ring (fst (e, h, w)))) {#} {#} (fst (e, h, w))" using assms(3) by (auto intro: loop_withI)
  note both = sure_and_safe [OF counting_loop.pump_dirs [OF assms(1,2,6) inv _ assms(5)] ring_contract.pump_ok [OF ring assms(2,6) inv]]
  obtain answer e' h' w' R H' L' where r: "r = Returned (answer, e', h', w')" "dirs {#} (budget h') e'"
      "loop_ok (infl (ring e')) R H' L' e'"
      "answer = Inr () \<longrightarrow> R = {#} \<and> in_flight e' = 0 \<and> (waiting e' = 0 \<or> infl (ring e') \<noteq> {#})"
    using both assms(4) by (force simp: sure_outcome_def loop_with_def)
  have count: "dir_ref_count e' = counts (parents (openat_request_pool e'))" using r(2) by (simp add: dirs_def)
  have "dir_ref_count e' = Map.empty" if "answer = Inr ()" "total_requests e' < 2 ^ 64"
  proof -
    have "infl (ring e') = {#}" "waiting e' = 0" using finished_idle [of "infl (ring e')" H' L' e'] r(3,4) that by auto
    then have "used (openat_request_pool e') = {#}"
      using loop_ok_pools(1) [OF r(3)] r(4) that(1) by (intro pool_idle) (auto simp: waiting_def)
    then show ?thesis using count by (simp add: parents_def)
  qed
  then show ?thesis using r(1) count by blast
qed

theorem directories_are_released_witness:
  "pump sim_uring sim_one_file open_entries (dir_queued, 1, sim0) =
     Some (Returned (Inr (), dir_closed, 0, sim0\<lparr>sim_script := [0]\<rparr>)) \<and>
   dir_ref_count dir_queued = Map.empty \<and> getdents_queue dir_queued = [3] \<and>
   dir_ref_count dir_listed = [3 \<mapsto> 1] \<and> dir_ref_count dir_closed = Map.empty"
proof -
  have ok: "loop_ok (sim_infl (ring dir_queued)) {#} {#} {#} dir_queued"
    using idle_loop_ok by (simp add: dir_queued_def queue_getdents_def)
  have "total_requests dir_closed = 4 * queue_size"
    by (simp add: total_requests_def dir_closed_def dir_closing_def dir_listed_def queue_close_def next_openat_def
        pool_next_def first_request idle_loop_def enter_ring_def one_entry_def Let_def)
  then have "total_requests dir_closed < 2 ^ 64" by (simp add: queue_size_def)
  moreover have "\<exists>(answer :: unit expected) e' h' w'. Returned (Inr (), dir_closed, 0 :: nat, sim0\<lparr>sim_script := [0]\<rparr>) = Returned (answer, e', h', w') \<and>
      dir_ref_count e' = counts (parents (openat_request_pool e')) \<and>
      (answer = Inr () \<and> total_requests e' < 2 ^ 64 \<longrightarrow> dir_ref_count e' = Map.empty)"
    by (rule directories_are_released [OF open_each.counting_loop_axioms sim_one_file_ok ok dir_queued_dirs _ dir_pumped])
      (erule dir_fresh)
  ultimately have "dir_ref_count dir_closed = Map.empty" by auto
  moreover have "dir_ref_count dir_queued = Map.empty" "getdents_queue dir_queued = [3]"
    by (simp_all add: dir_queued_def queue_getdents_def idle_loop_def)
  ultimately show ?thesis using dir_pumped dir_listed_fields(8) by blast
qed

end
