(* ===== verification/Regex_Handler.thy ===== *)
theory Regex_Handler
  imports Line_Filters Request_Pool
begin

section \<open>The regex handler\<close>

text \<open>
  \<^verbatim>\<open>utils/regex_handler.h\<close>: the read handler that scans the buffers of finished reads on worker threads
  and prints what matched. First what one worker does with the requests it gets, as functions over
  its \<^verbatim>\<open>write_buffer\<close> and the world; then the queue the workers share, as a step relation. \<open>hs_scan\<close>
  is the scanner with the compiled pattern: a result and the matches it reports. An exception in a
  worker leaves its thread, which ends the program.
\<close>

record hs_match =
  m_begin :: nat
  m_end :: nat

definition handler_on_match :: "nat \<Rightarrow> nat \<Rightarrow> hs_match list \<Rightarrow> int \<times> hs_match list" where
  "handler_on_match from to matches = (0, matches @ [\<lparr>m_begin = from, m_end = to\<rparr>])"

text \<open>A scan calls the callback for every match until it answers something other than 0.\<close>

fun handler_report :: "(nat \<times> nat) list \<Rightarrow> hs_match list \<Rightarrow> hs_match list" where
  "handler_report [] ctx = ctx"
| "handler_report ((from, to) # ms) ctx =
     (case handler_on_match from to ctx of (stop, ctx') \<Rightarrow> if stop = 0 then handler_report ms ctx' else ctx')"

text \<open>The constructor; the number of workers is computed in \<^verbatim>\<open>std::size_t\<close>.\<close>

definition worker_count :: "32 word \<Rightarrow> size_t" where
  "worker_count hardware_concurrency = max (ucast hardware_concurrency - 1) 4"

definition regex_handler ::
  "(string \<Rightarrow> int \<times> string) \<Rightarrow> (string \<Rightarrow> int) \<Rightarrow> string \<Rightarrow> 32 word \<Rightarrow> size_t outcome" where
  "regex_handler hs_compile hs_alloc_scratch regex hardware_concurrency =
     (case hs_compile regex of
        (res, message) \<Rightarrow>
          (if res \<noteq> 0 then
             Threw (Runtime_Error (''failed to compile regex: '' @ regex @ '' ['' @ message @ '']''))
           else if hs_alloc_scratch regex \<noteq> 0 then
             Threw (Runtime_Error (''failed to create scratch space: '' @ show_int (hs_alloc_scratch regex)))
           else Returned (worker_count hardware_concurrency)))"

subsection \<open>One worker\<close>

text \<open>
  The loop over the matches. A view outside the buffer is undefined. The result of \<^verbatim>\<open>write\<close> is not
  looked at.
\<close>

fun put_matches :: "'w os \<Rightarrow> bytes \<Rightarrow> hs_match list \<Rightarrow> bytes \<times> 'w \<Rightarrow> (bytes \<times> 'w) outcome" where
  "put_matches os data [] s = Returned s"
| "put_matches os data (m # ms) s =
     (if m_end m < m_begin m \<or> length data < m_end m then Undefined
      else
        (case s of (write_buffer, w) \<Rightarrow>
           (let line = strip_front (sv_substr (m_begin m) (m_end m - m_begin m) data);
                buf = write_buffer @ line @ [newline]
            in if length buf > 4096 then
                 (case sys_write os STDOUT_FILENO buf w of (_, w') \<Rightarrow> put_matches os data ms ([], w'))
               else put_matches os data ms (buf, w))))"

definition worker_request ::
  "'w os \<Rightarrow> (bytes \<Rightarrow> int \<times> (nat \<times> nat) list) \<Rightarrow> read_request \<Rightarrow> bytes \<times> 'w \<Rightarrow> (bytes \<times> 'w) outcome" where
  "worker_request os hs_scan req s =
     (if length (rd_buffer req) < unat (rd_res req) then Undefined
      else
        (case hs_scan (take (unat (rd_res req)) (rd_buffer req)) of
           (res, ms) \<Rightarrow>
             (if res \<noteq> 0 then Terminated
              else put_matches os (rd_buffer req) (handler_report ms []) s)))"

fun worker_requests ::
  "'w os \<Rightarrow> (bytes \<Rightarrow> int \<times> (nat \<times> nat) list) \<Rightarrow> read_request list \<Rightarrow> bytes \<times> 'w \<Rightarrow> (bytes \<times> 'w) outcome" where
  "worker_requests os hs_scan [] s = Returned s"
| "worker_requests os hs_scan (r # rs) s = bind_outcome (worker_request os hs_scan r s) (worker_requests os hs_scan rs)"

text \<open>The life of a worker that gets the given requests before it is stopped.\<close>

definition handler_worker ::
  "'w os \<Rightarrow> int \<Rightarrow> (bytes \<Rightarrow> int \<times> (nat \<times> nat) list) \<Rightarrow> read_request list \<Rightarrow> 'w \<Rightarrow> 'w outcome" where
  "handler_worker os scratch_res hs_scan reqs w =
     (if scratch_res \<noteq> 0 then Terminated
      else bind_outcome (worker_requests os hs_scan reqs ([], w)) (\<lambda>(write_buffer, w').
        if write_buffer \<noteq> [] then Returned (snd (sys_write os STDOUT_FILENO write_buffer w'))
        else Returned w'))"

section \<open>What a worker prints\<close>

definition match_text :: "bytes \<Rightarrow> nat \<times> nat \<Rightarrow> bytes" where
  "match_text data m = strip_front (take (snd m - fst m) (drop (fst m) data)) @ [newline]"

definition request_text :: "(bytes \<Rightarrow> int \<times> (nat \<times> nat) list) \<Rightarrow> read_request \<Rightarrow> bytes" where
  "request_text hs_scan r =
     (let data = take (unat (rd_res r)) (rd_buffer r) in concat (map (match_text data) (snd (hs_scan data))))"

text \<open>What the scanner promises: success, and matches inside the data it was given.\<close>

definition scans :: "(bytes \<Rightarrow> int \<times> (nat \<times> nat) list) \<Rightarrow> bool" where
  "scans hs_scan \<longleftrightarrow> (\<forall>data. fst (hs_scan data) = 0 \<and>
     (\<forall>(from, to) \<in> set (snd (hs_scan data)). from \<le> to \<and> to \<le> length data))"

text \<open>A writer that takes everything it is given.\<close>

locale full_writer =
  fixes os :: "'w os" and out :: "'w \<Rightarrow> bytes" and good :: "'w \<Rightarrow> bool"
  assumes full_write: "good w \<Longrightarrow> out (snd (sys_write os STDOUT_FILENO bs w)) = out w @ bs \<and>
      good (snd (sys_write os STDOUT_FILENO bs w))"

lemma handler_report_eq: "handler_report ms ctx = ctx @ map (\<lambda>(f, t). \<lparr>m_begin = f, m_end = t\<rparr>) ms"
  by (induction ms ctx rule: handler_report.induct) (simp_all add: handler_on_match_def)

context full_writer
begin

lemma put_matches_ok:
  assumes "\<forall>(f, t) \<in> set ms. f \<le> t \<and> t \<le> n" "n \<le> length data" "good w"
  shows "\<exists>buf' w'. put_matches os data (map (\<lambda>(f, t). \<lparr>m_begin = f, m_end = t\<rparr>) ms) (buf, w) = Returned (buf', w') \<and>
      good w' \<and> out w' @ buf' = out w @ buf @ concat (map (match_text (take n data)) ms)"
  using assms(1,3)
proof (induction ms arbitrary: buf w)
  case (Cons m ms)
  obtain f t where m: "m = (f, t)" by fastforce
  have bounds: "f \<le> t" "t \<le> n" "t \<le> length data" using Cons.prems(1) assms(2) m by auto
  have cut: "take (t - f) (drop f (take n data)) = take (t - f) (drop f data)"
    using bounds by (simp add: drop_take min_def)
  have line: "match_text (take n data) m = strip_front (take (t - f) (drop f data)) @ [newline]"
    unfolding match_text_def m fst_conv snd_conv cut ..
  define buf1 where "buf1 = buf @ match_text (take n data) m"
  have rest: "\<forall>(f, t) \<in> set ms. f \<le> t \<and> t \<le> n" using Cons.prems(1) by simp
  show ?case
  proof (cases "length buf1 > 4096")
    case True
    let ?w = "snd (sys_write os STDOUT_FILENO buf1 w)"
    have w: "out ?w = out w @ buf1" "good ?w" using full_write [OF Cons.prems(2), of buf1] by simp_all
    have "put_matches os data (map (\<lambda>(f, t). \<lparr>m_begin = f, m_end = t\<rparr>) (m # ms)) (buf, w) =
        put_matches os data (map (\<lambda>(f, t). \<lparr>m_begin = f, m_end = t\<rparr>) ms) ([], ?w)"
      using True bounds by (simp add: m line [unfolded m] buf1_def sv_substr_def Let_def case_prod_beta)
    then show ?thesis using Cons.IH [OF rest w(2), of "[]"] w(1) by (simp add: buf1_def)
  next
    case False
    then have "put_matches os data (map (\<lambda>(f, t). \<lparr>m_begin = f, m_end = t\<rparr>) (m # ms)) (buf, w) =
        put_matches os data (map (\<lambda>(f, t). \<lparr>m_begin = f, m_end = t\<rparr>) ms) (buf1, w)"
      using bounds by (simp add: m line [unfolded m] buf1_def sv_substr_def Let_def)
    then show ?thesis using Cons.IH [OF rest Cons.prems(2), of buf1] by (simp add: buf1_def)
  qed
qed simp

lemma worker_request_ok:
  assumes "scans hs_scan" "unat (rd_res r) \<le> length (rd_buffer r)" "good w"
  shows "\<exists>buf' w'. worker_request os hs_scan r (buf, w) = Returned (buf', w') \<and> good w' \<and>
      out w' @ buf' = out w @ buf @ request_text hs_scan r"
proof -
  let ?data = "take (unat (rd_res r)) (rd_buffer r)"
  obtain ms where scan: "hs_scan ?data = (0, ms)" using assms(1) unfolding scans_def by (metis prod.collapse)
  have "\<forall>(f, t) \<in> set ms. f \<le> t \<and> t \<le> unat (rd_res r)"
    using assms(1) [unfolded scans_def, rule_format, of ?data] assms(2) scan by auto
  from put_matches_ok [OF this assms(2,3), of buf] show ?thesis
    using assms(2) scan by (simp add: worker_request_def request_text_def handler_report_eq Let_def)
qed

lemma worker_requests_ok:
  assumes "scans hs_scan"
  shows "\<forall>r \<in> set rs. unat (rd_res r) \<le> length (rd_buffer r) \<Longrightarrow> good w \<Longrightarrow>
    \<exists>buf' w'. worker_requests os hs_scan rs (buf, w) = Returned (buf', w') \<and> good w' \<and>
      out w' @ buf' = out w @ buf @ concat (map (request_text hs_scan) rs)"
proof (induction rs arbitrary: buf w)
  case (Cons r rs)
  obtain buf1 w1 where r: "worker_request os hs_scan r (buf, w) = Returned (buf1, w1)" "good w1"
      "out w1 @ buf1 = out w @ buf @ request_text hs_scan r"
    using worker_request_ok [OF assms, of r w buf] Cons.prems by auto
  obtain buf2 w2 where "worker_requests os hs_scan rs (buf1, w1) = Returned (buf2, w2)" "good w2"
      "out w2 @ buf2 = out w1 @ buf1 @ concat (map (request_text hs_scan) rs)"
    using Cons.IH [OF _ r(2), of buf1] Cons.prems by auto
  then show ?case using r by (simp flip: append_assoc)
qed simp

lemma handler_worker_ok:
  assumes "scans hs_scan" "\<forall>r \<in> set rs. unat (rd_res r) \<le> length (rd_buffer r)" "good w"
  shows "\<exists>w'. handler_worker os 0 hs_scan rs w = Returned w' \<and> good w' \<and>
      out w' = out w @ concat (map (request_text hs_scan) rs)"
proof -
  obtain buf w1 where "worker_requests os hs_scan rs ([], w) = Returned (buf, w1)" "good w1"
      "out w1 @ buf = out w @ concat (map (request_text hs_scan) rs)"
    using worker_requests_ok [OF assms, of "[]"] by auto
  then show ?thesis using full_write [of w1 buf] by (auto simp: handler_worker_def)
qed

end

lemma sim_full_write: "sim_script w = [] \<Longrightarrow> sim_out (snd (sys_write sim_os STDOUT_FILENO bs w)) = sim_out w @ bs \<and>
      sim_script (snd (sys_write sim_os STDOUT_FILENO bs w)) = []"
  by (simp add: sim_do_write_def sim_grant_def)

interpretation sim_full: full_writer sim_os sim_out "\<lambda>w. sim_script w = []"
  by unfold_locales (rule sim_full_write)

section \<open>The shared queue\<close>

text \<open>
  \<^verbatim>\<open>operator()\<close>, the loop of \<^verbatim>\<open>worker\<close> and the destructor as a step relation. The owner is the thread that
  runs the event loop: it calls \<^verbatim>\<open>operator()\<close>, whose critical section (append and \<^verbatim>\<open>notify_one\<close>) is one step,
  and in the end the destructor. \<open>H_Scan r\<close> stands for scanning, printing and \<^verbatim>\<open>free_read_request\<close>.
  \<open>pushed\<close> and \<open>freed\<close> record the requests that were handed over and given back.
\<close>

datatype hpc = H_Top | H_Acquire | H_Check | H_Enter_Wait | H_Sleeping | H_Decide | H_Scan addr | H_Flush | H_Done

datatype owner = Serving | Stopping | Joining | Joined

record handler =
  to_process :: "addr list"
  h_mutex :: "nat option"
  h_running :: bool
  workers :: "hpc list"
  h_owner :: owner
  pushed :: "addr multiset"
  freed :: "addr multiset"

definition h_wake :: "hpc \<Rightarrow> hpc" where
  "h_wake p = (if p = H_Sleeping then H_Acquire else p)"

definition h_goto :: "nat \<Rightarrow> hpc \<Rightarrow> handler \<Rightarrow> handler" where
  "h_goto t p s = s\<lparr>workers := (workers s)[t := p]\<rparr>"

definition h_at :: "nat \<Rightarrow> hpc \<Rightarrow> handler \<Rightarrow> bool" where
  "h_at t p s \<longleftrightarrow> t < length (workers s) \<and> workers s ! t = p"

definition h_start :: "nat \<Rightarrow> handler" where
  "h_start n = \<lparr>to_process = [], h_mutex = None, h_running = True, workers = replicate n H_Top, h_owner = Serving,
     pushed = {#}, freed = {#}\<rparr>"

definition h_push :: "addr \<Rightarrow> handler \<Rightarrow> handler" where
  "h_push r s = s\<lparr>to_process := to_process s @ [r], pushed := add_mset r (pushed s)\<rparr>"

inductive h_step :: "handler \<Rightarrow> handler \<Rightarrow> bool" where
  push_wake: "h_owner s = Serving \<Longrightarrow> h_mutex s = None \<Longrightarrow> h_at t H_Sleeping s \<Longrightarrow> h_step s (h_goto t H_Acquire (h_push r s))"
| push: "h_owner s = Serving \<Longrightarrow> h_mutex s = None \<Longrightarrow> H_Sleeping \<notin> set (workers s) \<Longrightarrow> h_step s (h_push r s)"
| h_loop: "h_at t H_Top s \<Longrightarrow> h_running s \<Longrightarrow> h_step s (h_goto t H_Acquire s)"
| h_leave: "h_at t H_Top s \<Longrightarrow> \<not> h_running s \<Longrightarrow> h_step s (h_goto t H_Flush s)"
| h_lock: "h_at t H_Acquire s \<Longrightarrow> h_mutex s = None \<Longrightarrow> h_step s (h_goto t H_Check (s\<lparr>h_mutex := Some t\<rparr>))"
| h_pred_true: "h_at t H_Check s \<Longrightarrow> \<not> h_running s \<or> to_process s \<noteq> [] \<Longrightarrow> h_step s (h_goto t H_Decide s)"
| h_pred_false: "h_at t H_Check s \<Longrightarrow> h_running s \<Longrightarrow> to_process s = [] \<Longrightarrow> h_step s (h_goto t H_Enter_Wait s)"
| h_sleep: "h_at t H_Enter_Wait s \<Longrightarrow> h_step s (h_goto t H_Sleeping (s\<lparr>h_mutex := None\<rparr>))"
| h_spurious: "h_at t H_Sleeping s \<Longrightarrow> h_step s (h_goto t H_Acquire s)"
| h_stop: "h_at t H_Decide s \<Longrightarrow> \<not> h_running s \<Longrightarrow> h_step s (h_goto t H_Flush (s\<lparr>h_mutex := None\<rparr>))"
| h_pop: "h_at t H_Decide s \<Longrightarrow> h_running s \<Longrightarrow> to_process s = r # rs \<Longrightarrow>
    h_step s (h_goto t (H_Scan r) (s\<lparr>to_process := rs, h_mutex := None\<rparr>))"
| h_scan: "h_at t (H_Scan r) s \<Longrightarrow> h_step s (h_goto t H_Top (s\<lparr>freed := add_mset r (freed s)\<rparr>))"
| h_flush: "h_at t H_Flush s \<Longrightarrow> h_step s (h_goto t H_Done s)"
| h_destroy: "h_owner s = Serving \<Longrightarrow> h_step s (s\<lparr>h_running := False, h_owner := Stopping\<rparr>)"
| h_notify: "h_owner s = Stopping \<Longrightarrow> h_step s (s\<lparr>workers := map h_wake (workers s), h_owner := Joining\<rparr>)"
| h_join: "h_owner s = Joining \<Longrightarrow> list_all (\<lambda>p. p = H_Done) (workers s) \<Longrightarrow> h_step s (s\<lparr>h_owner := Joined\<rparr>)"

inductive h_reachable :: "nat \<Rightarrow> handler \<Rightarrow> bool" for n where
  h_init: "h_reachable n (h_start n)"
| h_next: "h_reachable n s \<Longrightarrow> h_step s s' \<Longrightarrow> h_reachable n s'"

fun in_hand :: "hpc \<Rightarrow> addr multiset" where
  "in_hand (H_Scan r) = {#r#}"
| "in_hand _ = {#}"

definition h_holds :: "hpc \<Rightarrow> bool" where
  "h_holds p \<longleftrightarrow> p = H_Check \<or> p = H_Enter_Wait \<or> p = H_Decide"

lemma in_hand_update:
  "t < length ps \<Longrightarrow> sum_list (map in_hand (ps[t := q])) + in_hand (ps ! t) = sum_list (map in_hand ps) + in_hand q"
  by (induction ps arbitrary: t) (auto split: nat.splits simp: nth_Cons ac_simps)

lemma h_goto_simps [simp]:
  "to_process (h_goto t p s) = to_process s" "h_mutex (h_goto t p s) = h_mutex s" "h_running (h_goto t p s) = h_running s"
  "workers (h_goto t p s) = (workers s)[t := p]" "h_owner (h_goto t p s) = h_owner s" "pushed (h_goto t p s) = pushed s"
  "freed (h_goto t p s) = freed s"
  by (simp_all add: h_goto_def)

lemma h_holds_simps [simp]:
  "h_holds H_Check" "h_holds H_Enter_Wait" "h_holds H_Decide" "\<not> h_holds H_Top" "\<not> h_holds H_Acquire" "\<not> h_holds H_Sleeping"
  "\<not> h_holds (H_Scan r)" "\<not> h_holds H_Flush" "\<not> h_holds H_Done" "h_holds (h_wake p) = h_holds p"
  by (auto simp: h_holds_def h_wake_def)

text \<open>The three parts of the invariant, each kept by every step.\<close>

definition h_owned :: "handler \<Rightarrow> bool" where
  "h_owned s \<longleftrightarrow> pushed s = mset (to_process s) + sum_list (map in_hand (workers s)) + freed s"

definition h_locked :: "handler \<Rightarrow> bool" where
  "h_locked s \<longleftrightarrow> (\<forall>t < length (workers s). h_holds (workers s ! t) \<longleftrightarrow> h_mutex s = Some t)"

definition h_ready :: "handler \<Rightarrow> bool" where
  "h_ready s \<longleftrightarrow> (\<forall>t. h_at t H_Decide s \<and> h_running s \<longrightarrow> to_process s \<noteq> [])"

lemma in_hand_same: "h_at t p s \<Longrightarrow> in_hand p = in_hand q \<Longrightarrow> sum_list (map in_hand ((workers s)[t := q])) = sum_list (map in_hand (workers s))"
  using in_hand_update [of t "workers s" q] by (auto simp: h_at_def)

lemma in_hand_wake [simp]: "in_hand \<circ> h_wake = in_hand"
  by (auto simp: h_wake_def fun_eq_iff)

lemma h_step_owned: "h_step s s' \<Longrightarrow> h_owned s \<Longrightarrow> h_owned s'"
proof (induction rule: h_step.induct)
  case (h_pop t s r rs)
  then show ?case using in_hand_update [of t "workers s" "H_Scan r"] by (auto simp: h_owned_def h_at_def)
next
  case (h_scan t r s)
  then show ?case using in_hand_update [of t "workers s" H_Top] by (auto simp: h_owned_def h_at_def)
next
  case (push_wake s t r)
  then show ?case using in_hand_same [OF push_wake(3), of H_Acquire] by (simp add: h_owned_def h_push_def)
qed (auto simp: h_owned_def h_push_def in_hand_same)

lemma h_step_locked: "h_step s s' \<Longrightarrow> h_locked s \<Longrightarrow> h_locked s'"
  by (induction rule: h_step.induct) (auto simp: h_locked_def h_at_def h_push_def nth_list_update)

lemma h_holder: "h_locked s \<Longrightarrow> h_at t p s \<Longrightarrow> h_at t' p' s \<Longrightarrow> h_holds p \<Longrightarrow> h_holds p' \<Longrightarrow> t' = t"
  unfolding h_locked_def h_at_def by (metis option.inject)

lemma h_at_goto: "h_at u q (h_goto t p s) \<longleftrightarrow> u < length (workers s) \<and> (if u = t then q = p else workers s ! u = q)"
  by (auto simp: h_at_def nth_list_update)

lemma h_ready_frame:
  assumes "h_ready s" "q = H_Decide \<longrightarrow> h_running s \<longrightarrow> to_process s \<noteq> []"
  shows "h_ready (h_goto t q s)"
  using assms unfolding h_ready_def h_at_goto by (auto simp: h_at_def split: if_splits)

lemma h_ready_record [simp]:
  "h_ready (s\<lparr>h_mutex := l\<rparr>) = h_ready s" "h_ready (s\<lparr>freed := f\<rparr>) = h_ready s" "h_ready (s\<lparr>h_owner := ow\<rparr>) = h_ready s"
  "h_ready (s\<lparr>h_running := False\<rparr>)" "h_ready (s\<lparr>workers := map h_wake (workers s)\<rparr>) = h_ready s"
  by (auto simp: h_ready_def h_at_def h_wake_def split: if_splits)

lemma h_step_ready: "h_step s s' \<Longrightarrow> h_locked s \<Longrightarrow> h_ready s \<Longrightarrow> h_ready s'"
proof (induction rule: h_step.induct)
  case (h_pop t s r rs)
  have "\<not> h_at u H_Decide (h_goto t (H_Scan r) (s\<lparr>to_process := rs, h_mutex := None\<rparr>))" for u
    using h_holder [OF h_pop(4,1), of u H_Decide] by (cases "u = t") (auto simp: h_at_def)
  then show ?case by (simp add: h_ready_def)
next
  case (push_wake s t r)
  have "h_ready (h_push r s)" by (simp add: h_ready_def h_push_def)
  then show ?case by (rule h_ready_frame) simp
next
  case (push s r)
  then show ?case by (simp add: h_ready_def h_push_def)
qed (auto intro!: h_ready_frame)

lemma h_reachable_inv: "h_reachable n s \<Longrightarrow> h_owned s \<and> h_locked s \<and> h_ready s"
proof (induction rule: h_reachable.induct)
  case h_init
  have "sum_list (map in_hand (replicate n H_Top)) = {#}" by (induction n) simp_all
  then show ?case by (simp add: h_owned_def h_locked_def h_ready_def h_start_def h_at_def)
next
  case (h_next s s')
  then show ?case using h_step_owned h_step_locked h_step_ready by blast
qed

text \<open>
  While the handler is in service, no request waits with all workers asleep: a worker goes to sleep with the queue empty, and
  no request can be appended between its look at the queue and its sleep.
\<close>

definition h_served :: "handler \<Rightarrow> bool" where
  "h_served s \<longleftrightarrow> (h_owner s = Serving \<longrightarrow> h_running s \<and> (\<forall>t. h_at t H_Enter_Wait s \<longrightarrow> to_process s = []) \<and>
     H_Flush \<notin> set (workers s) \<and> H_Done \<notin> set (workers s) \<and>
     (to_process s \<noteq> [] \<and> workers s \<noteq> [] \<longrightarrow> (\<exists>p \<in> set (workers s). p \<noteq> H_Sleeping)))"

lemma h_served_goto:
  assumes "h_served s" "h_at t p s" "q \<noteq> H_Flush" "q \<noteq> H_Done" "q = H_Sleeping \<or> q = H_Enter_Wait \<longrightarrow> to_process s = []"
  shows "h_served (h_goto t q s)"
proof -
  have "q \<in> set ((workers s)[t := q])" using assms(2) by (auto simp: h_at_def set_update_memI)
  then show ?thesis
    using assms unfolding h_served_def h_at_goto
    by (auto simp: h_at_def dest: set_update_subset_insert [THEN subsetD] split: if_splits)
qed

lemma h_served_record [simp]:
  "h_served (s\<lparr>h_mutex := l\<rparr>) = h_served s" "h_served (s\<lparr>freed := f\<rparr>) = h_served s"
  by (simp_all add: h_served_def h_at_def)

lemma h_at_record: "h_at t p (s\<lparr>h_mutex := l\<rparr>) = h_at t p s" "h_at t p (s\<lparr>freed := f\<rparr>) = h_at t p s"
  by (simp_all add: h_at_def)

lemma h_served_push:
  assumes "h_served s" "h_locked s" "h_mutex s = None" "\<exists>p \<in> set (workers s). p \<noteq> H_Sleeping"
  shows "h_served (h_push r s)"
  using assms by (auto simp: h_served_def h_push_def h_at_def h_locked_def)

lemma h_served_push_any:
  assumes "h_locked s" "h_served s" "h_mutex s = None" "H_Sleeping \<notin> set (workers s)"
  shows "h_served (h_push r s)"
proof (cases "workers s = []")
  case True
  then show ?thesis using assms by (simp add: h_served_def h_push_def h_at_def)
next
  case False
  then have "hd (workers s) \<noteq> H_Sleeping" using assms(4) hd_in_set by metis
  then show ?thesis using assms False hd_in_set by (intro h_served_push) blast+
qed

lemma h_served_push_wake:
  assumes "h_locked s" "h_served s" "h_mutex s = None" "h_at t H_Sleeping s"
  shows "h_served (h_push r (h_goto t H_Acquire s))"
proof (rule h_served_push)
  show "\<exists>p \<in> set (workers (h_goto t H_Acquire s)). p \<noteq> H_Sleeping"
    using assms(4) by (intro bexI [of _ H_Acquire]) (auto simp: h_at_def set_update_memI)
  show "h_served (h_goto t H_Acquire s)" by (rule h_served_goto [OF assms(2,4)]) simp_all
  show "h_locked (h_goto t H_Acquire s)" using assms(1,4) by (auto simp: h_locked_def h_at_def nth_list_update)
qed (use assms(3) in simp)

lemma h_step_served: "h_step s s' \<Longrightarrow> h_locked s \<Longrightarrow> h_served s \<Longrightarrow> h_served s'"
proof (induction rule: h_step.induct)
  case (push_wake s t r)
  from h_served_push_wake [OF push_wake(4,5,2,3), of r] show ?case by (cases s) (simp add: h_push_def h_goto_def)
next
  case (push s r)
  then show ?case by (intro h_served_push_any)
next
  case (h_pop t s r rs)
  have "h_served (h_goto t (H_Scan r) s)" by (rule h_served_goto [OF h_pop(5,1)]) simp_all
  then show ?case using h_pop(1,3) by (auto simp: h_served_def h_at_def)
next
  case (h_sleep t s)
  then have empty: "h_owner s = Serving \<longrightarrow> to_process s = []" by (auto simp: h_served_def)
  have at: "h_at t H_Enter_Wait (s\<lparr>h_mutex := None\<rparr>)" and ok: "h_served (s\<lparr>h_mutex := None\<rparr>)"
    using h_sleep by (simp_all add: h_at_def)
  show ?case
  proof (cases "h_owner s = Serving")
    case True
    with empty show ?thesis by (intro h_served_goto [OF ok at]) simp_all
  qed (simp add: h_served_def)
next
  case (h_flush t s)
  then have "H_Flush \<in> set (workers s)" by (auto simp: h_at_def dest: nth_mem)
  then show ?case using h_flush(3) by (auto simp: h_served_def)
qed (auto simp: h_at_record intro: h_served_goto | auto simp: h_served_def)+

definition h_held :: "handler \<Rightarrow> bool" where
  "h_held s \<longleftrightarrow> (\<forall>t. h_mutex s = Some t \<longrightarrow> t < length (workers s))"

lemma h_step_held: "h_step s s' \<Longrightarrow> h_held s \<Longrightarrow> h_held s' \<and> length (workers s') = length (workers s)"
  by (induction rule: h_step.induct) (auto simp: h_held_def h_at_def h_push_def)

lemma h_reachable_served: "h_reachable n s \<Longrightarrow> h_served s \<and> h_held s \<and> length (workers s) = n"
proof (induction rule: h_reachable.induct)
  case h_init
  then show ?case by (cases n) (auto simp: h_served_def h_held_def h_start_def h_at_def)
next
  case (h_next s s')
  then show ?case using h_step_served h_step_held h_reachable_inv by simp
qed

text \<open>Some worker can then go on: the one that holds the mutex, or one that is awake.\<close>

lemma h_serving_moves:
  assumes "h_locked s" "h_held s" "h_served s" "h_owner s = Serving" "to_process s \<noteq> []" "workers s \<noteq> []"
  shows "\<exists>t p s'. h_at t p s \<and> p \<noteq> H_Sleeping \<and> h_step s s' \<and> \<not> h_at t p s'"
proof -
  have go: ?thesis if "h_at t p s" "p \<noteq> H_Sleeping" "h_step s (h_goto t q s')" "q \<noteq> p" for t p q s'
    using that by (intro exI [of _ t] exI [of _ p] exI [of _ "h_goto t q s'"]) (auto simp: h_at_goto)
  have run: "h_running s" and no_wait: "\<not> h_at t H_Enter_Wait s" for t using assms(3-5) by (auto simp: h_served_def)
  obtain r rs where queue: "to_process s = r # rs" using assms(5) by (cases "to_process s") auto
  consider t where "h_at t H_Check s" | t where "h_at t H_Decide s" | "\<forall>t. \<not> h_at t H_Check s \<and> \<not> h_at t H_Decide s" by blast
  then show ?thesis
  proof cases
    case 1
    show ?thesis by (rule go [OF 1 _ h_pred_true [OF 1]]) (use assms(5) in auto)
  next
    case 2
    show ?thesis by (rule go [OF 2 _ h_pop [OF 2 run queue]]) auto
  next
    case 3
    have "\<not> h_holds p" if "h_at t p s" for t p using 3 no_wait that by (auto simp: h_holds_def)
    then have free: "h_mutex s = None"
      using assms(1,2) unfolding h_locked_def h_held_def h_at_def by (metis not_Some_eq)
    obtain p where "p \<in> set (workers s)" "p \<noteq> H_Sleeping" using assms(3-6) by (auto simp: h_served_def)
    then obtain t where t: "h_at t p s" by (auto simp: h_at_def in_set_conv_nth)
    have moves: "p = H_Top \<or> p = H_Acquire \<or> (\<exists>r. p = H_Scan r)"
      using t \<open>p \<in> set (workers s)\<close> \<open>p \<noteq> H_Sleeping\<close> 3 no_wait assms(3,4) by (cases p) (auto simp: h_served_def)
    then show ?thesis
    proof (elim disjE exE)
      assume p: "p = H_Top"
      show ?thesis by (rule go [OF t _ h_loop [OF t [unfolded p] run]]) (simp_all add: p)
    next
      assume p: "p = H_Acquire"
      show ?thesis by (rule go [OF t _ h_lock [OF t [unfolded p] free]]) (simp_all add: p)
    next
      fix r assume p: "p = H_Scan r"
      show ?thesis by (rule go [OF t _ h_scan [OF t [unfolded p]]]) (simp_all add: p)
    qed
  qed
qed

section \<open>Properties\<close>

text \<open>A scanner that reports one match over the whole of non-empty data.\<close>

definition whole_scan :: "bytes \<Rightarrow> int \<times> (nat \<times> nat) list" where
  "whole_scan data = (0, if data = [] then [] else [(0, length data)])"

definition read_back :: "bytes \<Rightarrow> read_request" where
  "read_back data = read_fresh\<lparr>op := READ, rd_buffer := data, rd_res := size_of data\<rparr>"

lemma whole_scans: "scans whole_scan"
  by (simp add: scans_def whole_scan_def)




text \<open>
  C26. No read is processed twice or lost by the queue: in every state the handler can reach, the requests
  handed over are those in the queue, those a worker is busy with and those given back, each
  exactly once, and \<^verbatim>\<open>to_process.front()\<close> is only evaluated when the queue is not empty. While the handler is in service and a
  request waits, some worker that is awake can go on: the notification of a request is never lost.
\<close>

theorem handler_requests_in_one_place:
  assumes "h_reachable n s"
  shows "pushed s = mset (to_process s) + sum_list (map in_hand (workers s)) + freed s \<and>
    (h_at t H_Decide s \<and> h_running s \<longrightarrow> to_process s \<noteq> []) \<and>
    (h_owner s = Serving \<and> to_process s \<noteq> [] \<and> 0 < n \<longrightarrow>
      (\<exists>t p s'. h_at t p s \<and> p \<noteq> H_Sleeping \<and> h_step s s' \<and> \<not> h_at t p s'))"
proof -
  have "\<exists>t p s'. h_at t p s \<and> p \<noteq> H_Sleeping \<and> h_step s s' \<and> \<not> h_at t p s'"
    if "h_owner s = Serving" "to_process s \<noteq> []" "0 < n"
    using h_reachable_inv [OF assms] h_reachable_served [OF assms] that by (intro h_serving_moves) auto
  then show ?thesis using h_reachable_inv [OF assms] by (auto simp: h_owned_def h_ready_def)
qed

definition dropped :: handler where
  "dropped = \<lparr>to_process = [In_Pool 0], h_mutex = None, h_running = False, workers = [H_Done], h_owner = Joined,
     pushed = {#In_Pool 0#}, freed = {#}\<rparr>"

lemma dropped_reachable: "h_reachable 1 dropped"
proof -
  let ?s = "\<lambda>r p ow. \<lparr>to_process = [In_Pool 0], h_mutex = None, h_running = r, workers = [p], h_owner = ow,
     pushed = {#In_Pool 0#}, freed = {#}\<rparr>"
  have "h_reachable 1 (h_push (In_Pool 0) (h_start 1))"
    by (rule h_next [OF h_init], rule h_step.push) (simp_all add: h_start_def)
  then have "h_reachable 1 (?s True H_Top Serving)" by (simp add: h_push_def h_start_def)
  from h_next [OF this h_step.h_destroy] have "h_reachable 1 (?s False H_Top Stopping)" by simp
  from h_next [OF this h_step.h_notify] have "h_reachable 1 (?s False H_Top Joining)" by (simp add: h_wake_def)
  from h_next [OF this h_step.h_leave [where t = 0]] have "h_reachable 1 (?s False H_Flush Joining)" by (simp add: h_at_def h_goto_def)
  from h_next [OF this h_step.h_flush [where t = 0]] have "h_reachable 1 (?s False H_Done Joining)" by (simp add: h_at_def h_goto_def)
  from h_next [OF this h_step.h_join] show ?thesis by (simp add: dropped_def)
qed

theorem handler_requests_in_one_place_witness:
  "pushed dropped = mset (to_process dropped) + sum_list (map in_hand (workers dropped)) + freed dropped"
  using handler_requests_in_one_place [OF dropped_reachable] by simp


end
