(* ===== verification/Spec2Isabelle.thy ===== *)
theory Spec2Isabelle
  imports Om_Main Pipeline_Types Filters_Agree Grep_World Processor_Walk Grep_Progress Directory_Traverse Event_Loop_Dirs Regex_Handler
begin

text \<open>
  \<^bold>\<open>omnipp: cat and grep built from pipelines.\<close>

  \<^bold>\<open>The program.\<close> \<^verbatim>\<open>om\<close> is one executable that acts as \<^verbatim>\<open>cat\<close> or \<^verbatim>\<open>grep\<close> by the name it is started
  under (\<^verbatim>\<open>src/src/main.cpp\<close>). A command builds a pipeline \<^verbatim>\<open>source | transform | ... | sink\<close>
  (\<^verbatim>\<open>pipeline/pipeline.h\<close>); instantiating it nests the stages, each calling the next. \<^verbatim>\<open>cat\<close>
  (\<^verbatim>\<open>commands/cat.h\<close>) picks one of five pipelines from the file types of its input and of standard
  output. \<^verbatim>\<open>grep\<close> (\<^verbatim>\<open>commands/grep.h\<close>) searches a directory tree: worker threads share a queue of
  open directories, list them with \<^verbatim>\<open>getdents64\<close> and run every regular file through
  \<^verbatim>\<open>ReadFile | VectorScan | Batch | Write\<close>. Beside these there is a second engine for the same work, on
  io\_uring: a request pool per kind of request, an event loop and a regex handler (\<^verbatim>\<open>utils/\<close>).

  \<^bold>\<open>Conventions.\<close> \<^verbatim>\<open>std::size_t\<close> is a 64-bit word and wraps; counts the kernel returns are
  integers. \<^verbatim>\<open>std::expected\<close> is a sum. What ends a call is an \<open>outcome\<close>: it returned, it threw, or it did
  something with no defined result. Every call that may not return has an option type, \<open>None\<close> is
  \<open>does not return\<close>, and the loops over system calls are \<^theory_text>\<open>partial_function (option)\<close>; there is no fuel. That
  they do return is part of the theorems about them. A system call is a field of the record \<open>os\<close> over an
  abstract world: what the code relies on is a locale over these fields (short transfers and errors are
  allowed throughout), so that a theorem holds for every kernel that keeps the contract. Sizes of files
  are below \<open>2 ^ 63\<close> (\<^verbatim>\<open>off_t\<close>), numbers of objects in memory below \<open>2 ^ 64\<close>.

  \<^bold>\<open>The theories and the code they model\<close> (paths under \<^verbatim>\<open>src/src\<close>).
  \<^item> \<open>Om_Prelude\<close>: types, \<open>outcome\<close>, string views, lemmas on 64-bit counters (\<open>size_simps\<close>).
  \<^item> \<open>Posix\<close>: the interface \<open>os\<close>, flags and file types, the contracts \<open>pread_source\<close>, \<open>stdout_writer\<close>,
    \<open>transfer\<close>, \<open>file_kernel\<close>. \<open>Sim_Kernel\<close>: an executable kernel that keeps them, with a script of
    short and failing calls; the locales are interpreted on it and the witnesses run on it.
  \<^item> \<open>Pipeline\<close>: \<^verbatim>\<open>concepts/concepts.h\<close>, \<^verbatim>\<open>pipeline/pipeline.h\<close> (\<open>comp\<close>, \<open>pipe_op\<close>, \<open>execute\<close>), and what a stage
    promises to the one before it: \<open>emitter\<close>, \<open>counting_emitter\<close>, \<open>text_sink\<close>. \<open>Pipeline_Types\<close>: the overloads of the stages and which pipelines compile.
  \<^item> \<open>Sinks\<close>: \<^verbatim>\<open>sink/*.h\<close>. \<open>Sources\<close>: \<^verbatim>\<open>source/*.h\<close> but the traversal. \<open>Splice_Pipe\<close>: the two splice stages
    together on one pipe. \<open>Batch\<close>, \<open>Line_Filters\<close>, \<open>Tree_Sitter\<close>: \<^verbatim>\<open>transform/*.h\<close>;
    \<open>Filters_Agree\<close> compares the RE2 and the Vectorscan filter.
  \<^item> \<open>Auto_Release\<close>: \<^verbatim>\<open>utils/auto_release.h\<close>, \<^verbatim>\<open>utils/fd_closer.h\<close>, \<^verbatim>\<open>utils/auto_map.h\<close>.
  \<^item> \<open>Cat\<close>: \<^verbatim>\<open>config/config.h\<close>, \<^verbatim>\<open>commands/cat.h\<close>. \<open>Om_Main\<close>: \<^verbatim>\<open>main.cpp\<close>.
  \<^item> \<open>Dirents\<close>: the records of a \<^verbatim>\<open>getdents64\<close> buffer and the loop over them. \<open>Grep_File\<close>: the pipeline of
    a worker on one file. \<open>Grep\<close>: one entry, one directory, a worker alone, \<^verbatim>\<open>run\<close> and \<^verbatim>\<open>grep\<close>.
    \<open>Grep_World\<close>: the command over a directory tree. \<open>Processor\<close>: the threads of
    \<^verbatim>\<open>impl::Processor\<close> with queue, mutex, condition variable and atomics, as a step relation. \<open>Processor_Walk\<close>: the sequential walk
    over the tree that they refine. \<open>Grep_Parallel\<close>: the same threads with their pipelines, batches and the output they share. \<open>Grep_Progress\<close>: that they finish.
  \<^item> \<open>Directory_Traverse\<close>: \<^verbatim>\<open>source/directory_traverse_source.h\<close>.
  \<^item> \<open>Request_Pool\<close>: \<^verbatim>\<open>utils/request_pool.h\<close> on an explicit store of requests. \<open>Event_Loop\<close>:
    \<^verbatim>\<open>utils/event_loop.h\<close>. \<open>Event_Loop_Safety\<close>: its invariant; \<open>Event_Loop_Dirs\<close>: its counts of directories. \<open>Regex_Handler\<close>: \<^verbatim>\<open>utils/regex_handler.h\<close>.

  \<^bold>\<open>What is shown.\<close>
  \<^item> \<^verbatim>\<open>cat\<close>: from \<^verbatim>\<open>main\<close>, for every type of standard output, it returns; it copies the file exactly (or, highlighted, prints
    a text that a terminal shows as the file), or it reports an error after a prefix; it
    closes its file on every way out. The pieces: the write loop delivers every byte, the transfer
    loops end and copy, the pair of splice stages copies when no splice into the pipe is short.
  \<^item> \<^verbatim>\<open>grep\<close>: on one processor the whole command over any tree reads every file once and prints the line of
    every match, in the order in which the scanner reports them; a step below, the loop over directory buffers sees exactly
    the records the kernel wrote and never leaves the buffer, batching loses nothing, the line filters
    print the lines they should, the same ones where their engines agree. For any number of threads and any interleaving: the workers refine a sequential walk over the tree, every
    directory is processed exactly once, the queue and the counter stay in bounds, the workers stop
    only when all is done, everything found is printed once and uncut, and every run without spurious wake-ups ends within a bound linear in the tree and its
    matches, with everything printed but the batch of a thread left asleep; but the
    notification of the end can be lost, so that a thread sleeps with nobody left to wake it,
    and a batch that is full between a line and its newline lets a line of another worker be joined to it.
  \<^item> io\_uring engine: every request of every pool is in exactly one place through every round of the loop and
    \<^verbatim>\<open>in_flight_\<close> counts what is outstanding; the reference counts of directories are exact and, with handlers that
    behave, no contract of the loop is violated; the reads the regex handler holds are each queued, scanned or
    given back, and none waits while all workers sleep; a worker prints the line of every match when its writes are whole.
  \<^item> Pipelines: the stages run in the order written, and exactly which sequences of stages type check is shown.
  \<^item> Handles: no object is released twice or after it was given away, and none is lost but by a store through the
    address of its handle.
  \<^item> Where the code does not do what it means to, the theorem shows the run: a failed read is never
    taken out of the count, a write that finds the submission queue full is never
    sent, a continued write leaves its buffer, a short \<^verbatim>\<open>sendfile\<close> starts again at the same offset, a failed
    \<^verbatim>\<open>mmap\<close> is not noticed, a low hard limit on descriptors stops every command before it starts.
  \<^item> The last section below follows \<^verbatim>\<open>cat\<close> and \<^verbatim>\<open>grep\<close> from \<^verbatim>\<open>main\<close> to the output.

  \<^bold>\<open>How the proofs are put together.\<close> A stage is proved once inside the locale of what comes after it and
  \<^theory_text>\<open>sublocale\<close> then gives it the contract of a stage itself: \<open>stdout_writer\<close> gives \<open>text_sink\<close>, a text sink
  behind a batch is a \<open>line_sink\<close>, a line sink behind a filter a \<open>counting_emitter\<close>, an emitter behind a
  file a \<open>read_pipeline\<close>; the pipelines of \<^verbatim>\<open>cat\<close> and \<^verbatim>\<open>grep\<close> are instances of these. \<open>cat_kernel\<close> puts together what the pipelines
  of \<^verbatim>\<open>cat\<close> ask of the kernel for one open file, \<open>grep_world\<close> adds a table of descriptors and a tree, \<open>workers_kernel\<close> what the workers need of the kernel together (\<open>willing_workers\<close> with writes that do not fail). \<open>ring_contract\<close> is what the event loop asks of
  liburing, \<open>tidy_handlers\<close> what it asks of its handlers, \<open>still_tree\<close> what the traversal asks of \<^verbatim>\<open>std::filesystem\<close>.
  \<open>refinement_map\<close> takes the runs of one step relation to those of another, with stuttering. Step relations are
  treated with invariants by rule induction, and with measures where they terminate.

  \<^bold>\<open>Not modelled.\<close> \<^verbatim>\<open>utils/memcpy_override.cpp\<close> redirects \<^verbatim>\<open>memcpy\<close> to a vendored routine and computes nothing
  of its own. Everything in \<^verbatim>\<open>third_party\<close> is a parameter: the regex engines, tree-sitter, liburing. What is
  printed on standard error, the handler of contract violations and
  stack traces have no effect on the results. Failing allocations, and exceptions that leave a worker thread (they
  end the program), have no steps; the release of the ring when an event loop is destroyed is a call into
  liburing. Files that change while they are read are outside the contracts.
\<close>

section \<open>From main to the output\<close>

lemma grep_name_is_no_cat: "is_grep name \<Longrightarrow> \<not> is_cat name"
  by (cases name; cases "tl name") (auto simp: is_grep_def is_cat_def starts_with_def)

lemma main_runs_grep:
  assumes "set_rlimit os w = (Returned (), w1)" "is_grep (exe_trunk exe)"
    "grep os threads (load_config os w1) [regex, location] w1 = Some (r, w')"
    "r = Returned () \<or> (\<exists>e. r = Threw (Runtime_Error e))"
  shows "om_main os ts threads [exe, regex, location] w =
    Some (Returned 0, (case r of Threw (Runtime_Error e) \<Rightarrow> [e] | _ \<Rightarrow> []), w')"
  using assms grep_name_is_no_cat [OF assms(2)]
  by (auto simp: om_main_def main_body_def convert_raw_args_eq Let_def)

lemma main_runs_cat:
  assumes "set_rlimit os w = (Returned (), w1)" "is_cat (exe_trunk exe)"
    "cat os ts (load_config os w1) (target # ps) w1 = Some (r, w')"
    "r = Returned () \<or> (\<exists>e. r = Threw (Runtime_Error e))"
  shows "om_main os ts threads (exe # target # ps) w =
    Some (Returned 0, (case r of Threw (Runtime_Error e) \<Rightarrow> [e] | _ \<Rightarrow> []), w')"
  using assms by (auto simp: om_main_def main_body_def convert_raw_args_eq Let_def)

section \<open>Properties\<close>





end
